(* ===== verification/Prelude.thy ===== *)
theory Prelude
  imports Main "HOL-Library.Word" "HOL-Library.Monad_Syntax"
begin

unbundle bit_operations_syntax

text \<open>
  The vocabulary the component theories share.

  Machine integers.  Rust's \<open>u8\<close>, \<open>u16\<close>, \<open>u32\<close> and \<open>u64\<close> are words of that width.
  Addresses, sizes and indices (\<open>usize\<close>, 64 bits on the target) are naturals; every
  operation on them that could leave the range is one of the checked operations below.

  Panics.  The program is built with \<open>cargo run\<close> (\<^verbatim>\<open>tools-pi4/build_minivisor.sh\<close>,
  \<^verbatim>\<open>.cargo/config.toml\<close>), that is with the development profile, in which an arithmetic
  overflow, an index out of range, a failed assertion and an \<open>unwrap\<close> of nothing all
  enter the panic handler, which never returns (\<^verbatim>\<open>main.rs\<close>, \<open>panic\<close>).  A computation
  that may panic has type \<open>'a option\<close> and \<open>None\<close> is the panic; it is written
  in the \<open>do\<close> notation of the option monad.  A result \<open>Result<T, E>\<close> of the source
  is a sum \<open>E + T\<close>, and \<open>Option<T>\<close> is \<open>T option\<close>.
\<close>

type_synonym u8 = "8 word"
type_synonym u16 = "16 word"
type_synonym u32 = "32 word"
type_synonym u64 = "64 word"
type_synonym usize = nat

named_theorems panic_simps \<open>evaluation of checked operations\<close>
named_theorems returns_intros \<open>total correctness of computations that may panic\<close>
named_theorems ensures_intros \<open>partial correctness of computations that may panic\<close>

definition usize_limit :: nat where
  "usize_limit = 2 ^ 64"

definition uadd :: "usize \<Rightarrow> usize \<Rightarrow> usize option" where
  "uadd a b = (if a + b < usize_limit then Some (a + b) else None)"

definition usub :: "usize \<Rightarrow> usize \<Rightarrow> usize option" where
  "usub a b = (if b \<le> a then Some (a - b) else None)"

definition umul :: "usize \<Rightarrow> usize \<Rightarrow> usize option" where
  "umul a b = (if a * b < usize_limit then Some (a * b) else None)"

definition udiv :: "usize \<Rightarrow> usize \<Rightarrow> usize option" where
  "udiv a b = (if b = 0 then None else Some (a div b))"

definition ushl1 :: "nat \<Rightarrow> usize option" where
  \<comment> \<open>\<open>1 << n\<close> on a 64-bit type: a shift by 64 or more panics\<close>
  "ushl1 n = (if n < 64 then Some (2 ^ n) else None)"

definition wadd :: "'a::len word \<Rightarrow> 'a word \<Rightarrow> 'a word option" where
  "wadd a b = (if unat a + unat b < 2 ^ LENGTH('a) then Some (a + b) else None)"

definition wmod :: "'a::len word \<Rightarrow> 'a word \<Rightarrow> 'a word option" where
  "wmod a b = (if b = 0 then None else Some (a mod b))"

definition assert_that :: "bool \<Rightarrow> unit option" where
  "assert_that b = (if b then Some () else None)"

definition get_at :: "'a list \<Rightarrow> nat \<Rightarrow> 'a option" where
  "get_at xs i = (if i < length xs then Some (xs ! i) else None)"

definition set_at :: "'a list \<Rightarrow> nat \<Rightarrow> 'a \<Rightarrow> 'a list option" where
  "set_at xs i v = (if i < length xs then Some (xs[i := v]) else None)"

text \<open>A \<open>for\<close> loop whose body may panic: the state is threaded through the items.\<close>

fun for_each :: "'a list \<Rightarrow> ('a \<Rightarrow> 's \<Rightarrow> 's option) \<Rightarrow> 's \<Rightarrow> 's option" where
  "for_each [] body s = Some s"
| "for_each (x # xs) body s = do { s' \<leftarrow> body x s; for_each xs body s' }"

text \<open>\<open>x & !(m - 1)\<close> on addresses: clear the bits below \<open>m\<close>.\<close>

definition clear_low :: "usize \<Rightarrow> usize \<Rightarrow> usize" where
  "clear_low x m = unat ((of_nat x :: u64) AND NOT (of_nat m - 1))"

text \<open>\<open>1 << k\<close> on a word, kept folded so that single bits can be reasoned about.\<close>

definition flag :: "nat \<Rightarrow> 'a::len word" where
  "flag k = push_bit k 1"

text \<open>Two readings of a computation that may panic: it does not panic and its result satisfies
  \<open>Q\<close> (\<open>returns\<close>); if it does not panic, its result satisfies \<open>Q\<close> (\<open>ensures\<close>).\<close>

definition returns :: "'a option \<Rightarrow> ('a \<Rightarrow> bool) \<Rightarrow> bool" where
  "returns m Q \<longleftrightarrow> (\<exists>v. m = Some v \<and> Q v)"

definition ensures :: "'a option \<Rightarrow> ('a \<Rightarrow> bool) \<Rightarrow> bool" where
  "ensures m Q \<longleftrightarrow> (\<forall>v. m = Some v \<longrightarrow> Q v)"

lemma bit_flag_iff [bit_simps]: "bit (flag k :: 'a::len word) n \<longleftrightarrow> n = k \<and> n < LENGTH('a)"
  by (auto simp: flag_def bit_simps)

lemmas checked_defs = uadd_def usub_def umul_def udiv_def ushl1_def wadd_def wmod_def
  assert_that_def get_at_def set_at_def

lemma clear_low_power2:
  assumes "x < 2 ^ 64" and "k < 64"
  shows "clear_low x (2 ^ k) = x div 2 ^ k * 2 ^ k"
proof -
  have m: "(of_nat (2 ^ k) - 1 :: u64) = mask k"
    by (simp add: mask_eq_exp_minus_1)
  have "(of_nat x :: u64) AND NOT (mask k) = push_bit k (drop_bit k (of_nat x))"
    by (rule bit_word_eqI) (auto simp: bit_simps)
  moreover have "unat (push_bit k (drop_bit k (of_nat x :: u64))) = x div 2 ^ k * 2 ^ k"
  proof -
    have tx: "take_bit 64 x = x"
      using assms(1) by (simp add: take_bit_nat_eq_self_iff)
    have ux: "unat (of_nat x :: u64) = x"
      using assms(1) by (simp add: unat_of_nat)
    have "x div 2 ^ k * 2 ^ k \<le> x" by simp
    then have lt: "x div 2 ^ k * 2 ^ k < 2 ^ 64" using assms(1) by linarith
    have "unat (push_bit k (drop_bit k (of_nat x :: u64))) = take_bit 64 (push_bit k (drop_bit k x))"
      by (simp add: unsigned_push_bit_eq unsigned_drop_bit_eq ux tx)
    also have "\<dots> = x div 2 ^ k * 2 ^ k"
      using lt by (simp add: push_bit_eq_mult drop_bit_eq_div take_bit_nat_eq_self_iff)
    finally show ?thesis .
  qed
  ultimately show ?thesis
    by (simp only: clear_low_def m)
qed

lemma find_upt_SomeD: "find P [0..<n] = Some i \<Longrightarrow> i < n \<and> P i"
  by (auto simp: find_Some_iff)

text \<open>Overwriting one entry of a table, seen through an observation of its entries.\<close>

lemma image_fun_upd_insert:
  assumes "i < (n::nat)" "P v" "\<not> P (f i) \<or> g v = g (f i)"
  shows "(\<lambda>j. g ((f(i := v)) j)) ` {j. j < n \<and> P ((f(i := v)) j)} =
    insert (g v) ((\<lambda>j. g (f j)) ` {j. j < n \<and> P (f j)})" (is "?L = ?R")
proof
  show "?L \<subseteq> ?R"
    by (auto split: if_splits)
  have "g v \<in> ?L"
    using assms(1,2) by (intro image_eqI [of _ _ i]) simp_all
  moreover have "g (f j) \<in> ?L" if "j < n" "P (f j)" for j
    using that \<open>g v \<in> ?L\<close> assms(3) by (cases "j = i") (auto intro!: image_eqI [of _ _ j])
  ultimately show "?R \<subseteq> ?L"
    by blast
qed

text \<open>Invariants of \<open>for\<close> loops: kept by every iteration that does not panic, and, for a
  loop that never panics, established together with termination of the body.\<close>

lemma for_each_invariant:
  assumes "for_each xs body s = Some s'" and "I s"
    and "\<And>x s s'. x \<in> set xs \<Longrightarrow> I s \<Longrightarrow> body x s = Some s' \<Longrightarrow> I s'"
  shows "I s'"
  using assms
proof (induction xs arbitrary: s)
  case (Cons x xs)
  from Cons.prems(1) obtain s1 where s1: "body x s = Some s1" "for_each xs body s1 = Some s'"
    by (auto simp: bind_eq_Some_conv)
  have "I s1"
    using Cons.prems(2,3) s1(1) by auto
  with Cons.IH [OF s1(2)] Cons.prems(3) show ?case
    by auto
qed simp

lemma for_each_total:
  assumes "I s" and "\<And>x s. x \<in> set xs \<Longrightarrow> I s \<Longrightarrow> \<exists>s'. body x s = Some s' \<and> I s'"
  shows "\<exists>s'. for_each xs body s = Some s' \<and> I s'"
  using assms
proof (induction xs arbitrary: s)
  case (Cons x xs)
  obtain s1 where "body x s = Some s1" "I s1"
    using Cons.prems(1) Cons.prems(2) [of x s] by auto
  with Cons.IH [OF \<open>I s1\<close>] Cons.prems(2) show ?case
    by auto
qed simp

lemma for_each_establishes:
  assumes "for_each xs body s = Some s'" and "x \<in> set xs"
    and "\<And>s s'. body x s = Some s' \<Longrightarrow> Q s'"
    and "\<And>y s s'. y \<in> set xs \<Longrightarrow> Q s \<Longrightarrow> body y s = Some s' \<Longrightarrow> Q s'"
  shows "Q s'"
  using assms
proof (induction xs arbitrary: s)
  case (Cons y ys)
  from Cons.prems(1) obtain s1 where s1: "body y s = Some s1" "for_each ys body s1 = Some s'"
    by (auto simp: bind_eq_Some_conv)
  show ?case
  proof (cases "x \<in> set ys")
    case True
    show ?thesis
    proof (rule Cons.IH [OF s1(2) True Cons.prems(3)])
      fix z s s' assume "z \<in> set ys" "Q s" "body z s = Some s'"
      then show "Q s'" using Cons.prems(4) [of z s s'] by simp
    qed simp
  next
    case False
    with Cons.prems(2) have "y = x"
      by simp
    with Cons.prems(3) s1(1) have "Q s1"
      by blast
    with s1(2) show ?thesis
    proof (rule for_each_invariant)
      fix z s s' assume "z \<in> set ys" "Q s" "body z s = Some s'"
      then show "Q s'" using Cons.prems(4) [of z s s'] by simp
    qed
  qed
qed simp

lemma drop_bit_and_1: "drop_bit k w AND 1 = (of_bool (bit w k) :: 'a::len word)"
  by (simp add: and_one_eq mod2_eq_if bit_iff_odd_drop_bit)

lemma get_at_Some [simp]: "i < length xs \<Longrightarrow> get_at xs i = Some (xs ! i)"
  by (simp add: get_at_def)

lemma set_at_Some [simp]: "i < length xs \<Longrightarrow> set_at xs i v = Some (xs[i := v])"
  by (simp add: set_at_def)

lemma get_at_eq_Some_iff: "get_at xs i = Some v \<longleftrightarrow> i < length xs \<and> xs ! i = v"
  by (auto simp: get_at_def)

lemma set_at_eq_Some_iff: "set_at xs i v = Some ys \<longleftrightarrow> i < length xs \<and> ys = xs[i := v]"
  by (auto simp: set_at_def)

lemmas at_iffs = get_at_eq_Some_iff set_at_eq_Some_iff bind_eq_Some_conv

lemma for_each_skip:
  assumes "\<And>x. x \<in> set xs \<Longrightarrow> body x s = Some s"
  shows "for_each xs body s = Some s"
  using assms by (induction xs) auto

lemma for_each_append:
  "for_each (xs @ ys) body s = Option.bind (for_each xs body s) (for_each ys body)"
proof (induction xs arbitrary: s)
  case (Cons x xs)
  then show ?case by (cases "body x s") simp_all
qed simp

lemma flag_neq_0 [simp]: "b < LENGTH('a) \<Longrightarrow> flag b \<noteq> (0 :: 'a::len word)"
  using bit_flag_iff [of b b, where 'a = 'a] by auto

lemma and_flag_eq_0: "(w AND flag b = 0) \<longleftrightarrow> \<not> bit w b" for w :: "'a::len word"
proof
  assume "w AND flag b = 0"
  then have "\<not> bit (w AND flag b) b" by simp
  then show "\<not> bit w b" by (auto simp: bit_simps dest: bit_imp_le_length)
next
  assume "\<not> bit w b"
  then show "w AND flag b = 0" by (intro bit_word_eqI) (auto simp: bit_simps)
qed

subsection \<open>Rules for computations that may panic\<close>

lemma returns_Some [simp]: "returns (Some v) Q = Q v"
  by (simp add: returns_def)

lemma ensures_Some [simp]: "ensures (Some v) Q = Q v"
  by (simp add: ensures_def)

lemma ensures_None [simp]: "ensures None Q"
  by (simp add: ensures_def)

lemma returns_bind [returns_intros]:
  "returns m (\<lambda>v. returns (f v) Q) \<Longrightarrow> returns (Option.bind m f) Q"
  by (auto simp: returns_def)

lemma ensures_bind [ensures_intros]:
  "ensures m (\<lambda>v. ensures (f v) Q) \<Longrightarrow> ensures (Option.bind m f) Q"
  by (auto simp: ensures_def bind_eq_Some_conv)

lemma returns_if [returns_intros]:
  "(b \<Longrightarrow> returns x Q) \<Longrightarrow> (\<not> b \<Longrightarrow> returns y Q) \<Longrightarrow> returns (if b then x else y) Q"
  by simp

lemma ensures_if [ensures_intros]:
  "(b \<Longrightarrow> ensures x Q) \<Longrightarrow> (\<not> b \<Longrightarrow> ensures y Q) \<Longrightarrow> ensures (if b then x else y) Q"
  by simp

lemma returns_map [returns_intros]: "returns m (\<lambda>v. Q (f v)) \<Longrightarrow> returns (map_option f m) Q"
  by (auto simp: returns_def)

lemma returns_get_at [returns_intros]: "i < length xs \<Longrightarrow> Q (xs ! i) \<Longrightarrow> returns (get_at xs i) Q"
  by simp

lemma returns_set_at [returns_intros]: "i < length xs \<Longrightarrow> Q (xs[i := v]) \<Longrightarrow> returns (set_at xs i v) Q"
  by simp

lemma returns_weaken: "returns m P \<Longrightarrow> (\<And>v. m = Some v \<Longrightarrow> P v \<Longrightarrow> Q v) \<Longrightarrow> returns m Q"
  by (auto simp: returns_def)

lemma ensures_weaken: "ensures m P \<Longrightarrow> (\<And>v. m = Some v \<Longrightarrow> P v \<Longrightarrow> Q v) \<Longrightarrow> ensures m Q"
  by (auto simp: ensures_def)

lemma returnsD: "returns m Q \<Longrightarrow> \<exists>v. m = Some v \<and> Q v"
  by (simp add: returns_def)

lemma returns_not_None: "m \<noteq> None \<Longrightarrow> ensures m Q \<Longrightarrow> returns m Q"
  by (auto simp: returns_def ensures_def)

lemma returns_for_each:
  assumes "I s" and "\<And>x s. x \<in> set xs \<Longrightarrow> I s \<Longrightarrow> returns (body x s) I"
  shows "returns (for_each xs body s) I"
  unfolding returns_def by (rule for_each_total) (use assms in \<open>auto simp: returns_def\<close>)

end
