(* ===== verification/Vgic.thy ===== *)
theory Vgic
  imports Prelude
begin

text \<open>
  The List Registers of the GICv2 virtual interface: \<^verbatim>\<open>vgic_lr.rs\<close>
  (\<open>create_list_register_entry\<close>), \<^verbatim>\<open>vgic.rs\<close> (\<open>add_virtual_interrupt\<close>) and the
  accessors of \<^verbatim>\<open>drivers/gicv2.rs\<close> they go through.

  The registers of the physical interrupt controller that belong to the CPU executing
  the code are the record \<open>pcpu\<close>: its target bit (the byte it reads from \<open>GICD_ITARGETSR0\<close>),
  the control interface's \<open>VTR\<close>, \<open>EISR\<close> and List Registers, and the values it has
  written to \<open>GICD_SGIR\<close>.  The diagnostic counter \<open>LR_OVERFLOW_COUNT\<close> is kept with them.
\<close>

section \<open>List Register entries\<close>

definition GICH_LR_VIRTUAL_ID :: u32 where "GICH_LR_VIRTUAL_ID = mask 10"
definition GICH_LR_PHYSICAL_ID :: u32 where "GICH_LR_PHYSICAL_ID = push_bit 10 (mask 10)"
definition GICH_LR_EOI :: u32 where "GICH_LR_EOI = flag 19"
definition GICH_LR_STATE :: u32 where "GICH_LR_STATE = push_bit 28 (mask 2)"
definition GICH_LR_STATE_INACTIVE :: u32 where "GICH_LR_STATE_INACTIVE = 0"
definition GICH_LR_STATE_PENDING :: u32 where "GICH_LR_STATE_PENDING = flag 28"
definition GICH_LR_HW :: u32 where "GICH_LR_HW = flag 31"

lemmas lr_consts = GICH_LR_VIRTUAL_ID_def GICH_LR_PHYSICAL_ID_def GICH_LR_EOI_def
  GICH_LR_STATE_def GICH_LR_STATE_INACTIVE_def GICH_LR_STATE_PENDING_def GICH_LR_HW_def

definition create_list_register_entry ::
  "u32 \<Rightarrow> u32 \<Rightarrow> u32 \<Rightarrow> u32 option \<Rightarrow> u32" where
  "create_list_register_entry int_id grp priority physical_int_id =
     (let entry = GICH_LR_STATE_PENDING OR push_bit 30 grp
                  OR push_bit 23 (drop_bit 3 priority AND mask 5)
                  OR (int_id AND GICH_LR_VIRTUAL_ID)
      in case physical_int_id of
           Some p_int_id \<Rightarrow> entry OR (GICH_LR_HW OR (push_bit 10 p_int_id AND GICH_LR_PHYSICAL_ID))
         | None \<Rightarrow> entry OR GICH_LR_EOI)"

section \<open>The registers of the executing CPU\<close>

record pcpu =
  cpu_target :: u8
  gich_vtr :: u32
  gich_eisr :: u32
  gich_lr :: "nat \<Rightarrow> u32"
  lr_overflow_count :: u64
  gicd_sgir :: "u32 list"

text \<open>A CPU interface after reset, with the four List Registers of a GIC-400.\<close>

definition pcpu_reset :: "u8 \<Rightarrow> pcpu" where
  "pcpu_reset target = \<lparr>cpu_target = target, gich_vtr = 3, gich_eisr = 0, gich_lr = (\<lambda>_. 0),
     lr_overflow_count = 0, gicd_sgir = []\<rparr>"

definition get_current_cpu_target :: "pcpu \<Rightarrow> u8" where
  "get_current_cpu_target p = cpu_target p"

definition send_sgi :: "u8 \<Rightarrow> u32 \<Rightarrow> pcpu \<Rightarrow> pcpu" where
  "send_sgi target sgi_id p =
     p\<lparr>gicd_sgir := gicd_sgir p @ [(sgi_id AND mask 4) OR push_bit 16 (ucast target)]\<rparr>"

definition get_gich_vtr_list_regs :: "pcpu \<Rightarrow> nat" where
  "get_gich_vtr_list_regs p = unat (gich_vtr p AND mask 6) + 1"

definition get_gich_eisr :: "pcpu \<Rightarrow> u32" where
  "get_gich_eisr p = gich_eisr p"

definition get_gich_lr :: "nat \<Rightarrow> pcpu \<Rightarrow> u32" where
  "get_gich_lr i p = gich_lr p i"

definition set_gich_lr :: "nat \<Rightarrow> u32 \<Rightarrow> pcpu \<Rightarrow> pcpu" where
  "set_gich_lr i v p = p\<lparr>gich_lr := (gich_lr p)(i := v)\<rparr>"

section \<open>Injecting a virtual interrupt\<close>

definition NUMBER_OF_SUPPORTED_LRS :: nat where "NUMBER_OF_SUPPORTED_LRS = 4"

definition supported_lrn :: "pcpu \<Rightarrow> nat" where
  "supported_lrn p = min (get_gich_vtr_list_regs p) NUMBER_OF_SUPPORTED_LRS"

definition add_virtual_interrupt :: "u32 \<Rightarrow> pcpu \<Rightarrow> bool \<times> pcpu" where
  "add_virtual_interrupt entry p =
     (case find (\<lambda>i. (get_gich_lr i p AND GICH_LR_STATE) \<noteq> GICH_LR_STATE_INACTIVE \<and>
                     (get_gich_lr i p AND GICH_LR_VIRTUAL_ID) = (entry AND GICH_LR_VIRTUAL_ID))
             [0..<supported_lrn p] of
        Some i \<Rightarrow> (True, set_gich_lr i (get_gich_lr i p OR GICH_LR_STATE_PENDING) p)
      | None \<Rightarrow>
         (case find (\<lambda>i. (get_gich_lr i p AND GICH_LR_STATE) = GICH_LR_STATE_INACTIVE)
                 [0..<supported_lrn p] of
            Some i \<Rightarrow> (True, set_gich_lr i entry p)
          | None \<Rightarrow> (False, p\<lparr>lr_overflow_count := lr_overflow_count p + 1\<rparr>)))"

section \<open>The abstract view of the List Registers\<close>

definition lr_live :: "u32 \<Rightarrow> bool" where
  "lr_live lr = ((lr AND GICH_LR_STATE) \<noteq> GICH_LR_STATE_INACTIVE)"

definition lr_vid :: "u32 \<Rightarrow> u32" where
  "lr_vid lr = lr AND GICH_LR_VIRTUAL_ID"

text \<open>The abstract view of the List Registers: the virtual INTIDs the interface
  holds, those of them that are pending, and that no INTID sits in two registers.\<close>

definition live_vids :: "pcpu \<Rightarrow> u32 set" where
  "live_vids p = (\<lambda>i. lr_vid (gich_lr p i)) ` {i. i < supported_lrn p \<and> lr_live (gich_lr p i)}"

definition pending_vids :: "pcpu \<Rightarrow> u32 set" where
  "pending_vids p = (\<lambda>i. lr_vid (gich_lr p i)) ` {i. i < supported_lrn p \<and> bit (gich_lr p i) 28}"

definition lrs_full :: "pcpu \<Rightarrow> bool" where
  "lrs_full p = (\<forall>i < supported_lrn p. lr_live (gich_lr p i))"

definition lrs_distinct :: "pcpu \<Rightarrow> bool" where
  "lrs_distinct p =
     inj_on (\<lambda>i. lr_vid (gich_lr p i)) {i. i < supported_lrn p \<and> lr_live (gich_lr p i)}"

section \<open>Facts about entries\<close>

lemmas entry_defs = create_list_register_entry_def Let_def lr_consts

lemma entry_virtual_id [simp]:
  "create_list_register_entry i g p q AND GICH_LR_VIRTUAL_ID = i AND GICH_LR_VIRTUAL_ID"
  by (rule bit_word_eqI) (auto simp: entry_defs bit_simps split: option.split)

lemma entry_state [simp]:
  "create_list_register_entry i g p q AND GICH_LR_STATE = GICH_LR_STATE_PENDING"
  by (rule bit_word_eqI) (auto simp: entry_defs bit_simps split: option.split)

lemma entry_priority:
  "drop_bit 23 (create_list_register_entry i g p q) AND mask 5 = drop_bit 3 p AND mask 5"
  by (rule bit_word_eqI) (auto simp: entry_defs bit_simps split: option.split)

lemma entry_physical_id:
  "drop_bit 10 (create_list_register_entry i g p (Some q) AND GICH_LR_PHYSICAL_ID) = q AND mask 10"
  by (rule bit_word_eqI) (auto simp: entry_defs bit_simps split: option.split)

lemma entry_hw_eoi:
  assumes "g < 2"
  shows "create_list_register_entry i g p q AND GICH_LR_HW = (if q = None then 0 else GICH_LR_HW)"
    and "create_list_register_entry i g p None AND GICH_LR_EOI = GICH_LR_EOI"
    and "drop_bit 30 (create_list_register_entry i g p q) AND 1 = g"
proof -
  have "unat g < 2"
    using assms by (simp add: word_less_nat_alt)
  then have g01: "g = 0 \<or> g = 1"
    by (auto simp: less_2_cases_iff word_unat_eq_iff)
  then have g: "\<not> bit g n" if "0 < n" for n
    using that by (auto simp: bit_1_iff)
  from g01 show "drop_bit 30 (create_list_register_entry i g p q) AND 1 = g"
    by (intro bit_word_eqI) (auto simp: entry_defs bit_simps split: option.split)
  show "create_list_register_entry i g p q AND GICH_LR_HW = (if q = None then 0 else GICH_LR_HW)"
    by (rule bit_word_eqI) (auto simp: entry_defs bit_simps g split: option.split)
  show "create_list_register_entry i g p None AND GICH_LR_EOI = GICH_LR_EOI"
    by (rule bit_word_eqI) (auto simp: entry_defs bit_simps split: option.split)
qed


section \<open>Facts about injection\<close>

lemma lr_live_entry [simp]: "lr_live (create_list_register_entry i g p q)"
  by (simp add: lr_live_def GICH_LR_STATE_INACTIVE_def GICH_LR_STATE_PENDING_def flag_def)

lemma pending_imp_live: "bit lr 28 \<Longrightarrow> lr_live lr"
  by (auto simp: lr_live_def GICH_LR_STATE_INACTIVE_def GICH_LR_STATE_def
      dest!: arg_cong [where f = "\<lambda>w. bit w 28"]) (auto simp: bit_simps)

lemma lr_or_pending [simp]:
  "lr_vid (lr OR GICH_LR_STATE_PENDING) = lr_vid lr"
  "bit (lr OR GICH_LR_STATE_PENDING) 28"
  "lr_live (lr OR GICH_LR_STATE_PENDING)"
proof -
  show "lr_vid (lr OR GICH_LR_STATE_PENDING) = lr_vid lr"
    by (rule bit_word_eqI) (auto simp: lr_vid_def lr_consts bit_simps)
  show "bit (lr OR GICH_LR_STATE_PENDING) 28"
    by (simp add: lr_consts bit_simps)
  then show "lr_live (lr OR GICH_LR_STATE_PENDING)"
    by (rule pending_imp_live)
qed

lemma supported_lrn_set_lr [simp]:
  "supported_lrn (set_gich_lr i v p) = supported_lrn p"
  "gich_lr (set_gich_lr i v p) = (gich_lr p)(i := v)"
  by (simp_all add: supported_lrn_def set_gich_lr_def get_gich_vtr_list_regs_def)

text \<open>The two scans of the List Registers, as a case distinction.\<close>

lemma add_virtual_interrupt_cases:
  assumes "add_virtual_interrupt entry p = (ok, p')"
  obtains
    (merge) i where "i < supported_lrn p" "lr_live (gich_lr p i)"
      "lr_vid (gich_lr p i) = lr_vid entry" "ok"
      "p' = set_gich_lr i (gich_lr p i OR GICH_LR_STATE_PENDING) p"
  | (claim) i where "i < supported_lrn p" "\<not> lr_live (gich_lr p i)"
      "lr_vid entry \<notin> live_vids p" "ok" "p' = set_gich_lr i entry p"
  | (overflow) "lrs_full p" "lr_vid entry \<notin> live_vids p" "\<not> ok"
      "p' = p\<lparr>lr_overflow_count := lr_overflow_count p + 1\<rparr>"
proof -
  let ?M = "\<lambda>i. lr_live (gich_lr p i) \<and> lr_vid (gich_lr p i) = lr_vid entry"
  let ?F = "\<lambda>i. \<not> lr_live (gich_lr p i)"
  have def: "(ok, p') = (case find ?M [0..<supported_lrn p] of
      Some i \<Rightarrow> (True, set_gich_lr i (gich_lr p i OR GICH_LR_STATE_PENDING) p)
    | None \<Rightarrow> (case find ?F [0..<supported_lrn p] of
        Some i \<Rightarrow> (True, set_gich_lr i entry p)
      | None \<Rightarrow> (False, p\<lparr>lr_overflow_count := lr_overflow_count p + 1\<rparr>)))"
    using assms [symmetric]
    by (simp add: add_virtual_interrupt_def get_gich_lr_def lr_live_def lr_vid_def
        cong: option.case_cong)
  show thesis
  proof (cases "find ?M [0..<supported_lrn p]")
    case (Some i)
    with def merge [of i] find_upt_SomeD [OF Some] show thesis
      by simp
  next
    case None
    then have fresh: "lr_vid entry \<notin> live_vids p"
      by (auto simp: live_vids_def find_None_iff)
    show thesis
    proof (cases "find ?F [0..<supported_lrn p]")
      case (Some i)
      with def None fresh claim [of i] find_upt_SomeD [OF Some] show thesis
        by simp
    next
      case N: None
      then have "lrs_full p"
        by (auto simp: find_None_iff lrs_full_def)
      with def None N fresh overflow show thesis
        by simp
    qed
  qed
qed

lemma overflow_lrs [simp]:
  "supported_lrn (p\<lparr>lr_overflow_count := c\<rparr>) = supported_lrn p"
  by (simp add: supported_lrn_def get_gich_vtr_list_regs_def)

lemma add_virtual_interrupt_frame:
  assumes "add_virtual_interrupt entry p = (ok, p')"
  shows "cpu_target p' = cpu_target p \<and> gich_vtr p' = gich_vtr p \<and> gich_eisr p' = gich_eisr p \<and>
    gicd_sgir p' = gicd_sgir p \<and> supported_lrn p' = supported_lrn p"
  using assms by (rule add_virtual_interrupt_cases)
    (simp_all add: set_gich_lr_def supported_lrn_def get_gich_vtr_list_regs_def)

lemma live_vids_set_lr:
  assumes "i < supported_lrn p" and "lr_live v"
    and "\<not> lr_live (gich_lr p i) \<or> lr_vid v = lr_vid (gich_lr p i)"
  shows "live_vids (set_gich_lr i v p) = insert (lr_vid v) (live_vids p)"
  unfolding live_vids_def supported_lrn_set_lr using assms by (rule image_fun_upd_insert)

lemma pending_vids_set_lr:
  assumes "i < supported_lrn p" and "bit v 28"
    and "\<not> lr_live (gich_lr p i) \<or> lr_vid v = lr_vid (gich_lr p i)"
  shows "pending_vids (set_gich_lr i v p) = insert (lr_vid v) (pending_vids p)"
  unfolding pending_vids_def supported_lrn_set_lr
  using assms pending_imp_live [of "gich_lr p i"] by (intro image_fun_upd_insert) auto

lemma live_vidsI: "i < supported_lrn p \<Longrightarrow> lr_live (gich_lr p i) \<Longrightarrow> lr_vid (gich_lr p i) \<in> live_vids p"
  by (auto simp: live_vids_def)

lemma lrs_distinct_set_lr:
  assumes "lrs_distinct p"
    and "\<And>j. j < supported_lrn p \<Longrightarrow> lr_live (gich_lr p j) \<Longrightarrow> lr_vid (gich_lr p j) = lr_vid v \<Longrightarrow> j = i"
  shows "lrs_distinct (set_gich_lr i v p)"
  unfolding lrs_distinct_def supported_lrn_set_lr
proof (rule inj_onI, clarify)
  fix x y
  assume xy: "x < supported_lrn p" "lr_live (((gich_lr p)(i := v)) x)"
    "y < supported_lrn p" "lr_live (((gich_lr p)(i := v)) y)"
    "lr_vid (((gich_lr p)(i := v)) x) = lr_vid (((gich_lr p)(i := v)) y)"
  consider "x = i" "y = i" | "x = i" "y \<noteq> i" | "x \<noteq> i" "y = i" | "x \<noteq> i" "y \<noteq> i"
    by blast
  then show "x = y"
  proof cases
    case 2
    then have "y = i"
      using xy by (intro assms(2)) simp_all
    with 2 show ?thesis by simp
  next
    case 3
    then have "x = i"
      using xy by (intro assms(2)) simp_all
    with 3 show ?thesis by simp
  next
    case 4
    then show ?thesis
      using xy by (intro inj_onD [OF assms(1) [unfolded lrs_distinct_def]]) simp_all
  qed simp
qed

lemma add_virtual_interrupt_distinct:
  assumes "add_virtual_interrupt entry p = (ok, p')" and "lrs_distinct p"
  shows "lrs_distinct p'"
  using assms(1)
proof (cases rule: add_virtual_interrupt_cases)
  case (merge i)
  let ?v = "gich_lr p i OR GICH_LR_STATE_PENDING"
  have "j = i" if "j < supported_lrn p" "lr_live (gich_lr p j)" "lr_vid (gich_lr p j) = lr_vid ?v" for j
    using that merge by (intro inj_onD [OF assms(2) [unfolded lrs_distinct_def], of j i]) simp_all
  with assms(2) have "lrs_distinct (set_gich_lr i ?v p)"
    by (rule lrs_distinct_set_lr)
  with merge(5) show ?thesis
    by simp
next
  case (claim i)
  have "j = i" if "j < supported_lrn p" "lr_live (gich_lr p j)" "lr_vid (gich_lr p j) = lr_vid entry" for j
    using that claim(3) live_vidsI [of j p] by simp
  with assms(2) have "lrs_distinct (set_gich_lr i entry p)"
    by (rule lrs_distinct_set_lr)
  with claim(5) show ?thesis
    by simp
next
  case overflow
  then show ?thesis
    using assms(2) by (simp add: lrs_distinct_def)
qed

lemma add_virtual_interrupt_ok_iff:
  assumes "add_virtual_interrupt entry p = (ok, p')"
  shows "ok \<longleftrightarrow> lr_vid entry \<in> live_vids p \<or> \<not> lrs_full p"
  using assms
proof (cases rule: add_virtual_interrupt_cases)
  case (merge i)
  then show ?thesis
    using live_vidsI [of i p] by simp
qed (auto simp: lrs_full_def)

lemma add_virtual_interrupt_vids:
  assumes "add_virtual_interrupt entry p = (ok, p')" and "bit entry 28"
  shows "live_vids p' = (if ok then insert (lr_vid entry) (live_vids p) else live_vids p) \<and>
    pending_vids p' = (if ok then insert (lr_vid entry) (pending_vids p) else pending_vids p)"
  using assms(1)
proof (cases rule: add_virtual_interrupt_cases)
  case (merge i)
  then show ?thesis
    by (simp add: live_vids_set_lr pending_vids_set_lr)
next
  case (claim i)
  then show ?thesis
    using assms(2) pending_imp_live [OF assms(2)]
    by (simp add: live_vids_set_lr pending_vids_set_lr)
next
  case overflow
  then show ?thesis
    by (simp add: live_vids_def pending_vids_def)
qed

section \<open>Properties\<close>

text \<open>
  \<open>create_list_register_entry\<close>.  The 32-bit entry decodes to what it was built from: the
  low ten bits of the INTID, the group bit, the top five bits of the priority, the state
  \<open>pending\<close> alone; with a physical INTID the HW bit and its ten bits, without one the HW bit
  is clear and an EOI maintenance interrupt is requested.
\<close>

lemma list_register_entry_fields:
  assumes "grp < 2"
  shows "let e = create_list_register_entry int_id grp priority physical_int_id in
    e AND GICH_LR_VIRTUAL_ID = int_id AND GICH_LR_VIRTUAL_ID \<and>
    drop_bit 30 e AND 1 = grp \<and>
    drop_bit 23 e AND mask 5 = drop_bit 3 priority AND mask 5 \<and>
    e AND GICH_LR_STATE = GICH_LR_STATE_PENDING \<and>
    (case physical_int_id of
       None \<Rightarrow> e AND GICH_LR_HW = 0 \<and> e AND GICH_LR_EOI = GICH_LR_EOI
     | Some q \<Rightarrow> e AND GICH_LR_HW = GICH_LR_HW \<and>
         drop_bit 10 (e AND GICH_LR_PHYSICAL_ID) = q AND mask 10)"
  using entry_hw_eoi [OF assms] entry_physical_id
  by (simp add: Let_def entry_priority del: drop_bit_and split: option.split)

text \<open>
  C3 (\<open>add_virtual_interrupt\<close>).  Injecting a pending entry succeeds exactly when its INTID already
  occupies a List Register or one is free.  On success the pending INTIDs grow by exactly
  this one, on failure the List Registers are unchanged; in both cases no other
  interrupt held by the interface is lost, and an interface without duplicates keeps
  every INTID in at most one register.
\<close>

theorem add_virtual_interrupt_correct:
  assumes "add_virtual_interrupt entry p = (ok, p')" "bit entry 28" "lrs_distinct p"
  shows "(ok \<longleftrightarrow> lr_vid entry \<in> live_vids p \<or> \<not> lrs_full p) \<and>
    live_vids p' = (if ok then insert (lr_vid entry) (live_vids p) else live_vids p) \<and>
    pending_vids p' = (if ok then insert (lr_vid entry) (pending_vids p) else pending_vids p) \<and>
    (\<not> ok \<longrightarrow> gich_lr p' = gich_lr p) \<and> lrs_distinct p'"
proof -
  have "gich_lr p' = gich_lr p" if "\<not> ok"
    using assms(1) that by (cases rule: add_virtual_interrupt_cases) simp_all
  then show ?thesis
    using add_virtual_interrupt_ok_iff [OF assms(1)] add_virtual_interrupt_vids [OF assms(1,2)]
      add_virtual_interrupt_distinct [OF assms(1,3)] by simp
qed

lemma pcpu_reset_view [simp]:
  "lrs_distinct (pcpu_reset t)" "\<not> lrs_full (pcpu_reset t)" "live_vids (pcpu_reset t) = {}"
proof -
  have dead: "\<not> lr_live 0" by (simp add: lr_live_def GICH_LR_STATE_INACTIVE_def)
  then show "lrs_distinct (pcpu_reset t)" "live_vids (pcpu_reset t) = {}"
    by (simp_all add: lrs_distinct_def live_vids_def pcpu_reset_def)
  have "0 < supported_lrn (pcpu_reset t)"
    by (simp add: supported_lrn_def NUMBER_OF_SUPPORTED_LRS_def get_gich_vtr_list_regs_def)
  with dead show "\<not> lrs_full (pcpu_reset t)"
    by (auto simp: lrs_full_def pcpu_reset_def)
qed

theorem add_virtual_interrupt_correct_witness:
  "\<exists>p'. add_virtual_interrupt (create_list_register_entry 27 1 0 (Some 27)) (pcpu_reset 1) = (True, p') \<and>
    lrs_distinct p' \<and> live_vids p' = {27}"
proof -
  let ?e = "create_list_register_entry 27 1 0 (Some 27)"
  obtain ok p' where add: "add_virtual_interrupt ?e (pcpu_reset 1) = (ok, p')"
    by fastforce
  have "bit ?e 28"
    by (simp add: entry_defs bit_simps)
  moreover have "lr_vid ?e = 27"
    by (simp add: lr_vid_def) (simp add: GICH_LR_VIRTUAL_ID_def mask_eq_exp_minus_1)
  ultimately show ?thesis
    using add_virtual_interrupt_correct [OF add] add by simp
qed

end
