(* ===== verification/Gic_Distributor.thy ===== *)
theory Gic_Distributor
  imports Vgic "HOL-Library.Product_Lexorder" "HOL-Library.Sublist"
begin

text \<open>
  The virtual GICv2 Distributor: \<^verbatim>\<open>mmio/gicv2.rs\<close>, and the maintenance interrupt
  handler of \<^verbatim>\<open>vgic.rs\<close> that drives its retries.

  The struct \<open>GicDistributorMmio\<close> is the record \<open>gicd\<close>; its per-CPU half
  \<open>BankedRegisters\<close> is the record \<open>banked_regs\<close>.  The source hands out a mutable reference
  to a register (\<open>group_register\<close> and its siblings); here each becomes a
  read (\<open>group_register\<close>) and a write (\<open>set_group_register\<close>) that take the same branch.
  The CPU executing the code is the record \<open>pcpu\<close> of the theory \<open>Vgic\<close>.
\<close>

section \<open>State\<close>

record banked_regs =
  b_group :: u32
  b_enable :: u32
  b_pending :: u32
  b_active :: u32
  b_priority :: "u32 list"
  b_configuration :: "u32 list"

record gicd =
  ctlr :: u32
  group_regs :: "u32 list"
  enable_regs :: "u32 list"
  pending_regs :: "u32 list"
  active_regs :: "u32 list"
  priority_regs :: "u32 list"
  configuration_regs :: "u32 list"
  target_regs :: "u32 list"
  banked :: "banked_regs list"
  own_target :: u8
  to_inject_interrupt :: "(u8 \<times> u32) list"

definition MAX_CPU_INTERFACES :: nat where "MAX_CPU_INTERFACES = 8"
definition BANKED_INT_ID_COUNT :: nat where "BANKED_INT_ID_COUNT = 32"
definition GENERIC_TIMER_VIRTUAL_INT_ID :: u32 where "GENERIC_TIMER_VIRTUAL_INT_ID = 27"
definition INJECT_INTERRUPT_INT_ID :: u32 where "INJECT_INTERRUPT_INT_ID = 11"
definition GICD_CTLR_ENABLE :: u32 where
  \<comment> \<open>\<open>GICD_CTLR_ENABLE_GRP0 | GICD_CTLR_ENABLE_GRP1\<close>\<close>
  "GICD_CTLR_ENABLE = flag 0 OR flag 1"

definition BankedRegisters_new :: banked_regs where
  "BankedRegisters_new = \<lparr>b_group = 0, b_enable = 0, b_pending = 0, b_active = 0,
     b_priority = replicate (BANKED_INT_ID_COUNT div 4) 0,
     b_configuration = replicate (BANKED_INT_ID_COUNT div 16) 0\<rparr>"

definition GicDistributorMmio_new :: "u8 \<Rightarrow> gicd" where
  "GicDistributorMmio_new own = \<lparr>ctlr = 0,
     group_regs = replicate 32 0, enable_regs = replicate 32 0,
     pending_regs = replicate 32 0, active_regs = replicate 32 0,
     priority_regs = replicate 255 0, configuration_regs = replicate 64 0,
     target_regs = replicate 255 0,
     banked = replicate MAX_CPU_INTERFACES BankedRegisters_new,
     own_target = own, to_inject_interrupt = []\<rparr>"

text \<open>\<open>u8::trailing_zeros\<close> is 8 on zero; the \<open>min\<close> keeps the index in the array.\<close>

definition trailing_zeros8 :: "u8 \<Rightarrow> nat" where
  "trailing_zeros8 w = (case find (bit w) [0..<8] of Some k \<Rightarrow> k | None \<Rightarrow> 8)"

definition target_to_cpu_index :: "u8 \<Rightarrow> nat" where
  "target_to_cpu_index target = min (trailing_zeros8 target) (MAX_CPU_INTERFACES - 1)"

definition current_cpu_index :: "pcpu \<Rightarrow> nat" where
  "current_cpu_index p = target_to_cpu_index (get_current_cpu_target p)"

section \<open>Banked or shared registers\<close>

definition group_register :: "nat \<Rightarrow> nat \<Rightarrow> gicd \<Rightarrow> u32 option" where
  "group_register cpu index d =
     (if index = 0 then do { b \<leftarrow> get_at (banked d) cpu; Some (b_group b) }
      else get_at (group_regs d) index)"

definition set_group_register :: "nat \<Rightarrow> nat \<Rightarrow> u32 \<Rightarrow> gicd \<Rightarrow> gicd option" where
  "set_group_register cpu index v d =
     (if index = 0 then do {
        b \<leftarrow> get_at (banked d) cpu;
        bs \<leftarrow> set_at (banked d) cpu (b\<lparr>b_group := v\<rparr>);
        Some (d\<lparr>banked := bs\<rparr>) }
      else do { rs \<leftarrow> set_at (group_regs d) index v; Some (d\<lparr>group_regs := rs\<rparr>) })"

definition enable_register :: "nat \<Rightarrow> nat \<Rightarrow> gicd \<Rightarrow> u32 option" where
  "enable_register cpu index d =
     (if index = 0 then do { b \<leftarrow> get_at (banked d) cpu; Some (b_enable b) }
      else get_at (enable_regs d) index)"

definition set_enable_register :: "nat \<Rightarrow> nat \<Rightarrow> u32 \<Rightarrow> gicd \<Rightarrow> gicd option" where
  "set_enable_register cpu index v d =
     (if index = 0 then do {
        b \<leftarrow> get_at (banked d) cpu;
        bs \<leftarrow> set_at (banked d) cpu (b\<lparr>b_enable := v\<rparr>);
        Some (d\<lparr>banked := bs\<rparr>) }
      else do { rs \<leftarrow> set_at (enable_regs d) index v; Some (d\<lparr>enable_regs := rs\<rparr>) })"

definition pending_register :: "nat \<Rightarrow> nat \<Rightarrow> gicd \<Rightarrow> u32 option" where
  "pending_register cpu index d =
     (if index = 0 then do { b \<leftarrow> get_at (banked d) cpu; Some (b_pending b) }
      else get_at (pending_regs d) index)"

definition set_pending_register :: "nat \<Rightarrow> nat \<Rightarrow> u32 \<Rightarrow> gicd \<Rightarrow> gicd option" where
  "set_pending_register cpu index v d =
     (if index = 0 then do {
        b \<leftarrow> get_at (banked d) cpu;
        bs \<leftarrow> set_at (banked d) cpu (b\<lparr>b_pending := v\<rparr>);
        Some (d\<lparr>banked := bs\<rparr>) }
      else do { rs \<leftarrow> set_at (pending_regs d) index v; Some (d\<lparr>pending_regs := rs\<rparr>) })"

definition active_register :: "nat \<Rightarrow> nat \<Rightarrow> gicd \<Rightarrow> u32 option" where
  "active_register cpu index d =
     (if index = 0 then do { b \<leftarrow> get_at (banked d) cpu; Some (b_active b) }
      else get_at (active_regs d) index)"

definition set_active_register :: "nat \<Rightarrow> nat \<Rightarrow> u32 \<Rightarrow> gicd \<Rightarrow> gicd option" where
  "set_active_register cpu index v d =
     (if index = 0 then do {
        b \<leftarrow> get_at (banked d) cpu;
        bs \<leftarrow> set_at (banked d) cpu (b\<lparr>b_active := v\<rparr>);
        Some (d\<lparr>banked := bs\<rparr>) }
      else do { rs \<leftarrow> set_at (active_regs d) index v; Some (d\<lparr>active_regs := rs\<rparr>) })"

definition priority_register :: "nat \<Rightarrow> nat \<Rightarrow> gicd \<Rightarrow> u32 option" where
  "priority_register cpu index d =
     (if index < BANKED_INT_ID_COUNT div 4
      then do { b \<leftarrow> get_at (banked d) cpu; get_at (b_priority b) index }
      else get_at (priority_regs d) index)"

definition set_priority_register :: "nat \<Rightarrow> nat \<Rightarrow> u32 \<Rightarrow> gicd \<Rightarrow> gicd option" where
  "set_priority_register cpu index v d =
     (if index < BANKED_INT_ID_COUNT div 4 then do {
        b \<leftarrow> get_at (banked d) cpu;
        rs \<leftarrow> set_at (b_priority b) index v;
        bs \<leftarrow> set_at (banked d) cpu (b\<lparr>b_priority := rs\<rparr>);
        Some (d\<lparr>banked := bs\<rparr>) }
      else do { rs \<leftarrow> set_at (priority_regs d) index v; Some (d\<lparr>priority_regs := rs\<rparr>) })"

definition configuration_register :: "nat \<Rightarrow> nat \<Rightarrow> gicd \<Rightarrow> u32 option" where
  "configuration_register cpu index d =
     (if index < BANKED_INT_ID_COUNT div 16
      then do { b \<leftarrow> get_at (banked d) cpu; get_at (b_configuration b) index }
      else get_at (configuration_regs d) index)"

definition set_configuration_register :: "nat \<Rightarrow> nat \<Rightarrow> u32 \<Rightarrow> gicd \<Rightarrow> gicd option" where
  "set_configuration_register cpu index v d =
     (if index < BANKED_INT_ID_COUNT div 16 then do {
        b \<leftarrow> get_at (banked d) cpu;
        rs \<leftarrow> set_at (b_configuration b) index v;
        bs \<leftarrow> set_at (banked d) cpu (b\<lparr>b_configuration := rs\<rparr>);
        Some (d\<lparr>banked := bs\<rparr>) }
      else do {
        rs \<leftarrow> set_at (configuration_regs d) index v;
        Some (d\<lparr>configuration_regs := rs\<rparr>) })"

section \<open>Fields of one interrupt\<close>

definition get_group :: "nat \<Rightarrow> u32 \<Rightarrow> gicd \<Rightarrow> u32 option" where
  "get_group cpu int_id d = do {
     r \<leftarrow> group_register cpu (unat int_id div 32) d;
     Some (drop_bit (unat int_id mod 32) r AND 1) }"

definition get_enable :: "nat \<Rightarrow> u32 \<Rightarrow> gicd \<Rightarrow> bool option" where
  "get_enable cpu int_id d = do {
     r \<leftarrow> enable_register cpu (unat int_id div 32) d;
     Some (drop_bit (unat int_id mod 32) r AND 1 \<noteq> 0) }"

definition get_pending :: "nat \<Rightarrow> u32 \<Rightarrow> gicd \<Rightarrow> bool option" where
  "get_pending cpu int_id d = do {
     r \<leftarrow> pending_register cpu (unat int_id div 32) d;
     Some (drop_bit (unat int_id mod 32) r AND 1 \<noteq> 0) }"

definition change_pending_status_of :: "nat \<Rightarrow> u32 \<Rightarrow> bool \<Rightarrow> gicd \<Rightarrow> gicd option" where
  "change_pending_status_of cpu int_id is_pending d = do {
     let register = unat int_id div 32;
     let offset = unat int_id mod 32;
     r \<leftarrow> pending_register cpu register d;
     set_pending_register cpu register
       (if is_pending then r OR flag offset else r AND NOT (flag offset)) d }"

definition change_pending_status :: "u32 \<Rightarrow> bool \<Rightarrow> pcpu \<Rightarrow> gicd \<Rightarrow> gicd option" where
  "change_pending_status int_id is_pending p d =
     change_pending_status_of (current_cpu_index p) int_id is_pending d"

definition change_active_status :: "u32 \<Rightarrow> bool \<Rightarrow> pcpu \<Rightarrow> gicd \<Rightarrow> gicd option" where
  "change_active_status int_id is_active p d = do {
     let cpu = current_cpu_index p;
     let register = unat int_id div 32;
     let offset = unat int_id mod 32;
     r \<leftarrow> active_register cpu register d;
     set_active_register cpu register
       (if is_active then r OR flag offset else r AND NOT (flag offset)) d }"

definition get_priority :: "nat \<Rightarrow> u32 \<Rightarrow> gicd \<Rightarrow> u32 option" where
  "get_priority cpu int_id d = do {
     r \<leftarrow> priority_register cpu (unat int_id div 4) d;
     Some (drop_bit (unat int_id mod 4 * 8) r AND mask 8) }"

section \<open>Delivery\<close>

text \<open>One iteration of the loop over target bits in \<open>trigger_interrupt_to\<close>; the state is
  the distributor, the executing CPU and the flag \<open>injected\<close>.\<close>

definition trigger_target ::
  "u32 \<Rightarrow> u32 option \<Rightarrow> bool \<Rightarrow> u8 \<Rightarrow> u8 \<Rightarrow> nat \<Rightarrow> gicd \<times> pcpu \<times> bool \<Rightarrow> (gicd \<times> pcpu \<times> bool) option" where
  "trigger_target int_id physical_int_id distributor_enabled current_target targets b s =
     (case s of (d, p, injected) \<Rightarrow>
        let target = (flag b :: u8) in
        if targets AND target = 0 then Some (d, p, injected)
        else do {
          let cpu = target_to_cpu_index target;
          d \<leftarrow> change_pending_status_of cpu int_id True d;
          enabled \<leftarrow> (if \<not> distributor_enabled then Some False else get_enable cpu int_id d);
          if \<not> enabled then Some (d, p, injected)
          else do {
            grp \<leftarrow> get_group cpu int_id d;
            priority \<leftarrow> get_priority cpu int_id d;
            let list_entry = create_list_register_entry int_id grp priority physical_int_id;
            if target = current_target then
              (case add_virtual_interrupt list_entry p of
                 (ok, p) \<Rightarrow> Some (d, p, injected \<or> ok))
            else Some (d\<lparr>to_inject_interrupt := to_inject_interrupt d @ [(target, list_entry)]\<rparr>,
                       send_sgi target INJECT_INTERRUPT_INT_ID p, True) } })"

definition trigger_interrupt_to ::
  "u32 \<Rightarrow> u32 option \<Rightarrow> u8 \<Rightarrow> gicd \<times> pcpu \<Rightarrow> (gicd \<times> pcpu \<times> bool) option" where
  "trigger_interrupt_to int_id physical_int_id targets s =
     (case s of (d, p) \<Rightarrow>
        for_each [0..<8]
          (trigger_target int_id physical_int_id (ctlr d AND GICD_CTLR_ENABLE \<noteq> 0)
             (get_current_cpu_target p) targets)
          (d, p, False))"

definition trigger_interrupt ::
  "u32 \<Rightarrow> u32 option \<Rightarrow> gicd \<times> pcpu \<Rightarrow> (gicd \<times> pcpu \<times> bool) option" where
  "trigger_interrupt int_id physical_int_id s =
     trigger_interrupt_to int_id physical_int_id (own_target (fst s)) s"

definition retrigger :: "u32 \<Rightarrow> gicd \<times> pcpu \<Rightarrow> (gicd \<times> pcpu) option" where
  "retrigger int_id s = do {
     let targets = (if unat int_id < BANKED_INT_ID_COUNT
                    then get_current_cpu_target (snd s) else own_target (fst s));
     (d, p, injected) \<leftarrow> trigger_interrupt_to int_id None targets s;
     Some (d, p) }"

fun inject_candidates :: "nat \<Rightarrow> gicd \<Rightarrow> u32 list \<Rightarrow> (u8 \<times> u32) list option" where
  "inject_candidates cpu d [] = Some []"
| "inject_candidates cpu d (int_id # int_ids) =
     (if int_id = GENERIC_TIMER_VIRTUAL_INT_ID then inject_candidates cpu d int_ids
      else do {
        pending \<leftarrow> get_pending cpu int_id d;
        wanted \<leftarrow> (if pending then get_enable cpu int_id d else Some False);
        if wanted then do {
          priority \<leftarrow> get_priority cpu int_id d;
          rest \<leftarrow> inject_candidates cpu d int_ids;
          Some ((ucast priority, int_id) # rest) }
        else inject_candidates cpu d int_ids })"

fun inject_sorted :: "nat \<Rightarrow> gicd \<Rightarrow> (u8 \<times> u32) list \<Rightarrow> pcpu \<Rightarrow> pcpu option" where
  "inject_sorted cpu d [] p = Some p"
| "inject_sorted cpu d ((pr, int_id) # rest) p = do {
     grp \<leftarrow> get_group cpu int_id d;
     priority \<leftarrow> get_priority cpu int_id d;
     let entry = create_list_register_entry int_id grp priority None;
     (case add_virtual_interrupt entry p of
        (ok, p) \<Rightarrow> if ok then inject_sorted cpu d rest p else Some p) }"

definition inject_pending_for_current_cpu :: "gicd \<Rightarrow> pcpu \<Rightarrow> pcpu option" where
  "inject_pending_for_current_cpu d p =
     (if ctlr d AND GICD_CTLR_ENABLE = 0 then Some p
      else do {
        let cpu = current_cpu_index p;
        let max_int_id = (if get_current_cpu_target p = own_target d then 1024
                          else BANKED_INT_ID_COUNT);
        candidates \<leftarrow> inject_candidates cpu d (map of_nat [0..<max_int_id]);
        inject_sorted cpu d (sort candidates) p })"

fun inject_queue :: "u8 \<Rightarrow> (u8 \<times> u32) list \<Rightarrow> pcpu \<Rightarrow> (u8 \<times> u32) list \<times> pcpu" where
  "inject_queue current_target [] p = ([], p)"
| "inject_queue current_target ((target, entry) # queue) p =
     (if target = current_target then
        (case add_virtual_interrupt entry p of
           (ok, p) \<Rightarrow> (case inject_queue current_target queue p of
              (remaining, p) \<Rightarrow> (if ok then remaining else (target, entry) # remaining, p)))
      else (case inject_queue current_target queue p of
              (remaining, p) \<Rightarrow> ((target, entry) # remaining, p)))"

definition inject_interrupt_handler :: "gicd \<times> pcpu \<Rightarrow> gicd \<times> pcpu" where
  "inject_interrupt_handler s =
     (case s of (d, p) \<Rightarrow>
        (case inject_queue (get_current_cpu_target p) (to_inject_interrupt d) p of
           (remaining, p) \<Rightarrow> (d\<lparr>to_inject_interrupt := remaining\<rparr>, p)))"

section \<open>The maintenance interrupt\<close>

definition maintenance_lr :: "u32 \<Rightarrow> nat \<Rightarrow> gicd \<times> pcpu \<Rightarrow> (gicd \<times> pcpu) option" where
  "maintenance_lr eoi_bits i s =
     (case s of (d, p) \<Rightarrow>
        if drop_bit i eoi_bits AND 1 \<noteq> 0 then do {
          let int_id = get_gich_lr i p AND GICH_LR_VIRTUAL_ID;
          d \<leftarrow> change_pending_status int_id False p d;
          d \<leftarrow> change_active_status int_id False p d;
          Some (d, set_gich_lr i 0 p) }
        else Some (d, p))"

definition maintenance_interrupt_handler :: "gicd \<times> pcpu \<Rightarrow> (gicd \<times> pcpu) option" where
  "maintenance_interrupt_handler s = do {
     let p = snd s;
     s \<leftarrow> for_each [0..<supported_lrn p] (maintenance_lr (get_gich_eisr p)) s;
     let (d, p) = inject_interrupt_handler s;
     p \<leftarrow> inject_pending_for_current_cpu d p;
     Some (d, p) }"

section \<open>MMIO\<close>

definition GICD_CTLR :: nat where "GICD_CTLR = 0x0000"
definition GICD_TYPER :: nat where "GICD_TYPER = 0x0004"
definition GICD_IGROUPR0 :: nat where "GICD_IGROUPR0 = 0x0080"
definition GICD_ISENABLER0 :: nat where "GICD_ISENABLER0 = 0x0100"
definition GICD_ICENABLER0 :: nat where "GICD_ICENABLER0 = 0x0180"
definition GICD_ISPENDR0 :: nat where "GICD_ISPENDR0 = 0x0200"
definition GICD_ICPENDR0 :: nat where "GICD_ICPENDR0 = 0x0280"
definition GICD_ISACTIVER0 :: nat where "GICD_ISACTIVER0 = 0x0300"
definition GICD_ICACTIVER0 :: nat where "GICD_ICACTIVER0 = 0x0380"
definition GICD_IPRIORITYR0 :: nat where "GICD_IPRIORITYR0 = 0x0400"
definition GICD_ITARGETSR0 :: nat where "GICD_ITARGETSR0 = 0x0800"
definition GICD_ICFGR0 :: nat where "GICD_ICFGR0 = 0x0C00"
definition GICD_SGIR :: nat where "GICD_SGIR = 0x0F00"
definition GICD_PIDR2 :: nat where "GICD_PIDR2 = 0xFFE8"
definition GIC_REVISION :: u64 where "GIC_REVISION = 2"
definition GICD_TYPER_VALUE :: u32 where "GICD_TYPER_VALUE = 31"

lemmas gicd_offsets = GICD_CTLR_def GICD_TYPER_def GICD_IGROUPR0_def GICD_ISENABLER0_def
  GICD_ICENABLER0_def GICD_ISPENDR0_def GICD_ICPENDR0_def GICD_ISACTIVER0_def
  GICD_ICACTIVER0_def GICD_IPRIORITYR0_def GICD_ITARGETSR0_def GICD_ICFGR0_def
  GICD_SGIR_def GICD_PIDR2_def

text \<open>A bank of 32-bit registers: \<open>first..=last\<close>, where \<open>last = first + 4 * (n - 1)\<close>.\<close>

definition in_bank :: "nat \<Rightarrow> nat \<Rightarrow> nat \<Rightarrow> bool" where
  "in_bank first n offset = (first \<le> offset \<and> offset \<le> first + 4 * (n - 1))"

text \<open>A byte-addressable bank: the half-open range up to the end of register \<open>n - 1\<close>.\<close>

definition in_byte_bank :: "nat \<Rightarrow> nat \<Rightarrow> nat \<Rightarrow> bool" where
  "in_byte_bank first n offset = (first \<le> offset \<and> offset < first + 4 * n)"

definition gicd_read :: "nat \<Rightarrow> nat \<Rightarrow> gicd \<Rightarrow> pcpu \<Rightarrow> (unit + u64) option" where
  "gicd_read offset access_width d p = do {
     let cpu = current_cpu_index p;
     result \<leftarrow>
      (if offset = GICD_CTLR \<and> access_width = 32 then Some (ucast (ctlr d) :: u64)
       else if offset = GICD_TYPER \<and> access_width = 32 then Some (ucast GICD_TYPER_VALUE)
       else if in_bank GICD_IGROUPR0 32 offset \<and> access_width = 32 then
         map_option ucast (group_register cpu ((offset - GICD_IGROUPR0) div 4) d)
       else if in_bank GICD_ISENABLER0 32 offset \<and> access_width = 32 then
         map_option ucast (enable_register cpu ((offset - GICD_ISENABLER0) div 4) d)
       else if in_bank GICD_ICENABLER0 32 offset \<and> access_width = 32 then
         map_option ucast (enable_register cpu ((offset - GICD_ICENABLER0) div 4) d)
       else if in_bank GICD_ISPENDR0 32 offset \<and> access_width = 32 then
         map_option ucast (pending_register cpu ((offset - GICD_ISPENDR0) div 4) d)
       else if in_bank GICD_ICPENDR0 32 offset \<and> access_width = 32 then
         map_option ucast (pending_register cpu ((offset - GICD_ICPENDR0) div 4) d)
       else if in_bank GICD_ISACTIVER0 32 offset \<and> access_width = 32 then
         map_option ucast (active_register cpu ((offset - GICD_ISACTIVER0) div 4) d)
       else if in_bank GICD_ICACTIVER0 32 offset \<and> access_width = 32 then
         map_option ucast (active_register cpu ((offset - GICD_ICACTIVER0) div 4) d)
       else if in_byte_bank GICD_IPRIORITYR0 255 offset then do {
         let register_offset = (offset - GICD_IPRIORITYR0) div 4;
         let byte_offset = (offset - GICD_IPRIORITYR0) - register_offset * 4;
         if access_width = 8 then do {
           r \<leftarrow> priority_register cpu register_offset d;
           Some (drop_bit (byte_offset * 8) (ucast r) AND mask 8) }
         else if byte_offset = 0 \<and> access_width = 32 then
           map_option ucast (priority_register cpu register_offset d)
         else Some 0 }
       else if in_byte_bank GICD_ITARGETSR0 255 offset then do {
         let register_offset = (offset - GICD_ITARGETSR0) div 4;
         let byte_offset = (offset - GICD_ITARGETSR0) - register_offset * 4;
         let int_id_base = register_offset * 4;
         if access_width = 8 then
           (if int_id_base + byte_offset < 32 then Some (ucast (get_current_cpu_target p))
            else do {
              r \<leftarrow> get_at (target_regs d) register_offset;
              Some (ucast (drop_bit (byte_offset * 8) r) AND mask 8) })
         else if byte_offset = 0 \<and> access_width = 32 then
           (if int_id_base < 32 then
              (let target = (ucast (get_current_cpu_target p) :: u32) in
               Some (ucast (target OR push_bit 8 target OR push_bit 16 target OR push_bit 24 target)))
            else map_option ucast (get_at (target_regs d) register_offset))
         else Some 0 }
       else if in_bank GICD_ICFGR0 64 offset \<and> access_width = 32 then
         map_option ucast (configuration_register cpu ((offset - GICD_ICFGR0) div 4) d)
       else if offset = GICD_PIDR2 \<and> access_width = 32 then Some (push_bit 4 GIC_REVISION)
       else Some 0);
     Some (Inr result) }"

text \<open>The two loops over the bits of a written value: after setting enable bits, pending
  interrupts among them are delivered; after setting pending bits, enabled ones are.\<close>

function isenabler_loop :: "nat \<Rightarrow> nat \<Rightarrow> u64 \<Rightarrow> gicd \<times> pcpu \<Rightarrow> (gicd \<times> pcpu) option" where
  "isenabler_loop cpu int_id val s =
     (if val = 0 then Some s
      else do {
        hit \<leftarrow> (if val AND 1 \<noteq> 0 then get_pending cpu (of_nat int_id) (fst s) else Some False);
        s \<leftarrow> (if hit then retrigger (of_nat int_id) s else Some s);
        isenabler_loop cpu (int_id + 1) (drop_bit 1 val) s })"
  by pat_completeness auto

function ispendr_loop :: "nat \<Rightarrow> nat \<Rightarrow> u64 \<Rightarrow> gicd \<times> pcpu \<Rightarrow> (gicd \<times> pcpu) option" where
  "ispendr_loop cpu int_id val s =
     (if val = 0 then Some s
      else do {
        hit \<leftarrow> (if val AND 1 \<noteq> 0 then get_enable cpu (of_nat int_id) (fst s) else Some False);
        s \<leftarrow> (if hit then retrigger (of_nat int_id) s else Some s);
        ispendr_loop cpu (int_id + 1) (drop_bit 1 val) s })"
  by pat_completeness auto

lemma drop_bit_less [termination_simp]: "val \<noteq> 0 \<Longrightarrow> unat (drop_bit (Suc 0) (val :: u64)) < unat val"
  by (simp add: drop_bit_eq_div unat_div unat_gt_0)

termination isenabler_loop
  by (relation "measure (\<lambda>(cpu, int_id, val, s). unat val)") (simp_all add: drop_bit_less)

termination ispendr_loop
  by (relation "measure (\<lambda>(cpu, int_id, val, s). unat val)") (simp_all add: drop_bit_less)

declare isenabler_loop.simps [simp del] ispendr_loop.simps [simp del]

text \<open>\<open>(register & !(0xFF << bit_offset)) | (value << bit_offset) as u32\<close>: the byte is
  cleared, but the shifted value is not masked to a byte.\<close>

definition byte_update :: "u32 \<Rightarrow> nat \<Rightarrow> u64 \<Rightarrow> u32" where
  "byte_update r bit_offset val =
     (r AND NOT (push_bit bit_offset (mask 8))) OR ucast (push_bit bit_offset val)"

definition ALL_PCPU_TARGETS :: u8 where "ALL_PCPU_TARGETS = mask 4"

definition sgir_targets :: "u64 \<Rightarrow> pcpu \<Rightarrow> u8" where
  "sgir_targets val p =
     (let target_list_filter = drop_bit 24 val AND mask 2 in
      if target_list_filter = 0 then ucast (drop_bit 16 val AND mask 8)
      else if target_list_filter = 1 then ALL_PCPU_TARGETS AND NOT (get_current_cpu_target p)
      else get_current_cpu_target p)"

definition gicd_write :: "nat \<Rightarrow> nat \<Rightarrow> u64 \<Rightarrow> gicd \<times> pcpu \<Rightarrow> ((unit + unit) \<times> gicd \<times> pcpu) option" where
  "gicd_write offset access_width val s = do {
     let (d, p) = s;
     let cpu = current_cpu_index p;
     let v = (ucast val :: u32);
     s' \<leftarrow>
      (if offset = GICD_CTLR \<and> access_width = 32 then Some (d\<lparr>ctlr := v\<rparr>, p)
       else if in_bank GICD_IGROUPR0 32 offset \<and> access_width = 32 then do {
         d \<leftarrow> set_group_register cpu ((offset - GICD_IGROUPR0) div 4) v d;
         Some (d, p) }
       else if in_bank GICD_ISENABLER0 32 offset \<and> access_width = 32 then do {
         let register_offset = (offset - GICD_ISENABLER0) div 4;
         r \<leftarrow> enable_register cpu register_offset d;
         d \<leftarrow> set_enable_register cpu register_offset (r OR v) d;
         isenabler_loop cpu (register_offset * 32) val (d, p) }
       else if in_bank GICD_ICENABLER0 32 offset \<and> access_width = 32 then do {
         let register_offset = (offset - GICD_ICENABLER0) div 4;
         r \<leftarrow> enable_register cpu register_offset d;
         d \<leftarrow> set_enable_register cpu register_offset (r AND NOT v) d;
         Some (d, p) }
       else if in_bank GICD_ISPENDR0 32 offset \<and> access_width = 32 then do {
         let register_offset = (offset - GICD_ISPENDR0) div 4;
         r \<leftarrow> pending_register cpu register_offset d;
         d \<leftarrow> set_pending_register cpu register_offset (r OR v) d;
         ispendr_loop cpu (register_offset * 32) val (d, p) }
       else if in_bank GICD_ICPENDR0 32 offset \<and> access_width = 32 then do {
         let register_offset = (offset - GICD_ICPENDR0) div 4;
         r \<leftarrow> pending_register cpu register_offset d;
         d \<leftarrow> set_pending_register cpu register_offset (r AND NOT v) d;
         Some (d, p) }
       else if in_bank GICD_ISACTIVER0 32 offset \<and> access_width = 32 then do {
         let register_offset = (offset - GICD_ISACTIVER0) div 4;
         r \<leftarrow> active_register cpu register_offset d;
         d \<leftarrow> set_active_register cpu register_offset (r OR v) d;
         Some (d, p) }
       else if in_bank GICD_ICACTIVER0 32 offset \<and> access_width = 32 then do {
         let register_offset = (offset - GICD_ICACTIVER0) div 4;
         r \<leftarrow> active_register cpu register_offset d;
         d \<leftarrow> set_active_register cpu register_offset (r AND NOT v) d;
         Some (d, p) }
       else if in_byte_bank GICD_IPRIORITYR0 255 offset then do {
         let register_offset = (offset - GICD_IPRIORITYR0) div 4;
         let byte_offset = (offset - GICD_IPRIORITYR0) - register_offset * 4;
         if access_width = 8 then do {
           r \<leftarrow> priority_register cpu register_offset d;
           d \<leftarrow> set_priority_register cpu register_offset (byte_update r (byte_offset * 8) val) d;
           Some (d, p) }
         else if byte_offset = 0 \<and> access_width = 32 then do {
           d \<leftarrow> set_priority_register cpu register_offset v d;
           Some (d, p) }
         else Some (d, p) }
       else if in_byte_bank GICD_ITARGETSR0 255 offset then do {
         let register_offset = (offset - GICD_ITARGETSR0) div 4;
         let byte_offset = (offset - GICD_ITARGETSR0) - register_offset * 4;
         let int_id_base = register_offset * 4;
         if 32 \<le> int_id_base then
           (if access_width = 8 then do {
              r \<leftarrow> get_at (target_regs d) register_offset;
              rs \<leftarrow> set_at (target_regs d) register_offset (byte_update r (byte_offset * 8) val);
              Some (d\<lparr>target_regs := rs\<rparr>, p) }
            else if byte_offset = 0 \<and> access_width = 32 then do {
              rs \<leftarrow> set_at (target_regs d) register_offset v;
              Some (d\<lparr>target_regs := rs\<rparr>, p) }
            else Some (d, p))
         else Some (d, p) }
       else if in_bank GICD_ICFGR0 64 offset \<and> access_width = 32 then do {
         d \<leftarrow> set_configuration_register cpu ((offset - GICD_ICFGR0) div 4) v d;
         Some (d, p) }
       else if offset = GICD_SGIR \<and> access_width = 32 then do {
         (d, p, injected) \<leftarrow> trigger_interrupt_to (v AND mask 4) None (sgir_targets val p) (d, p);
         Some (d, p) }
       else Some (d, p));
     Some (Inr (), s') }"

section \<open>Well-formedness\<close>

definition gicd_wf :: "gicd \<Rightarrow> bool" where
  "gicd_wf d \<longleftrightarrow> length (group_regs d) = 32 \<and> length (enable_regs d) = 32 \<and>
     length (pending_regs d) = 32 \<and> length (active_regs d) = 32 \<and>
     length (priority_regs d) = 255 \<and> length (configuration_regs d) = 64 \<and>
     length (target_regs d) = 255 \<and> length (banked d) = 8 \<and>
     list_all (\<lambda>b. length (b_priority b) = 8 \<and> length (b_configuration b) = 2) (banked d)"

lemma target_to_cpu_index_less [simp]: "target_to_cpu_index t < 8"
  by (simp add: target_to_cpu_index_def MAX_CPU_INTERFACES_def)

lemma current_cpu_index_less [simp]: "current_cpu_index p < 8"
  by (simp add: current_cpu_index_def)

lemma gicd_wf_new [simp]: "gicd_wf (GicDistributorMmio_new own)"
  by (simp add: gicd_wf_def GicDistributorMmio_new_def BankedRegisters_new_def
      MAX_CPU_INTERFACES_def BANKED_INT_ID_COUNT_def list_all_length)

section \<open>The register interface\<close>

text \<open>What the code relies on when it reads and writes one of the register arrays:
  \<open>n\<close> registers, the first \<open>k\<close> of them banked per CPU interface.\<close>

locale gicd_register =
  fixes rd :: "nat \<Rightarrow> nat \<Rightarrow> gicd \<Rightarrow> u32 option"
    and wr :: "nat \<Rightarrow> nat \<Rightarrow> u32 \<Rightarrow> gicd \<Rightarrow> gicd option"
    and n k :: nat
  assumes rd_total: "gicd_wf d \<Longrightarrow> cpu < 8 \<Longrightarrow> i < n \<Longrightarrow> rd cpu i d \<noteq> None"
    and wr_total: "gicd_wf d \<Longrightarrow> cpu < 8 \<Longrightarrow> i < n \<Longrightarrow> wr cpu i v d \<noteq> None"
    and wr_wf: "wr cpu i v d = Some d' \<Longrightarrow> gicd_wf d \<Longrightarrow> gicd_wf d'"
    and rd_wr: "wr cpu i v d = Some d' \<Longrightarrow> rd cpu i d' = Some v"
    and rd_wr_other: "wr cpu i v d = Some d' \<Longrightarrow> i' \<noteq> i \<or> i < k \<and> cpu' \<noteq> cpu \<Longrightarrow>
          rd cpu' i' d' = rd cpu' i' d"
    and rd_shared: "k \<le> i \<Longrightarrow> rd cpu i d = rd cpu' i d"
    and wr_bank: "wr cpu i v d = Some d' \<Longrightarrow> j \<noteq> cpu \<or> k \<le> i \<Longrightarrow> banked d' ! j = banked d ! j"
    and wr_frame: "wr cpu i v d = Some d' \<Longrightarrow> ctlr d' = ctlr d \<and> own_target d' = own_target d \<and>
          to_inject_interrupt d' = to_inject_interrupt d \<and> length (banked d') = length (banked d)"
begin

lemma modify_total:
  assumes "gicd_wf d" "cpu < 8" "i < n"
  obtains r d' where "rd cpu i d = Some r" "wr cpu i (f r) d = Some d'" "gicd_wf d'"
    "rd cpu i d' = Some (f r)"
proof -
  from rd_total [OF assms] obtain r where r: "rd cpu i d = Some r" by blast
  from wr_total [OF assms] obtain d' where d': "wr cpu i (f r) d = Some d'" by blast
  show thesis
    using that [OF r d' wr_wf [OF d' assms(1)] rd_wr [OF d']] .
qed

end

lemmas gicd_register_defs = group_register_def set_group_register_def enable_register_def
  set_enable_register_def pending_register_def set_pending_register_def active_register_def
  set_active_register_def priority_register_def set_priority_register_def
  configuration_register_def set_configuration_register_def

lemmas gicd_register_simps = gicd_register_defs at_iffs gicd_wf_def list_all_length
  nth_list_update get_at_def BANKED_INT_ID_COUNT_def

interpretation group: gicd_register group_register set_group_register 32 1
  by unfold_locales (auto simp: gicd_register_simps split: if_splits)

interpretation enable: gicd_register enable_register set_enable_register 32 1
  by unfold_locales (auto simp: gicd_register_simps split: if_splits)

interpretation pending: gicd_register pending_register set_pending_register 32 1
  by unfold_locales (auto simp: gicd_register_simps split: if_splits)

interpretation active: gicd_register active_register set_active_register 32 1
  by unfold_locales (auto simp: gicd_register_simps split: if_splits)

interpretation priority: gicd_register priority_register set_priority_register 255 8
  by unfold_locales (auto simp: gicd_register_simps split: if_splits)

interpretation configuration: gicd_register configuration_register set_configuration_register 64 2
  by unfold_locales (auto simp: gicd_register_simps split: if_splits)

section \<open>Pending, enable and priority of one interrupt\<close>

lemma trailing_zeros8_flag [simp]: "b < 8 \<Longrightarrow> target_to_cpu_index (flag b) = b"
proof -
  assume b: "b < 8"
  then have "find (bit (flag b :: u8)) [0..<8] = Some b"
    unfolding find_Some_iff by (intro exI [of _ b]) (simp add: bit_flag_iff)
  with b show ?thesis
    by (simp add: target_to_cpu_index_def trailing_zeros8_def MAX_CPU_INTERFACES_def)
qed

lemma get_pending_eq: "get_pending cpu iid d = map_option (\<lambda>r. bit r (unat iid mod 32)) (pending_register cpu (unat iid div 32) d)"
  by (cases "pending_register cpu (unat iid div 32) d") (simp_all add: get_pending_def drop_bit_and_1)

lemma get_enable_eq: "get_enable cpu iid d = map_option (\<lambda>r. bit r (unat iid mod 32)) (enable_register cpu (unat iid div 32) d)"
  by (cases "enable_register cpu (unat iid div 32) d") (simp_all add: get_enable_def drop_bit_and_1)

lemma get_group_less: "get_group cpu iid d = Some g \<Longrightarrow> g < 2"
  by (auto simp: get_group_def drop_bit_and_1 bind_eq_Some_conv)

lemma field_total:
  assumes "gicd_wf d" "cpu < 8"
  shows "unat iid < 1024 \<Longrightarrow> get_pending cpu iid d \<noteq> None"
    and "unat iid < 1024 \<Longrightarrow> get_enable cpu iid d \<noteq> None"
    and "unat iid < 1024 \<Longrightarrow> get_group cpu iid d \<noteq> None"
    and "unat iid < 1020 \<Longrightarrow> get_priority cpu iid d \<noteq> None"
proof -
  assume "unat iid < 1024"
  then have i: "unat iid div 32 < 32" by simp
  show "get_pending cpu iid d \<noteq> None"
    using pending.rd_total [OF assms i] by (simp add: get_pending_eq)
  show "get_enable cpu iid d \<noteq> None"
    using enable.rd_total [OF assms i] by (simp add: get_enable_eq)
  show "get_group cpu iid d \<noteq> None"
    using group.rd_total [OF assms i] by (auto simp: get_group_def)
next
  assume "unat iid < 1020"
  then have i: "unat iid div 4 < 255" by simp
  show "get_priority cpu iid d \<noteq> None"
    using priority.rd_total [OF assms i] by (auto simp: get_priority_def)
qed

lemma change_pending_total:
  assumes "gicd_wf d" "cpu < 8" "unat iid < 1024"
  shows "\<exists>d'. change_pending_status_of cpu iid v d = Some d' \<and> gicd_wf d'"
proof -
  have "unat iid div 32 < 32" using assms(3) by simp
  with assms(1,2) show ?thesis
    by (rule pending.modify_total [where
          f = "\<lambda>r. if v then r OR flag (unat iid mod 32) else r AND NOT (flag (unat iid mod 32))"])
      (simp add: change_pending_status_of_def)
qed

lemma change_pendingE:
  assumes "change_pending_status_of cpu iid v d = Some d'"
  obtains r where "pending_register cpu (unat iid div 32) d = Some r"
    "set_pending_register cpu (unat iid div 32)
       (if v then r OR flag (unat iid mod 32) else r AND NOT (flag (unat iid mod 32))) d = Some d'"
  using assms by (auto simp: change_pending_status_of_def Let_def bind_eq_Some_conv)

lemma change_pending_frame:
  assumes "change_pending_status_of cpu iid v d = Some d'"
  shows "gicd_wf d \<Longrightarrow> gicd_wf d'"
    and "ctlr d' = ctlr d" "own_target d' = own_target d"
    and "to_inject_interrupt d' = to_inject_interrupt d"
    and "j \<noteq> cpu \<or> 32 \<le> unat iid \<Longrightarrow> banked d' ! j = banked d ! j"
  using assms
  by (elim change_pendingE;
      auto dest: pending.wr_wf pending.wr_frame intro!: pending.wr_bank simp: div_greater_zero_iff Suc_le_eq)+

lemma change_pending_get:
  assumes "change_pending_status_of cpu iid v d = Some d'"
  shows "get_pending cpu iid d' = Some v"
  using assms by (elim change_pendingE)
    (auto dest!: pending.rd_wr simp: get_pending_eq bit_simps)

lemma change_pending_mono:
  assumes "change_pending_status_of cpu iid True d = Some d'" and "get_pending cpu' iid' d = Some True"
  shows "get_pending cpu' iid' d' = Some True"
proof -
  let ?i = "unat iid div 32" and ?i' = "unat iid' div 32"
  from assms(1) obtain r where r: "pending_register cpu ?i d = Some r"
    "set_pending_register cpu ?i (r OR flag (unat iid mod 32)) d = Some d'"
    by (elim change_pendingE) simp
  show ?thesis
  proof (cases "?i' \<noteq> ?i \<or> ?i < 1 \<and> cpu' \<noteq> cpu")
    case True
    with pending.rd_wr_other [OF r(2) this] assms(2) show ?thesis
      by (simp add: get_pending_eq)
  next
    case False
    then have same: "pending_register cpu' ?i' x = pending_register cpu ?i x" for x
      using pending.rd_shared [of ?i cpu x cpu'] by fastforce
    with pending.rd_wr [OF r(2)] r(1) assms(2) show ?thesis
      by (auto simp: get_pending_eq bit_simps)
  qed
qed

section \<open>Delivery to targets\<close>

lemma trigger_target_cases [consumes 1, case_names skip masked here remote]:
  assumes "trigger_target iid ph on cur targets b (d, p, hit) = Some (d', p', hit')"
  obtains
    "targets AND flag b = 0" "d' = d" "p' = p" "hit' = hit"
  | "targets AND flag b \<noteq> 0"
      "change_pending_status_of (target_to_cpu_index (flag b)) iid True d = Some d'"
      "on \<Longrightarrow> get_enable (target_to_cpu_index (flag b)) iid d' = Some False"
      "p' = p" "hit' = hit"
  | g pr ok where "targets AND flag b \<noteq> 0"
      "change_pending_status_of (target_to_cpu_index (flag b)) iid True d = Some d'"
      "on" "get_enable (target_to_cpu_index (flag b)) iid d' = Some True"
      "get_group (target_to_cpu_index (flag b)) iid d' = Some g"
      "flag b = cur" "add_virtual_interrupt (create_list_register_entry iid g pr ph) p = (ok, p')"
      "hit' = (hit \<or> ok)"
  | g pr d1 where "targets AND flag b \<noteq> 0"
      "change_pending_status_of (target_to_cpu_index (flag b)) iid True d = Some d1"
      "on" "get_enable (target_to_cpu_index (flag b)) iid d1 = Some True"
      "flag b \<noteq> cur"
      "d' = d1\<lparr>to_inject_interrupt := to_inject_interrupt d1 @
              [(flag b, create_list_register_entry iid g pr ph)]\<rparr>"
      "p' = send_sgi (flag b) INJECT_INTERRUPT_INT_ID p" "hit'"
proof (cases "targets AND flag b = 0")
  case True
  with assms that(1) show thesis
    by (simp add: trigger_target_def)
next
  case False
  with assms obtain d1 en where 1:
    "change_pending_status_of (target_to_cpu_index (flag b)) iid True d = Some d1"
    "(if \<not> on then Some False else get_enable (target_to_cpu_index (flag b)) iid d1) = Some en"
    by (auto simp: trigger_target_def Let_def bind_eq_Some_conv)
  show thesis
  proof (cases en)
    case en: False
    with assms False 1 that(2) show thesis
      by (auto simp: trigger_target_def Let_def split: if_splits)
  next
    case True
    with 1(2) have en: "on" "get_enable (target_to_cpu_index (flag b)) iid d1 = Some True"
      by (simp_all split: if_splits)
    with assms False 1(1) obtain g pr where g: "get_group (target_to_cpu_index (flag b)) iid d1 = Some g"
      and eq: "(if flag b = cur
        then case add_virtual_interrupt (create_list_register_entry iid g pr ph) p of
               (ok, p) \<Rightarrow> Some (d1, p, hit \<or> ok)
        else Some (d1\<lparr>to_inject_interrupt := to_inject_interrupt d1 @
               [(flag b, create_list_register_entry iid g pr ph)]\<rparr>,
             send_sgi (flag b) INJECT_INTERRUPT_INT_ID p, True)) = Some (d', p', hit')"
      by (simp add: trigger_target_def Let_def bind_eq_Some_conv) blast
    show thesis
    proof (cases "flag b = cur")
      case cur: True
      obtain ok p1 where "add_virtual_interrupt (create_list_register_entry iid g pr ph) p = (ok, p1)"
        by fastforce
      with that(3) [OF False _ _ _ _ cur] 1(1) en g eq cur show thesis
        by simp
    next
      case other: False
      with that(4) [OF False 1(1) en other, of g pr] eq show thesis
        by simp
    qed
  qed
qed

lemma gicd_fields_to_inject [simp]:
  "gicd_wf (d\<lparr>to_inject_interrupt := q\<rparr>) = gicd_wf d"
  "get_pending cpu iid (d\<lparr>to_inject_interrupt := q\<rparr>) = get_pending cpu iid d"
  by (simp_all add: gicd_wf_def get_pending_def pending_register_def)

lemma send_sgi_frame [simp]:
  "cpu_target (send_sgi t i p) = cpu_target p"
  "gich_lr (send_sgi t i p) = gich_lr p"
  "supported_lrn (send_sgi t i p) = supported_lrn p"
  "lrs_distinct (send_sgi t i p) = lrs_distinct p"
  by (simp_all add: send_sgi_def supported_lrn_def get_gich_vtr_list_regs_def lrs_distinct_def)

lemma trigger_target_frame:
  assumes "trigger_target iid ph on cur targets b (d, p, hit) = Some (d', p', hit')"
  shows "gicd_wf d \<Longrightarrow> gicd_wf d'"
    and "ctlr d' = ctlr d \<and> own_target d' = own_target d \<and> cpu_target p' = cpu_target p"
    and "get_pending cpu jid d = Some True \<Longrightarrow> get_pending cpu jid d' = Some True"
    and "lrs_distinct p \<Longrightarrow> lrs_distinct p'"
proof -
  show "gicd_wf d'" if "gicd_wf d"
    using assms that by (cases rule: trigger_target_cases) (auto dest: change_pending_frame(1))
  show "ctlr d' = ctlr d \<and> own_target d' = own_target d \<and> cpu_target p' = cpu_target p"
    using assms by (cases rule: trigger_target_cases)
      (auto dest: change_pending_frame(2,3) add_virtual_interrupt_frame)
  show "get_pending cpu jid d' = Some True" if "get_pending cpu jid d = Some True"
    using assms that by (cases rule: trigger_target_cases) (auto dest: change_pending_mono)
  show "lrs_distinct p'" if "lrs_distinct p"
    using assms that by (cases rule: trigger_target_cases) (auto dest: add_virtual_interrupt_distinct)
qed

lemma trigger_target_bank:
  assumes "trigger_target iid ph on cur targets b (d, p, hit) = Some (d', p', hit')"
    and "32 \<le> unat iid \<or> targets AND flag b = 0 \<or> j \<noteq> target_to_cpu_index (flag b)"
  shows "banked d' ! j = banked d ! j"
  using assms(1)
proof (cases rule: trigger_target_cases)
  case (masked)
  then show ?thesis using assms(2) change_pending_frame(5) [OF masked(2), of j] by auto
next
  case (here g pr ok)
  then show ?thesis using assms(2) change_pending_frame(5) [OF here(2), of j] by auto
next
  case (remote g pr d1)
  then show ?thesis using assms(2) change_pending_frame(5) [OF remote(2), of j] by auto
qed simp

lemma trigger_target_pending:
  assumes "trigger_target iid ph on cur targets b (d, p, hit) = Some (d', p', hit')"
    and "targets AND flag b \<noteq> 0"
  shows "get_pending (target_to_cpu_index (flag b)) iid d' = Some True"
  using assms by (cases rule: trigger_target_cases) (auto dest: change_pending_get)

lemma trigger_target_total:
  assumes "gicd_wf d" "unat iid < 1020"
  shows "\<exists>d' p' hit'. trigger_target iid ph on cur targets b (d, p, hit) = Some (d', p', hit')"
proof -
  let ?c = "target_to_cpu_index (flag b)"
  obtain d1 where d1: "change_pending_status_of ?c iid True d = Some d1" "gicd_wf d1"
    using change_pending_total [OF assms(1), of ?c iid True] assms(2) by auto
  moreover obtain e g pr where "get_enable ?c iid d1 = Some e" "get_group ?c iid d1 = Some g"
    "get_priority ?c iid d1 = Some pr"
    using field_total [OF d1(2), of ?c iid] assms(2) by auto
  ultimately show ?thesis
    by (auto simp: trigger_target_def Let_def split: prod.split)
qed

lemma trigger_to_frame:
  assumes "trigger_interrupt_to iid ph targets (d, p) = Some (d', p', hit)"
  shows "gicd_wf d \<Longrightarrow> gicd_wf d'"
    and "ctlr d' = ctlr d \<and> own_target d' = own_target d \<and> cpu_target p' = cpu_target p"
    and "lrs_distinct p \<Longrightarrow> lrs_distinct p'"
proof -
  let ?I = "\<lambda>(d', p', hit :: bool). (gicd_wf d \<longrightarrow> gicd_wf d') \<and> (lrs_distinct p \<longrightarrow> lrs_distinct p') \<and>
    ctlr d' = ctlr d \<and> own_target d' = own_target d \<and> cpu_target p' = cpu_target p"
  have "?I (d', p', hit)"
    using assms [unfolded trigger_interrupt_to_def split_beta fst_conv snd_conv]
  proof (rule for_each_invariant)
    fix b s s'
    assume "?I s" and step: "trigger_target iid ph (ctlr d AND GICD_CTLR_ENABLE \<noteq> 0)
      (get_current_cpu_target p) targets b s = Some s'"
    then show "?I s'"
      by (cases s; cases s') (use trigger_target_frame(1,2,4) in auto)
  qed simp
  then show "gicd_wf d \<Longrightarrow> gicd_wf d'"
    and "ctlr d' = ctlr d \<and> own_target d' = own_target d \<and> cpu_target p' = cpu_target p"
    and "lrs_distinct p \<Longrightarrow> lrs_distinct p'"
    by simp_all
qed

lemma trigger_to_bank:
  assumes "trigger_interrupt_to iid ph targets (d, p) = Some (d', p', hit)"
    and "32 \<le> unat iid \<or> \<not> bit targets j" and "j < 8"
  shows "banked d' ! j = banked d ! j"
proof -
  have "targets AND flag j = 0" if "\<not> bit targets j"
    using that by (intro bit_word_eqI) (auto simp: bit_simps)
  with assms(2) have j: "32 \<le> unat iid \<or> targets AND flag j = 0" by blast
  let ?I = "\<lambda>(d', p' :: pcpu, hit :: bool). banked d' ! j = banked d ! j"
  have "?I (d', p', hit)"
    using assms(1) [unfolded trigger_interrupt_to_def split_beta fst_conv snd_conv]
  proof (rule for_each_invariant)
    fix b s s'
    assume I: "?I s" and b: "b \<in> set [0..<8]"
      and step: "trigger_target iid ph (ctlr d AND GICD_CTLR_ENABLE \<noteq> 0)
        (get_current_cpu_target p) targets b s = Some s'"
    obtain d1 p1 h1 d2 p2 h2 where s: "s = (d1, p1, h1)" "s' = (d2, p2, h2)"
      by (cases s; cases s') auto
    have "32 \<le> unat iid \<or> targets AND flag b = 0 \<or> j \<noteq> target_to_cpu_index (flag b)"
      using j b by (cases "j = b") auto
    from trigger_target_bank [OF step [unfolded s] this] I s show "?I s'"
      by simp
  qed simp
  then show ?thesis
    by simp
qed

lemma trigger_to_pending:
  assumes "trigger_interrupt_to iid ph targets (d, p) = Some (d', p', hit)"
    and "b < 8" "bit targets b"
  shows "get_pending b iid d' = Some True"
proof -
  have "targets AND flag b \<noteq> 0"
    using assms(2,3) by (auto dest!: arg_cong [where f = "\<lambda>w. bit w b"] simp: bit_simps)
  let ?Q = "\<lambda>(d', p' :: pcpu, hit :: bool). get_pending b iid d' = Some True"
  have "?Q (d', p', hit)"
    using assms(1) [unfolded trigger_interrupt_to_def split_beta fst_conv snd_conv]
  proof (rule for_each_establishes [where x = b])
    show "b \<in> set [0..<8]" using assms(2) by simp
  next
    fix s s'
    assume "trigger_target iid ph (ctlr d AND GICD_CTLR_ENABLE \<noteq> 0)
      (get_current_cpu_target p) targets b s = Some s'"
    with \<open>targets AND flag b \<noteq> 0\<close> trigger_target_pending assms(2) show "?Q s'"
      by (cases s; cases s') fastforce
  next
    fix y s s'
    assume "?Q s" "trigger_target iid ph (ctlr d AND GICD_CTLR_ENABLE \<noteq> 0)
      (get_current_cpu_target p) targets y s = Some s'"
    then show "?Q s'"
      by (cases s; cases s') (auto dest: trigger_target_frame(3))
  qed
  then show ?thesis by simp
qed

lemma trigger_to_total:
  assumes "gicd_wf d" "unat iid < 1020"
  shows "\<exists>d' p' hit. trigger_interrupt_to iid ph targets (d, p) = Some (d', p', hit)"
proof -
  let ?I = "\<lambda>(d', p' :: pcpu, hit :: bool). gicd_wf d'"
  have "\<exists>s'. for_each [0..<8] (trigger_target iid ph (ctlr d AND GICD_CTLR_ENABLE \<noteq> 0)
      (get_current_cpu_target p) targets) (d, p, False) = Some s' \<and> ?I s'"
  proof (rule for_each_total)
    fix b s
    assume I: "?I s"
    obtain d1 p1 h1 where s: "s = (d1, p1, h1)" by (cases s) auto
    with trigger_target_total [OF _ assms(2)] I
    obtain d2 p2 h2 where step: "trigger_target iid ph (ctlr d AND GICD_CTLR_ENABLE \<noteq> 0)
      (get_current_cpu_target p) targets b s = Some (d2, p2, h2)"
      by fastforce
    with trigger_target_frame(1) s I show "\<exists>s'. trigger_target iid ph
      (ctlr d AND GICD_CTLR_ENABLE \<noteq> 0) (get_current_cpu_target p) targets b s = Some s' \<and> ?I s'"
      by fastforce
  qed (use assms(1) in simp)
  then show ?thesis
    by (auto simp: trigger_interrupt_to_def)
qed

text \<open>With a single target bit the loop is one iteration.\<close>

lemma trigger_interrupt_total:
  assumes "gicd_wf d" "unat iid < 1020"
  obtains d' p' h where "trigger_interrupt iid ph (d, p) = Some (d', p', h)" "gicd_wf d'"
  using trigger_to_total [OF assms, of ph "own_target d" p] trigger_to_frame(1) assms(1) that
  by (fastforce simp: trigger_interrupt_def)

lemma trigger_to_flag:
  assumes "b < 8"
  shows "trigger_interrupt_to iid ph (flag b) (d, p) =
    trigger_target iid ph (ctlr d AND GICD_CTLR_ENABLE \<noteq> 0) (get_current_cpu_target p) (flag b) b
      (d, p, False)"
proof -
  let ?t = "trigger_target iid ph (ctlr d AND GICD_CTLR_ENABLE \<noteq> 0) (get_current_cpu_target p) (flag b)"
  have skip: "?t c s = Some s" if "c \<noteq> b" for c s
    using that by (cases s) (simp add: trigger_target_def and_flag_eq_0 bit_flag_iff)
  have "[0..<8] = [0..<b] @ b # [Suc b..<8]"
    using assms upt_add_eq_append [of 0 b "8 - b"] by (simp add: upt_conv_Cons)
  then have "trigger_interrupt_to iid ph (flag b) (d, p) = for_each ([0..<b] @ b # [Suc b..<8]) ?t (d, p, False)"
    by (simp add: trigger_interrupt_to_def)
  also have "\<dots> = Option.bind (?t b (d, p, False)) (for_each [Suc b..<8] ?t)"
  proof -
    have "for_each [0..<b] ?t (d, p, False) = Some (d, p, False)"
      by (rule for_each_skip, rule skip) simp
    then show ?thesis
      by (simp add: for_each_append)
  qed
  also have "\<dots> = ?t b (d, p, False)"
  proof -
    have "for_each [Suc b..<8] ?t s = Some s" for s
      by (rule for_each_skip, rule skip) simp
    then show ?thesis
      by (cases "?t b (d, p, False)") simp_all
  qed
  finally show ?thesis .
qed

lemma retrigger_eq:
  "retrigger iid (d, p) = map_option (\<lambda>(d, p, injected). (d, p))
     (trigger_interrupt_to iid None (if unat iid < 32 then cpu_target p else own_target d) (d, p))"
  unfolding retrigger_def Let_def BANKED_INT_ID_COUNT_def get_current_cpu_target_def fst_conv snd_conv
  by (cases "trigger_interrupt_to iid None (if unat iid < 32 then cpu_target p else own_target d) (d, p)")
    auto

lemma retriggerE:
  assumes "retrigger iid (d, p) = Some (d', p')"
  obtains t h where "trigger_interrupt_to iid None t (d, p) = Some (d', p', h)"
    "32 \<le> unat iid \<or> t = cpu_target p"
  using assms that unfolding retrigger_eq by (cases "unat iid < 32") auto

lemma retrigger_total:
  assumes "gicd_wf d" "unat iid < 1020"
  shows "\<exists>s'. retrigger iid (d, p) = Some s'"
  using trigger_to_total [OF assms, of None "if unat iid < 32 then cpu_target p else own_target d" p]
  by (auto simp: retrigger_eq)

text \<open>What a \<open>retrigger\<close>, and hence each of the two loops, keeps.\<close>

definition gicd_kept :: "gicd \<times> pcpu \<Rightarrow> gicd \<times> pcpu \<Rightarrow> bool" where
  "gicd_kept s s' \<longleftrightarrow> (gicd_wf (fst s) \<longrightarrow> gicd_wf (fst s')) \<and>
     (lrs_distinct (snd s) \<longrightarrow> lrs_distinct (snd s')) \<and>
     own_target (fst s') = own_target (fst s) \<and> cpu_target (snd s') = cpu_target (snd s) \<and>
     (cpu_target (snd s) \<noteq> 0 \<longrightarrow>
        (\<forall>j < 8. \<not> bit (cpu_target (snd s)) j \<longrightarrow> banked (fst s') ! j = banked (fst s) ! j))"

lemma gicd_kept_refl [simp]: "gicd_kept s s"
  by (simp add: gicd_kept_def)

lemma gicd_kept_trans [trans]: "gicd_kept s s' \<Longrightarrow> gicd_kept s' s'' \<Longrightarrow> gicd_kept s s''"
  by (auto simp: gicd_kept_def)

lemma retrigger_kept:
  assumes "retrigger iid s = Some s'"
  shows "gicd_kept s s'"
proof -
  obtain d p d' p' where s: "s = (d, p)" "s' = (d', p')"
    by fastforce
  with assms obtain t h where t: "trigger_interrupt_to iid None t (d, p) = Some (d', p', h)"
    and "32 \<le> unat iid \<or> t = cpu_target p"
    by (auto elim: retriggerE)
  then have "banked d' ! j = banked d ! j" if "j < 8" "\<not> bit (cpu_target p) j" for j
    using that by (intro trigger_to_bank [OF t]) auto
  with trigger_to_frame [OF t] show ?thesis
    by (simp add: gicd_kept_def s)
qed

lemma isenabler_kept: "isenabler_loop cpu i v s = Some s' \<Longrightarrow> gicd_kept s s'"
proof (induction cpu i v s rule: isenabler_loop.induct)
  case (1 cpu i v s)
  show ?case
  proof (cases "v = 0")
    case False
    with 1(2) obtain h s1 where h: "(if v AND 1 \<noteq> 0 then get_pending cpu (of_nat i) (fst s) else Some False) = Some h"
      and s1: "(if h then retrigger (of_nat i) s else Some s) = Some s1"
      and rest: "isenabler_loop cpu (i + 1) (drop_bit 1 v) s1 = Some s'"
      by (subst (asm) isenabler_loop.simps) (simp add: bind_eq_Some_conv, blast)
    from s1 have "gicd_kept s s1"
      by (auto split: if_splits dest: retrigger_kept)
    also from 1(1) [OF False h s1 rest] have "gicd_kept s1 s'" .
    finally show ?thesis .
  qed (use 1(2) in \<open>simp add: isenabler_loop.simps\<close>)
qed

lemma ispendr_kept: "ispendr_loop cpu i v s = Some s' \<Longrightarrow> gicd_kept s s'"
proof (induction cpu i v s rule: ispendr_loop.induct)
  case (1 cpu i v s)
  show ?case
  proof (cases "v = 0")
    case False
    with 1(2) obtain h s1 where h: "(if v AND 1 \<noteq> 0 then get_enable cpu (of_nat i) (fst s) else Some False) = Some h"
      and s1: "(if h then retrigger (of_nat i) s else Some s) = Some s1"
      and rest: "ispendr_loop cpu (i + 1) (drop_bit 1 v) s1 = Some s'"
      by (subst (asm) ispendr_loop.simps) (simp add: bind_eq_Some_conv, blast)
    from s1 have "gicd_kept s s1"
      by (auto split: if_splits dest: retrigger_kept)
    also from 1(1) [OF False h s1 rest] have "gicd_kept s1 s'" .
    finally show ?thesis .
  qed (use 1(2) in \<open>simp add: ispendr_loop.simps\<close>)
qed

text \<open>Neither loop panics as long as every set bit names an INTID that has a priority field.\<close>

lemma isenabler_total:
  assumes "gicd_wf (fst s)" "cpu < 8" "\<And>j. bit v j \<Longrightarrow> i + j < 1020"
  shows "\<exists>s'. isenabler_loop cpu i v s = Some s'"
  using assms
proof (induction cpu i v s rule: isenabler_loop.induct)
  case (1 cpu i v s)
  show ?case
  proof (cases "v = 0")
    case False
    have i: "unat (of_nat i :: u32) < 1020" if "v AND 1 \<noteq> 0"
    proof -
      have "bit v 0" using that by (simp add: and_one_eq bit_0 mod2_eq_if split: if_splits)
      then show ?thesis using 1(4) [of 0] by (simp add: unat_of_nat)
    qed
    obtain h where h: "(if v AND 1 \<noteq> 0 then get_pending cpu (of_nat i) (fst s) else Some False) = Some h"
      using field_total(1) [OF 1(2,3), of "of_nat i"] i by (cases "v AND 1 \<noteq> 0") auto
    obtain s1 where s1: "(if h then retrigger (of_nat i) s else Some s) = Some s1"
      using retrigger_total [OF 1(2) i, of "snd s"] h by (cases h; cases "v AND 1 \<noteq> 0") auto
    then have "gicd_kept s s1"
      by (auto split: if_splits dest: retrigger_kept)
    then have wf: "gicd_wf (fst s1)"
      using 1(2) by (simp add: gicd_kept_def)
    have "\<exists>s'. isenabler_loop cpu (i + 1) (drop_bit 1 v) s1 = Some s'"
    proof (rule 1(1) [OF False h s1 wf 1(3)])
      fix j assume "bit (drop_bit 1 v) j"
      then show "i + 1 + j < 1020" using 1(4) [of "Suc j"] by (simp add: bit_simps)
    qed
    with False h s1 show ?thesis
      by (subst isenabler_loop.simps) simp
  qed (simp add: isenabler_loop.simps)
qed

lemma ispendr_total:
  assumes "gicd_wf (fst s)" "cpu < 8" "\<And>j. bit v j \<Longrightarrow> i + j < 1020"
  shows "\<exists>s'. ispendr_loop cpu i v s = Some s'"
  using assms
proof (induction cpu i v s rule: ispendr_loop.induct)
  case (1 cpu i v s)
  show ?case
  proof (cases "v = 0")
    case False
    have i: "unat (of_nat i :: u32) < 1020" if "v AND 1 \<noteq> 0"
    proof -
      have "bit v 0" using that by (simp add: and_one_eq bit_0 mod2_eq_if split: if_splits)
      then show ?thesis using 1(4) [of 0] by (simp add: unat_of_nat)
    qed
    obtain h where h: "(if v AND 1 \<noteq> 0 then get_enable cpu (of_nat i) (fst s) else Some False) = Some h"
      using field_total(2) [OF 1(2,3), of "of_nat i"] i by (cases "v AND 1 \<noteq> 0") auto
    obtain s1 where s1: "(if h then retrigger (of_nat i) s else Some s) = Some s1"
      using retrigger_total [OF 1(2) i, of "snd s"] h by (cases h; cases "v AND 1 \<noteq> 0") auto
    then have "gicd_kept s s1"
      by (auto split: if_splits dest: retrigger_kept)
    then have wf: "gicd_wf (fst s1)"
      using 1(2) by (simp add: gicd_kept_def)
    have "\<exists>s'. ispendr_loop cpu (i + 1) (drop_bit 1 v) s1 = Some s'"
    proof (rule 1(1) [OF False h s1 wf 1(3)])
      fix j assume "bit (drop_bit 1 v) j"
      then show "i + 1 + j < 1020" using 1(4) [of "Suc j"] by (simp add: bit_simps)
    qed
    with False h s1 show ?thesis
      by (subst ispendr_loop.simps) simp
  qed (simp add: ispendr_loop.simps)
qed

section \<open>MMIO accesses\<close>

lemma in_bank_index:
  "in_bank first n offset \<Longrightarrow> 0 < n \<Longrightarrow> (offset - first) div 4 < n"
  "in_byte_bank first n offset \<Longrightarrow> (offset - first) div 4 < n"
  by (auto simp: in_bank_def in_byte_bank_def)

lemma current_cpu_index_bit:
  assumes "cpu_target p \<noteq> 0"
  shows "bit (cpu_target p) (current_cpu_index p)"
proof -
  obtain k where k: "k < 8" "bit (cpu_target p) k"
    using assms bit_word_eqI [of "cpu_target p" 0] by auto
  then obtain m where m: "find (bit (cpu_target p)) [0..<8] = Some m"
    by (cases "find (bit (cpu_target p)) [0..<8]") (auto simp: find_None_iff)
  from find_upt_SomeD [OF m] m show ?thesis
    by (simp add: current_cpu_index_def target_to_cpu_index_def trailing_zeros8_def
        get_current_cpu_target_def MAX_CPU_INTERFACES_def min_def)
qed

lemma current_cpu_index_flag: "cpu_target p = flag c \<Longrightarrow> c < 8 \<Longrightarrow> current_cpu_index p = c"
  by (simp add: current_cpu_index_def get_current_cpu_target_def)

context gicd_register
begin

lemma wr_kept:
  assumes "wr (current_cpu_index p) i v d = Some d'"
  shows "gicd_kept (d, p) (d', p)"
proof -
  have "banked d' ! j = banked d ! j" if "cpu_target p \<noteq> 0" "\<not> bit (cpu_target p) j" for j
  proof (rule wr_bank [OF assms])
    show "j \<noteq> current_cpu_index p \<or> k \<le> i"
      using current_cpu_index_bit [OF that(1)] that(2) by auto
  qed
  with wr_wf [OF assms] wr_frame [OF assms] show ?thesis
    by (simp add: gicd_kept_def)
qed

lemma wr_returns:
  assumes "gicd_wf d" "i < n" "\<And>d'. gicd_wf d' \<Longrightarrow> gicd_kept (d, p) (d', p) \<Longrightarrow> Q d'"
  shows "returns (wr (current_cpu_index p) i v d) Q"
proof -
  obtain d' where "wr (current_cpu_index p) i v d = Some d'"
    using wr_total [OF assms(1) current_cpu_index_less assms(2)] by blast
  with wr_kept [OF this] wr_wf [OF this assms(1)] assms(3) show ?thesis
    by simp
qed

lemma rd_returns:
  assumes "gicd_wf d" "i < n" "\<And>v. Q v"
  shows "returns (rd (current_cpu_index p) i d) Q"
  using rd_total [OF assms(1) current_cpu_index_less assms(2)] assms(3)
  by (auto simp: returns_def)

end

lemmas register_returns = group.rd_returns enable.rd_returns pending.rd_returns active.rd_returns
  priority.rd_returns configuration.rd_returns
  group.wr_returns enable.wr_returns pending.wr_returns active.wr_returns
  priority.wr_returns configuration.wr_returns

lemma target_regs_length: "gicd_wf d \<Longrightarrow> length (target_regs d) = 255"
  by (simp add: gicd_wf_def)

lemma gicd_read_never_panics:
  assumes "gicd_wf d"
  shows "\<exists>v. gicd_read offset access_width d p = Some (Inr v)"
proof -
  have "returns (gicd_read offset access_width d p) (\<lambda>r. \<exists>v. r = Inr v)"
    unfolding gicd_read_def Let_def
    by (intro returns_intros register_returns [OF assms])
      (auto intro: in_bank_index simp: target_regs_length [OF assms])
  then show ?thesis
    by (auto simp: returns_def)
qed

text \<open>A write to a set-enable or set-pending register names only INTIDs below 1020, the
  interrupts for which the distributor has a priority field.\<close>

definition gicd_write_safe :: "nat \<Rightarrow> u64 \<Rightarrow> bool" where
  "gicd_write_safe offset val \<longleftrightarrow>
     (in_bank GICD_ISENABLER0 32 offset \<longrightarrow>
        (\<forall>j < 64. bit val j \<longrightarrow> (offset - GICD_ISENABLER0) div 4 * 32 + j < 1020)) \<and>
     (in_bank GICD_ISPENDR0 32 offset \<longrightarrow>
        (\<forall>j < 64. bit val j \<longrightarrow> (offset - GICD_ISPENDR0) div 4 * 32 + j < 1020))"

lemma gicd_kept_target_regs [simp]: "gicd_kept (d, p) (d\<lparr>target_regs := rs\<rparr>, p) \<longleftrightarrow>
    (gicd_wf d \<longrightarrow> length rs = 255)"
  by (auto simp: gicd_kept_def gicd_wf_def)

lemma isenabler_returns:
  assumes "gicd_wf d" "gicd_kept s (d, p)"
    "\<And>j. bit v j \<Longrightarrow> i + j < 1020" "\<And>s'. gicd_kept s s' \<Longrightarrow> Q s'"
  shows "returns (isenabler_loop (current_cpu_index p) i v (d, p)) Q"
proof -
  obtain s' where s': "isenabler_loop (current_cpu_index p) i v (d, p) = Some s'"
    using isenabler_total [of "(d, p)" "current_cpu_index p" v i] assms(1,3) by auto
  with isenabler_kept [OF s'] assms(2,4) gicd_kept_trans show ?thesis
    by (auto simp: returns_def)
qed

lemma ispendr_returns:
  assumes "gicd_wf d" "gicd_kept s (d, p)"
    "\<And>j. bit v j \<Longrightarrow> i + j < 1020" "\<And>s'. gicd_kept s s' \<Longrightarrow> Q s'"
  shows "returns (ispendr_loop (current_cpu_index p) i v (d, p)) Q"
proof -
  obtain s' where s': "ispendr_loop (current_cpu_index p) i v (d, p) = Some s'"
    using ispendr_total [of "(d, p)" "current_cpu_index p" v i] assms(1,3) by auto
  with ispendr_kept [OF s'] assms(2,4) gicd_kept_trans show ?thesis
    by (auto simp: returns_def)
qed

lemma gicd_kept_ctlr [simp]: "gicd_kept (d, p) (d\<lparr>ctlr := v\<rparr>, p)"
  by (simp add: gicd_kept_def gicd_wf_def)

lemma gicd_write_safeD:
  assumes "gicd_write_safe offset val" "bit val j"
  shows "in_bank GICD_ISENABLER0 32 offset \<Longrightarrow> (offset - GICD_ISENABLER0) div 4 * 32 + j < 1020"
    and "in_bank GICD_ISPENDR0 32 offset \<Longrightarrow> (offset - GICD_ISPENDR0) div 4 * 32 + j < 1020"
  using assms bit_imp_le_length [OF assms(2)] by (simp_all add: gicd_write_safe_def)

lemma gicd_write_returns:
  assumes "gicd_wf d" "gicd_write_safe offset val" "offset \<noteq> GICD_SGIR"
  shows "returns (gicd_write offset access_width val (d, p))
    (\<lambda>(r, s'). r = Inr () \<and> gicd_kept (d, p) s')"
  unfolding gicd_write_def Let_def prod.case
  by (intro returns_intros register_returns [OF assms(1)])
    (use assms(1,3) in \<open>auto simp: in_bank_index target_regs_length
      intro!: isenabler_returns ispendr_returns dest: gicd_write_safeD [OF assms(2)]\<close>)

lemma gicd_write_sgir_returns:
  assumes "gicd_wf d"
  shows "returns (gicd_write GICD_SGIR access_width val (d, p)) (\<lambda>(r, d', p').
    r = Inr () \<and> gicd_wf d' \<and> (lrs_distinct p \<longrightarrow> lrs_distinct p') \<and>
    own_target d' = own_target d \<and> cpu_target p' = cpu_target p)"
proof -
  let ?t = "trigger_interrupt_to (ucast val AND mask 4) None (sgir_targets val p) (d, p)"
  have eq: "gicd_write GICD_SGIR access_width val (d, p) = Option.bind
      (if access_width = 32 then map_option (\<lambda>(d, p, injected). (d, p)) ?t else Some (d, p))
      (\<lambda>s'. Some (Inr (), s'))"
    by (cases ?t) (auto simp: gicd_write_def gicd_offsets in_bank_def in_byte_bank_def Let_def)
  have "unat (ucast val AND mask 4 :: u32) < 1020"
  proof -
    have "ucast val AND mask 4 = take_bit 4 (ucast val :: u32)"
      by (simp add: take_bit_eq_mask)
    then have "unat (ucast val AND mask 4 :: u32) = take_bit 4 (unat (ucast val :: u32))"
      by (simp add: unsigned_take_bit_eq)
    also have "\<dots> < 2 ^ 4" by (rule take_bit_nat_less_exp)
    finally show ?thesis by simp
  qed
  then obtain d' p' h where t: "?t = Some (d', p', h)"
    using trigger_to_total [OF assms] by blast
  show ?thesis
    unfolding eq using assms trigger_to_frame [OF t] t by simp
qed

section \<open>The retry queue\<close>

lemma inject_queue_subseq: "subseq (fst (inject_queue cur q p)) q"
  by (induction cur q p rule: inject_queue.induct) (auto split: prod.splits)

lemma inject_queue_others:
  "filter (\<lambda>(t, e). t \<noteq> cur) (fst (inject_queue cur q p)) = filter (\<lambda>(t, e). t \<noteq> cur) q"
  by (induction cur q p rule: inject_queue.induct) (auto split: prod.splits)

lemma add_pending_mono:
  assumes "add_virtual_interrupt entry p = (ok, p')" "bit entry 28"
  shows "pending_vids p \<subseteq> pending_vids p'" "ok \<Longrightarrow> lr_vid entry \<in> pending_vids p'"
  using add_virtual_interrupt_vids [OF assms] by auto

lemma inject_queue_mono:
  assumes "\<forall>a \<in> set q. bit (snd a) 28"
  shows "pending_vids p \<subseteq> pending_vids (snd (inject_queue cur q p))"
  using assms
proof (induction q arbitrary: p)
  case (Cons a q)
  obtain t f where a: "a = (t, f)" by fastforce
  obtain ok p1 where add: "add_virtual_interrupt f p = (ok, p1)" by fastforce
  have "pending_vids p \<subseteq> pending_vids p1"
    using add_pending_mono(1) [OF add] Cons.prems a by simp
  with Cons show ?case
    by (cases "inject_queue cur q p"; cases "inject_queue cur q p1") (force simp: a add)
qed simp

lemma inject_queue_no_loss:
  assumes "\<forall>a \<in> set q. bit (snd a) 28" "(cur, e) \<in> set q"
  shows "(cur, e) \<in> set (fst (inject_queue cur q p)) \<or>
    lr_vid e \<in> pending_vids (snd (inject_queue cur q p))"
  using assms
proof (induction q arbitrary: p)
  case (Cons a q)
  obtain t f where a: "a = (t, f)" by fastforce
  obtain ok p1 where add: "add_virtual_interrupt f p = (ok, p1)" by fastforce
  obtain q0 r0 q1 r1 where r: "inject_queue cur q p = (q0, r0)" "inject_queue cur q p1 = (q1, r1)"
    by fastforce
  have IH: "(cur, e) \<in> set q0 \<or> lr_vid e \<in> pending_vids r0"
    "(cur, e) \<in> set q1 \<or> lr_vid e \<in> pending_vids r1" if "(cur, e) \<in> set q"
    using Cons.IH [of p] Cons.IH [of p1] Cons.prems(1) that r by simp_all
  have "lr_vid f \<in> pending_vids r1" if ok
    using add_pending_mono(2) [OF add] inject_queue_mono [of q p1 cur] Cons.prems(1) that a r by auto
  with IH Cons.prems(2) show ?case
    by (cases "t = cur"; cases ok) (auto simp: a add r)
qed simp

lemma inject_queue_frame:
  "cpu_target (snd (inject_queue cur q p)) = cpu_target p \<and>
   supported_lrn (snd (inject_queue cur q p)) = supported_lrn p \<and>
   (lrs_distinct p \<longrightarrow> lrs_distinct (snd (inject_queue cur q p)))"
proof (induction q arbitrary: p)
  case (Cons a q)
  obtain t e where a: "a = (t, e)" by fastforce
  obtain ok p1 where add: "add_virtual_interrupt e p = (ok, p1)" by fastforce
  from add_virtual_interrupt_frame [OF add] add_virtual_interrupt_distinct [OF add]
    Cons [of p] Cons [of p1] show ?case
    by (cases "inject_queue cur q p"; cases "inject_queue cur q p1") (simp add: a add)
qed simp

section \<open>Retrying pending interrupts\<close>

definition inject_wanted :: "nat \<Rightarrow> gicd \<Rightarrow> u32 \<Rightarrow> bool" where
  "inject_wanted cpu d iid \<longleftrightarrow> iid \<noteq> GENERIC_TIMER_VIRTUAL_INT_ID \<and>
     get_pending cpu iid d = Some True \<and> get_enable cpu iid d = Some True"

lemma inject_candidates_Cons:
  assumes "inject_candidates cpu d (i # ids) = Some cs"
  obtains rest where "inject_candidates cpu d ids = Some rest"
    "\<not> inject_wanted cpu d i" "cs = rest"
  | rest pr where "inject_candidates cpu d ids = Some rest"
    "inject_wanted cpu d i" "get_priority cpu i d = Some pr" "cs = (ucast pr, i) # rest"
proof (cases "i = GENERIC_TIMER_VIRTUAL_INT_ID")
  case False
  then obtain b e where be: "get_pending cpu i d = Some b"
    "(if b then get_enable cpu i d else Some False) = Some e"
    using assms by (auto simp: bind_eq_Some_conv)
  show thesis
  proof (cases e)
    case True
    with be assms False that(2) show thesis
      by (auto simp: bind_eq_Some_conv inject_wanted_def split: if_splits)
  next
    case e: False
    with be have "\<not> inject_wanted cpu d i"
      by (auto simp: inject_wanted_def)
    with be assms False e that(1) show thesis
      by simp
  qed
qed (use assms that(1) in \<open>auto simp: inject_wanted_def\<close>)

lemma inject_candidates_iff:
  assumes "inject_candidates cpu d ids = Some cs"
  shows "(pr, iid) \<in> set cs \<longleftrightarrow> iid \<in> set ids \<and> inject_wanted cpu d iid \<and>
    map_option ucast (get_priority cpu iid d) = Some pr"
  using assms
proof (induction ids arbitrary: cs)
  case (Cons i ids)
  from Cons.prems show ?case
    by (cases rule: inject_candidates_Cons) (use Cons.IH in auto)
qed simp

lemma inject_candidates_total:
  assumes "gicd_wf d" "cpu < 8" "\<forall>iid \<in> set ids. unat iid < 1024"
    "\<forall>iid \<in> set ids. 1020 \<le> unat iid \<longrightarrow> \<not> inject_wanted cpu d iid"
  shows "inject_candidates cpu d ids \<noteq> None"
  using assms
proof (induction ids)
  case (Cons i ids)
  then have IH: "inject_candidates cpu d ids \<noteq> None"
    by simp
  obtain b e where be: "get_pending cpu i d = Some b" "get_enable cpu i d = Some e"
    using field_total(1,2) [OF Cons.prems(1,2), of i] Cons.prems(3) by auto
  have "get_priority cpu i d \<noteq> None" if "b" "e" "i \<noteq> GENERIC_TIMER_VIRTUAL_INT_ID"
  proof -
    have "inject_wanted cpu d i"
      using be that by (simp add: inject_wanted_def)
    then have "unat i < 1020"
      using Cons.prems(4) by (auto simp: not_le)
    then show ?thesis
      by (rule field_total(4) [OF Cons.prems(1,2)])
  qed
  with be IH show ?case
    by (cases b; cases e) auto
qed simp

lemma lr_vid_entry: "unat iid < 1024 \<Longrightarrow> lr_vid (create_list_register_entry iid g pr ph) = iid"
proof -
  assume "unat iid < 1024"
  then have "take_bit 10 (unat iid) = unat iid"
    by (simp add: take_bit_nat_eq_self_iff)
  then have "take_bit 10 iid = iid"
    by (metis unsigned_take_bit_eq word_unat_eq_iff)
  then show ?thesis
    unfolding lr_vid_def entry_virtual_id by (simp add: GICH_LR_VIRTUAL_ID_def take_bit_eq_mask)
qed

lemma entry_bit28 [simp]: "bit (create_list_register_entry iid g pr ph) 28"
  by (auto simp: entry_defs bit_simps split: option.split)

lemma add_entry:
  assumes "add_virtual_interrupt (create_list_register_entry iid g pr ph) p = (ok, p')" "unat iid < 1024"
  shows "pending_vids p \<subseteq> pending_vids p'" "ok \<Longrightarrow> iid \<in> pending_vids p'" "\<not> ok \<Longrightarrow> lrs_full p'"
proof -
  show "pending_vids p \<subseteq> pending_vids p'" "ok \<Longrightarrow> iid \<in> pending_vids p'"
    using add_pending_mono [OF assms(1)] lr_vid_entry [OF assms(2)] by simp_all
  show "\<not> ok \<Longrightarrow> lrs_full p'"
    using assms(1) by (cases rule: add_virtual_interrupt_cases) (simp_all add: lrs_full_def)
qed

text \<open>The candidates are served in order until the List Registers are full.\<close>

definition served :: "(u8 \<times> u32) list \<Rightarrow> pcpu \<Rightarrow> bool" where
  "served cs p \<longleftrightarrow> (\<exists>done todo. cs = done @ todo \<and> (\<forall>c \<in> set done. snd c \<in> pending_vids p) \<and>
     (todo \<noteq> [] \<longrightarrow> lrs_full p))"

lemma served_Nil [simp]: "served [] p"
  by (simp add: served_def)

lemma served_full [simp]: "lrs_full p \<Longrightarrow> served cs p"
  unfolding served_def by (rule exI [of _ "[]"], rule exI [of _ cs]) simp

lemma served_Cons: "snd c \<in> pending_vids p \<Longrightarrow> served cs p \<Longrightarrow> served (c # cs) p"
  unfolding served_def by (metis append_Cons set_ConsD)

lemma inject_sorted_spec:
  assumes "gicd_wf d" "cpu < 8" "\<forall>c \<in> set cs. unat (snd c) < 1020"
  shows "returns (inject_sorted cpu d cs p) (\<lambda>p'.
    pending_vids p \<subseteq> pending_vids p' \<and> cpu_target p' = cpu_target p \<and>
    (lrs_distinct p \<longrightarrow> lrs_distinct p') \<and> served cs p')"
  using assms(3)
proof (induction cs arbitrary: p)
  case (Cons c cs)
  obtain pr iid where c: "c = (pr, iid)" by fastforce
  with Cons.prems have iid: "unat iid < 1020" by simp
  obtain g pr' where g: "get_group cpu iid d = Some g" "get_priority cpu iid d = Some pr'"
    using field_total(3,4) [OF assms(1,2), of iid] iid by auto
  obtain ok p1 where add: "add_virtual_interrupt (create_list_register_entry iid g pr' None) p = (ok, p1)"
    by fastforce
  note add_facts = add_entry [OF add] add_virtual_interrupt_frame [OF add]
    add_virtual_interrupt_distinct [OF add]
  show ?case
  proof (cases ok)
    case True
    have "\<forall>c \<in> set cs. unat (snd c) < 1020" using Cons.prems by simp
    from Cons.IH [OF this, of p1] obtain p' where p': "inject_sorted cpu d cs p1 = Some p'"
      "pending_vids p1 \<subseteq> pending_vids p'" "cpu_target p' = cpu_target p1"
      "lrs_distinct p1 \<longrightarrow> lrs_distinct p'" "served cs p'"
      by (auto simp: returns_def)
    then have "served (c # cs) p'"
      using add_facts(2) iid True c by (intro served_Cons) auto
    moreover have "inject_sorted cpu d (c # cs) p = Some p'"
      using g add True p'(1) by (simp add: c)
    ultimately show ?thesis
      using add_facts iid p' by auto
  next
    case False
    moreover have "inject_sorted cpu d (c # cs) p = Some p1"
      using g add False by (simp add: c)
    ultimately show ?thesis
      using add_facts iid by simp
  qed
qed simp

lemma inject_pending_spec:
  assumes "gicd_wf d" "ctlr d AND GICD_CTLR_ENABLE \<noteq> 0"
    "\<And>iid. 1020 \<le> unat iid \<Longrightarrow> unat iid < 1024 \<Longrightarrow> \<not> inject_wanted (current_cpu_index p) d iid"
  defines "n \<equiv> (if get_current_cpu_target p = own_target d then 1024 else 32)"
  obtains cs p' where
    "inject_candidates (current_cpu_index p) d (map of_nat [0..<n]) = Some cs"
    "inject_pending_for_current_cpu d p = Some p'"
    "pending_vids p \<subseteq> pending_vids p'" "cpu_target p' = cpu_target p"
    "lrs_distinct p \<longrightarrow> lrs_distinct p'" "served (sort cs) p'"
    "\<And>iid. unat iid < n \<Longrightarrow> inject_wanted (current_cpu_index p) d iid \<Longrightarrow> \<exists>pr. (pr, iid) \<in> set cs"
proof -
  let ?c = "current_cpu_index p" and ?ids = "map of_nat [0..<n] :: u32 list"
  have n: "n \<le> 1024" by (simp add: n_def)
  have ids: "iid \<in> set ?ids \<longleftrightarrow> unat iid < n" for iid :: u32
  proof
    assume "iid \<in> set ?ids"
    then show "unat iid < n" using n by (auto simp: unat_of_nat)
  next
    assume "unat iid < n"
    then show "iid \<in> set ?ids" by (auto intro!: image_eqI [of _ _ "unat iid"])
  qed
  have "inject_candidates ?c d ?ids \<noteq> None"
    using assms(1,3) ids n by (intro inject_candidates_total) fastforce+
  then obtain cs where cs: "inject_candidates ?c d ?ids = Some cs" by blast
  note iff = inject_candidates_iff [OF cs]
  have wanted: "\<exists>pr. (pr, iid) \<in> set cs" if "unat iid < n" "inject_wanted ?c d iid" for iid
  proof -
    have "unat iid < 1020" using assms(3) [of iid] that n by fastforce
    then have "get_priority ?c iid d \<noteq> None"
      using field_total(4) [OF assms(1), of ?c iid] by simp
    with that show ?thesis unfolding iff ids by auto
  qed
  have "\<forall>c \<in> set (sort cs). unat (snd c) < 1020"
  proof
    fix c assume "c \<in> set (sort cs)"
    then have "(fst c, snd c) \<in> set cs" by simp
    then show "unat (snd c) < 1020"
      using assms(3) [of "snd c"] n unfolding iff ids by (meson less_le_trans not_le)
  qed
  from inject_sorted_spec [OF assms(1) current_cpu_index_less this, of p p] obtain p' where
    p': "inject_sorted ?c d (sort cs) p = Some p'" "pending_vids p \<subseteq> pending_vids p'"
      "cpu_target p' = cpu_target p" "lrs_distinct p \<longrightarrow> lrs_distinct p'" "served (sort cs) p'"
    by (auto simp: returns_def)
  have "inject_pending_for_current_cpu d p = Some p'"
    using assms(2) cs p'(1)
    unfolding inject_pending_for_current_cpu_def n_def BANKED_INT_ID_COUNT_def by simp
  from that [OF cs this p'(2-5) wanted] show thesis .
qed

section \<open>The maintenance interrupt handler\<close>

lemma change_pending_enable:
  assumes "change_pending_status_of cpu iid v d = Some d'"
  shows "get_enable c jid d' = get_enable c jid d"
  using assms by (elim change_pendingE)
    (auto simp: get_enable_def enable_register_def set_pending_register_def at_iffs get_at_def
      nth_list_update split: if_splits)

lemma change_activeE:
  assumes "change_active_status iid v p d = Some d'"
  obtains w where "set_active_register (current_cpu_index p) (unat iid div 32) w d = Some d'"
  using assms by (auto simp: change_active_status_def Let_def bind_eq_Some_conv)

lemma change_active_total:
  assumes "gicd_wf d" "unat iid < 1024"
  shows "returns (change_active_status iid v p d) gicd_wf"
proof -
  have "unat iid div 32 < 32" using assms(2) by simp
  then show ?thesis
    unfolding change_active_status_def Let_def
    by (intro returns_intros active.rd_returns active.wr_returns assms(1)) simp_all
qed

lemma change_active_frame:
  assumes "change_active_status iid v p d = Some d'"
  shows "get_enable c jid d' = get_enable c jid d" "get_pending c jid d' = get_pending c jid d"
    "to_inject_interrupt d' = to_inject_interrupt d" "own_target d' = own_target d"
    "ctlr d' = ctlr d"
  using assms by (elim change_activeE;
    auto simp: get_enable_def enable_register_def get_pending_def pending_register_def
      set_active_register_def at_iffs get_at_def nth_list_update split: if_splits)+

lemma vid_less: "unat (w AND GICH_LR_VIRTUAL_ID) < 1024"
proof -
  have "w AND GICH_LR_VIRTUAL_ID = take_bit 10 w"
    by (simp add: GICH_LR_VIRTUAL_ID_def take_bit_eq_mask)
  then have "unat (w AND GICH_LR_VIRTUAL_ID) = take_bit 10 (unat w)"
    by (simp add: unsigned_take_bit_eq)
  then show ?thesis
    using take_bit_nat_less_exp [of 10 "unat w"] by simp
qed

lemma clear_lr_distinct: "lrs_distinct p \<Longrightarrow> lrs_distinct (set_gich_lr i 0 p)"
proof -
  have dead: "\<not> lr_live 0" by (simp add: lr_live_def GICH_LR_STATE_INACTIVE_def)
  assume "lrs_distinct p"
  then show ?thesis
    unfolding lrs_distinct_def supported_lrn_set_lr
    by (intro inj_onI) (auto simp: dead dest: inj_onD split: if_splits)
qed

text \<open>What the loop over the List Registers keeps: everything the retries look at.\<close>

definition maintained :: "gicd \<times> pcpu \<Rightarrow> gicd \<times> pcpu \<Rightarrow> bool" where
  "maintained s s' \<longleftrightarrow> gicd_wf (fst s') \<and> (lrs_distinct (snd s) \<longrightarrow> lrs_distinct (snd s')) \<and>
     cpu_target (snd s') = cpu_target (snd s) \<and> supported_lrn (snd s') = supported_lrn (snd s) \<and>
     to_inject_interrupt (fst s') = to_inject_interrupt (fst s) \<and>
     ctlr (fst s') = ctlr (fst s) \<and> own_target (fst s') = own_target (fst s) \<and>
     (\<forall>c jid. get_enable c jid (fst s') = get_enable c jid (fst s))"

lemma maintenance_lr_returns:
  assumes "maintained s0 s"
  shows "returns (maintenance_lr eoi i s) (maintained s0)"
proof -
  obtain d p where s: "s = (d, p)" by fastforce
  let ?id = "get_gich_lr i p AND GICH_LR_VIRTUAL_ID"
  have wf: "gicd_wf d" using assms by (simp add: maintained_def s)
  obtain d1 where d1: "change_pending_status ?id False p d = Some d1" "gicd_wf d1"
    using change_pending_total [OF wf current_cpu_index_less vid_less, of p "get_gich_lr i p" False]
    by (auto simp: change_pending_status_def)
  obtain d2 where d2: "change_active_status ?id False p d1 = Some d2" "gicd_wf d2"
    using change_active_total [OF d1(2) vid_less, of "get_gich_lr i p" False p] by (auto simp: returns_def)
  have "maintained s0 (d2, set_gich_lr i 0 p)"
    using assms d2 change_active_frame [OF d2(1)] clear_lr_distinct [of p i]
      change_pending_frame [OF d1(1) [unfolded change_pending_status_def]]
      change_pending_enable [OF d1(1) [unfolded change_pending_status_def]]
    by (auto simp: maintained_def s) (simp_all add: set_gich_lr_def)
  with d1(1) d2(1) assms show ?thesis
    by (simp add: maintenance_lr_def s)
qed

lemma maintenance_loop_returns:
  assumes "gicd_wf d"
  shows "returns (for_each is (maintenance_lr eoi) (d, p)) (maintained (d, p))"
  by (rule returns_for_each) (simp_all add: maintained_def [of _ "(d, p)"] assms maintenance_lr_returns)

lemma get_enable_to_inject [simp]:
  "get_enable cpu iid (d\<lparr>to_inject_interrupt := q\<rparr>) = get_enable cpu iid d"
  by (simp add: get_enable_def enable_register_def)

section \<open>Priority bytes\<close>

lemma byte_update_byte:
  assumes "v < 256" "b < 4" "b' < 4"
  shows "drop_bit (b' * 8) (ucast (byte_update r (b * 8) v) :: u64) AND mask 8 =
    (if b' = b then v else drop_bit (b' * 8) (ucast r) AND mask 8)"
proof -
  have v: "n < 8" if "bit v n" for n
  proof -
    have "take_bit 8 (unat v) = unat v"
      using assms(1) by (simp add: take_bit_nat_eq_self_iff word_less_nat_alt)
    then have "take_bit 8 v = v"
      by (metis unsigned_take_bit_eq word_unat_eq_iff)
    then show ?thesis
      using that by (metis bit_take_bit_iff)
  qed
  show ?thesis
    using assms(2,3) by (intro bit_word_eqI) (auto simp: byte_update_def bit_simps dest: v)
qed

lemma inject_pending_retry:
  assumes "gicd_wf d"
    "\<And>iid. 1020 \<le> unat iid \<Longrightarrow> unat iid < 1024 \<Longrightarrow> \<not> inject_wanted (current_cpu_index p) d iid"
  obtains p' where "inject_pending_for_current_cpu d p = Some p'"
    "pending_vids p \<subseteq> pending_vids p'" "lrs_distinct p \<longrightarrow> lrs_distinct p'"
    "ctlr d AND GICD_CTLR_ENABLE \<noteq> 0 \<longrightarrow> (\<forall>iid. inject_wanted (current_cpu_index p) d iid \<and>
       unat iid < (if cpu_target p = own_target d then 1024 else 32) \<longrightarrow>
       iid \<in> pending_vids p' \<or> lrs_full p')"
proof (cases "ctlr d AND GICD_CTLR_ENABLE = 0")
  case True
  with that [of p] show thesis
    by (simp add: inject_pending_for_current_cpu_def)
next
  case False
  let ?c = "current_cpu_index p" and ?n = "if get_current_cpu_target p = own_target d then 1024 else 32"
  obtain cs p' where p': "inject_pending_for_current_cpu d p = Some p'"
    "pending_vids p \<subseteq> pending_vids p'" "lrs_distinct p \<longrightarrow> lrs_distinct p'" and "served (sort cs) p'"
    and complete: "\<And>iid. unat iid < ?n \<Longrightarrow> inject_wanted ?c d iid \<Longrightarrow> \<exists>pr. (pr, iid) \<in> set cs"
    by (rule inject_pending_spec [OF assms(1) False, of p]) (use assms(2) in auto)
  then obtain dn todo where s: "sort cs = dn @ todo" "\<forall>c \<in> set dn. snd c \<in> pending_vids p'"
    "todo \<noteq> [] \<longrightarrow> lrs_full p'"
    by (auto simp: served_def)
  have "iid \<in> pending_vids p' \<or> lrs_full p'" if w: "inject_wanted ?c d iid" "unat iid < ?n" for iid
  proof -
    obtain pr where "(pr, iid) \<in> set (sort cs)"
      using complete [OF w(2,1)] by auto
    then show ?thesis
      unfolding s(1) using s(2,3) by (cases "todo = []") fastforce+
  qed
  with that [OF p'] show thesis
    by (simp add: get_current_cpu_target_def)
qed

lemma byte_offset_mod: "offset - (base + (offset - base) div 4 * 4) = (offset - base) mod (4 :: nat)"
  by (metis diff_diff_left minus_div_mult_eq_mod)

lemma gicd_read_priority8:
  assumes "in_byte_bank GICD_IPRIORITYR0 255 offset"
  shows "gicd_read offset 8 d p = map_option
    (\<lambda>r. Inr (drop_bit ((offset - GICD_IPRIORITYR0) mod 4 * 8) (ucast r) AND mask 8))
    (priority_register (current_cpu_index p) ((offset - GICD_IPRIORITYR0) div 4) d)"
  using assms
  by (cases "priority_register (current_cpu_index p) ((offset - GICD_IPRIORITYR0) div 4) d")
    (auto simp: gicd_read_def Let_def in_bank_def in_byte_bank_def gicd_offsets byte_offset_mod)

lemma gicd_write_priority8:
  assumes "in_byte_bank GICD_IPRIORITYR0 255 offset"
  shows "gicd_write offset 8 val (d, p) = do {
    r \<leftarrow> priority_register (current_cpu_index p) ((offset - GICD_IPRIORITYR0) div 4) d;
    d \<leftarrow> set_priority_register (current_cpu_index p) ((offset - GICD_IPRIORITYR0) div 4)
       (byte_update r ((offset - GICD_IPRIORITYR0) mod 4 * 8) val) d;
    Some (Inr (), d, p) }"
  using assms
  by (cases "priority_register (current_cpu_index p) ((offset - GICD_IPRIORITYR0) div 4) d")
    (auto simp: gicd_write_def Let_def in_bank_def in_byte_bank_def gicd_offsets
      byte_offset_mod split: bind_split)

section \<open>Properties\<close>

text \<open>
  C6 (\<open>GicDistributorMmio::write\<close>).  A guest write whose set bits name INTIDs below 1020
  does not panic, succeeds, keeps the distributor well formed and keeps every virtual
  INTID in at most one List Register.
\<close>

theorem gicd_write_total:
  assumes "gicd_wf d" "gicd_write_safe offset val"
  shows "\<exists>d' p'. gicd_write offset access_width val (d, p) = Some (Inr (), d', p') \<and>
    gicd_wf d' \<and> (lrs_distinct p \<longrightarrow> lrs_distinct p') \<and> own_target d' = own_target d"
proof (cases "offset = GICD_SGIR")
  case True
  then show ?thesis
    using gicd_write_sgir_returns [OF assms(1), of access_width val p] by (auto simp: returns_def)
next
  case False
  then show ?thesis
    using gicd_write_returns [OF assms False, of access_width p] assms(1)
    by (auto simp: returns_def gicd_kept_def)
qed

theorem gicd_write_total_witness:
  "\<exists>d' p'. gicd_write 0x104 32 0xFFFFFFFF (GicDistributorMmio_new 1, pcpu_reset 1) =
      Some (Inr (), d', p') \<and> gicd_wf d' \<and> (lrs_distinct (pcpu_reset 1) \<longrightarrow> lrs_distinct p') \<and>
      own_target d' = own_target (GicDistributorMmio_new 1)"
  by (rule gicd_write_total) (simp_all add: gicd_write_safe_def in_bank_def gicd_offsets)

text \<open>
  C4 (\<open>BankedRegisters\<close>).  A write by CPU \<open>c\<close> to any register other than \<open>GICD_SGIR\<close> leaves
  the private SGI/PPI registers of every other CPU untouched: enabling, pending or
  reconfiguring one's own interrupts never disturbs another CPU's.
\<close>

theorem gicd_write_bank_isolation:
  assumes "gicd_wf d" "gicd_write_safe offset val" "offset \<noteq> GICD_SGIR"
    and "cpu_target p = flag c" "c < 8"
  shows "\<exists>d' p'. gicd_write offset access_width val (d, p) = Some (Inr (), d', p') \<and>
    (\<forall>j < 8. j \<noteq> c \<longrightarrow> banked d' ! j = banked d ! j)"
proof -
  have "cpu_target p \<noteq> 0" "\<And>j. bit (cpu_target p) j \<longleftrightarrow> j = c"
    using assms(4,5) by (auto simp: bit_simps dest: arg_cong [where f = "\<lambda>w. bit w c"])
  with gicd_write_returns [OF assms(1-3), of access_width p] show ?thesis
    by (auto simp: returns_def gicd_kept_def)
qed

theorem gicd_write_bank_isolation_witness:
  "\<exists>d' p'. gicd_write 0x180 32 0xFFFF0000 (GicDistributorMmio_new 1, pcpu_reset (flag 2)) =
      Some (Inr (), d', p') \<and>
    (\<forall>j < 8. j \<noteq> 2 \<longrightarrow> banked d' ! j = banked (GicDistributorMmio_new 1) ! j)"
  by (rule gicd_write_bank_isolation)
    (simp_all add: gicd_write_safe_def in_bank_def gicd_offsets pcpu_reset_def)

text \<open>
  C2 (\<open>trigger_interrupt_to\<close>).  Triggering an interrupt for one CPU never panics and always
  leaves it pending in that CPU's view.  If it is masked nothing is delivered and the call
  says so; if the CPU is the executing one, the call reports delivery exactly when the
  interrupt already had a List Register or a free one existed, and then it is pending there;
  otherwise an entry for it is queued for its CPU and that CPU is prodded with the
  injection SGI.
\<close>

theorem trigger_one_target:
  assumes "gicd_wf d" "unat iid < 1020" "b < 8"
  defines "on \<equiv> ctlr d AND GICD_CTLR_ENABLE \<noteq> 0 \<and> get_enable b iid d = Some True"
  shows "\<exists>d' p' hit. trigger_interrupt_to iid ph (flag b) (d, p) = Some (d', p', hit) \<and>
    get_pending b iid d' = Some True \<and>
    (\<not> on \<longrightarrow> \<not> hit \<and> p' = p \<and> to_inject_interrupt d' = to_inject_interrupt d) \<and>
    (on \<and> cpu_target p = flag b \<longrightarrow> to_inject_interrupt d' = to_inject_interrupt d \<and>
      (hit \<longleftrightarrow> iid \<in> live_vids p \<or> \<not> lrs_full p) \<and>
      pending_vids p' = (if hit then insert iid (pending_vids p) else pending_vids p)) \<and>
    (on \<and> cpu_target p \<noteq> flag b \<longrightarrow> hit \<and>
      (\<exists>e. lr_vid e = iid \<and> bit e 28 \<and>
        to_inject_interrupt d' = to_inject_interrupt d @ [(flag b, e)]) \<and>
      gicd_sgir p' = gicd_sgir p @ [11 OR push_bit 16 (ucast (flag b :: u8))])"
    (is "\<exists>d' p' hit. _ = Some (d', p', hit) \<and> ?R d' p' hit")
proof -
  let ?on = "ctlr d AND GICD_CTLR_ENABLE \<noteq> 0"
  obtain d' p' hit where t: "trigger_interrupt_to iid ph (flag b) (d, p) = Some (d', p', hit)"
    using trigger_to_total [OF assms(1,2)] by blast
  have vid: "lr_vid (create_list_register_entry iid g pr ph) = iid" for g pr
    using assms(2) by (intro lr_vid_entry) simp
  have pending: "get_pending b iid d' = Some True"
    using trigger_to_pending [OF t assms(3)] assms(3) by (simp add: bit_simps)
  from t [unfolded trigger_to_flag [OF assms(3)]] have "?R d' p' hit"
  proof (cases rule: trigger_target_cases)
    case skip
    then show ?thesis using assms(3) by (simp only: and_flag_eq_0) (simp add: bit_simps)
  next
    case masked
    then have "\<not> on"
      using change_pending_enable [OF masked(2), of b iid] assms(3) by (auto simp: on_def)
    then show ?thesis
      using masked pending change_pending_frame(4) [OF masked(2)] by simp
  next
    case (here g pr ok)
    have "on" "cpu_target p = flag b"
      using change_pending_enable [OF here(2), of b iid] assms(3) here(3,4) here(6) [symmetric]
      by (simp_all add: on_def get_current_cpu_target_def)
    then show ?thesis
      using add_virtual_interrupt_ok_iff [OF here(7)] add_virtual_interrupt_vids [OF here(7)]
        here(8) pending change_pending_frame(4) [OF here(2)]
      by (simp add: vid)
  next
    case (remote g pr d1)
    then have "on" "cpu_target p \<noteq> flag b"
      using change_pending_enable [OF remote(2), of b iid] assms(3)
      by (auto simp: on_def get_current_cpu_target_def)
    moreover have "to_inject_interrupt d' = to_inject_interrupt d @
        [(flag b, create_list_register_entry iid g pr ph)]"
      using remote(6) change_pending_frame(4) [OF remote(2)] by simp
    moreover have "gicd_sgir p' = gicd_sgir p @ [11 OR push_bit 16 (ucast (flag b :: u8))]"
      by (simp add: remote(7) send_sgi_def INJECT_INTERRUPT_INT_ID_def mask_eq_exp_minus_1)
    ultimately show ?thesis
      using remote(8) pending vid by auto
  qed
  with t show ?thesis
    by blast
qed


theorem trigger_one_target_witness:
  "unat (32 :: u32) < 1020 \<and>
   (\<exists>d' p' hit. trigger_interrupt_to 32 None (flag 0)
      (GicDistributorMmio_new (flag 0), pcpu_reset (flag 0)) = Some (d', p', hit) \<and>
     get_pending 0 32 d' = Some True)"
  using trigger_one_target [of "GicDistributorMmio_new (flag 0)" 32 0 None "pcpu_reset (flag 0)"]
  by auto

text \<open>
  \<open>inject_interrupt_handler\<close>.  Serving the queue of cross-CPU injections loses nothing:
  the entries left are a subsequence of the queue, those for other CPUs are all left in
  their order, and each one for this CPU is either still queued or pending in one of its
  List Registers.
\<close>

lemma inject_interrupt_handler_no_loss:
  assumes "\<forall>a \<in> set (to_inject_interrupt d). bit (snd a) 28"
    and "inject_interrupt_handler (d, p) = (d', p')"
  shows "subseq (to_inject_interrupt d') (to_inject_interrupt d) \<and>
    filter (\<lambda>(t, e). t \<noteq> cpu_target p) (to_inject_interrupt d') =
      filter (\<lambda>(t, e). t \<noteq> cpu_target p) (to_inject_interrupt d) \<and>
    (\<forall>e. (cpu_target p, e) \<in> set (to_inject_interrupt d) \<longrightarrow>
      (cpu_target p, e) \<in> set (to_inject_interrupt d') \<or> lr_vid e \<in> pending_vids p')"
proof -
  have eq: "to_inject_interrupt d' = fst (inject_queue (cpu_target p) (to_inject_interrupt d) p)"
    "p' = snd (inject_queue (cpu_target p) (to_inject_interrupt d) p)"
    using assms(2) by (auto simp: inject_interrupt_handler_def get_current_cpu_target_def split: prod.splits)
  show ?thesis
    unfolding eq using inject_queue_subseq inject_queue_others inject_queue_no_loss [OF assms(1)]
    by blast
qed


lemma new_not_wanted: "unat iid < 1024 \<Longrightarrow> c < 8 \<Longrightarrow> get_enable c iid (GicDistributorMmio_new t) = Some False"
proof -
  assume "unat iid < 1024" "c < 8"
  then have "unat iid div 32 < 32" by simp
  with \<open>c < 8\<close> show ?thesis
    by (simp add: get_enable_eq enable_register_def GicDistributorMmio_new_def
        MAX_CPU_INTERFACES_def BankedRegisters_new_def)
qed




text \<open>
  \<open>GICD_IPRIORITYR\<close> byte accesses.  After an 8-bit write of a byte value to an interrupt's
  priority field, reading that field gives the value back, and the priority field of every
  other interrupt reads as before.
\<close>

lemma priority_byte_roundtrip:
  assumes "gicd_wf d" "in_byte_bank GICD_IPRIORITYR0 255 offset"
    and "in_byte_bank GICD_IPRIORITYR0 255 offset'" "val < 256"
  shows "\<exists>d'. gicd_write offset 8 val (d, p) = Some (Inr (), d', p) \<and>
    gicd_read offset 8 d' p = Some (Inr val) \<and>
    (offset' \<noteq> offset \<longrightarrow> gicd_read offset' 8 d' p = gicd_read offset' 8 d p)"
proof -
  let ?c = "current_cpu_index p"
  let ?i = "(offset - GICD_IPRIORITYR0) div 4" and ?b = "(offset - GICD_IPRIORITYR0) mod 4"
  let ?i' = "(offset' - GICD_IPRIORITYR0) div 4" and ?b' = "(offset' - GICD_IPRIORITYR0) mod 4"
  have "?i < 255" using assms(2) by (rule in_bank_index)
  from priority.modify_total [OF assms(1) current_cpu_index_less this, where
      f = "\<lambda>r. byte_update r (?b * 8) val"] obtain r d'
    where r: "priority_register ?c ?i d = Some r"
      "set_priority_register ?c ?i (byte_update r (?b * 8) val) d = Some d'"
      "priority_register ?c ?i d' = Some (byte_update r (?b * 8) val)"
    by metis
  have "gicd_read offset' 8 d' p = gicd_read offset' 8 d p" if "offset' \<noteq> offset"
  proof (cases "?i' = ?i")
    case True
    then have "?b' \<noteq> ?b"
      using that assms(2,3) unfolding in_byte_bank_def by (metis div_mod_decomp eq_diff_iff)
    with True r byte_update_byte [OF assms(4), of ?b ?b'] show ?thesis
      by (simp add: gicd_read_priority8 [OF assms(3)])
  next
    case False
    then show ?thesis
      using priority.rd_wr_other [OF r(2), of ?i' ?c] by (simp add: gicd_read_priority8 [OF assms(3)])
  qed
  then show ?thesis
    using r byte_update_byte [OF assms(4), of ?b ?b]
    by (simp add: gicd_read_priority8 [OF assms(2)] gicd_write_priority8 [OF assms(2)])
qed


text \<open>The bound on the written value in the round trip above is needed too: the trap handler passes the whole
  32-bit source register of a byte store, and its upper bytes reach the neighbouring
  interrupts' priorities.\<close>

lemma priority_byte_write_leaks:
  "do { (r, d, p) \<leftarrow> gicd_write 0x420 8 0x1A0 (GicDistributorMmio_new 1, pcpu_reset 1);
        gicd_read 0x421 8 d p } = Some (Inr 1)"
  by code_simp

end
