(* ===== verification/Ticket_Lock.thy ===== *)
theory Ticket_Lock
  imports Prelude
begin

text \<open>
  The spin lock of \<^verbatim>\<open>lock.rs\<close>: a ticket lock on two 32-bit counters that wrap.

  The CPUs contending for one \<open>Mutex\<close> are naturals below \<open>n\<close>.  A CPU is outside the lock, spinning
  with the ticket it drew, or holding the guard, which keeps the interrupt mask
  (\<open>DAIF\<close>) to restore.  Each atomic action of \<open>lock\<close> and of \<open>MutexGuard::drop\<close> is
  one function; any interleaving of them is a run of the step relation.
\<close>

section \<open>The lock and its operations\<close>

datatype phase = Outside | Waiting u32 | Holding u64

record mutex =
  next_ticket :: u32
  now_serving :: u32
  phase_of :: "nat \<Rightarrow> phase"
  daif_of :: "nat \<Rightarrow> u64"

definition Mutex_new :: "(nat \<Rightarrow> u64) \<Rightarrow> mutex" where
  "Mutex_new daif = \<lparr>next_ticket = 0, now_serving = 0, phase_of = (\<lambda>_. Outside), daif_of = daif\<rparr>"

text \<open>\<open>next_ticket.fetch_add(1)\<close>: atomics wrap, they do not panic.\<close>

definition lock_draw :: "nat \<Rightarrow> mutex \<Rightarrow> mutex" where
  "lock_draw a m = m\<lparr>next_ticket := next_ticket m + 1,
     phase_of := (phase_of m)(a := Waiting (next_ticket m))\<rparr>"

text \<open>One pass of the busy-wait loop: \<open>None\<close> when the CPU has to spin again, otherwise the
  guard is taken with IRQ and FIQ masked.\<close>

definition DAIF_IRQ_FIQ :: u64 where "DAIF_IRQ_FIQ = flag 7 OR flag 6"

definition lock_poll :: "nat \<Rightarrow> u32 \<Rightarrow> mutex \<Rightarrow> mutex option" where
  "lock_poll a my_ticket m =
     (if now_serving m \<noteq> my_ticket then None
      else Some (m\<lparr>phase_of := (phase_of m)(a := Holding (daif_of m a)),
                  daif_of := (daif_of m)(a := daif_of m a OR DAIF_IRQ_FIQ)\<rparr>))"

definition guard_drop :: "nat \<Rightarrow> u64 \<Rightarrow> mutex \<Rightarrow> mutex" where
  "guard_drop a daif m = m\<lparr>now_serving := now_serving m + 1,
     phase_of := (phase_of m)(a := Outside), daif_of := (daif_of m)(a := daif)\<rparr>"

inductive lock_step :: "nat \<Rightarrow> mutex \<Rightarrow> mutex \<Rightarrow> bool" for n where
  draw: "a < n \<Longrightarrow> phase_of m a = Outside \<Longrightarrow> lock_step n m (lock_draw a m)"
| spin: "phase_of m a = Waiting t \<Longrightarrow> lock_poll a t m = None \<Longrightarrow> lock_step n m m"
| acquire: "phase_of m a = Waiting t \<Longrightarrow> lock_poll a t m = Some m' \<Longrightarrow> lock_step n m m'"
| drop: "phase_of m a = Holding d \<Longrightarrow> lock_step n m (guard_drop a d m)"

inductive lock_run :: "nat \<Rightarrow> mutex \<Rightarrow> mutex \<Rightarrow> bool" for n m where
  refl: "lock_run n m m"
| step: "lock_run n m m' \<Longrightarrow> lock_step n m' m'' \<Longrightarrow> lock_run n m m''"

inductive_cases lock_stepE: "lock_step n m m'"

section \<open>The queue behind the counters\<close>

text \<open>The abstract view: the CPUs between drawing a ticket and dropping the guard, in order.\<close>

definition lock_queue :: "nat \<Rightarrow> mutex \<Rightarrow> nat list \<Rightarrow> bool" where
  "lock_queue n m q \<longleftrightarrow> distinct q \<and> set q \<subseteq> {..<n} \<and>
     next_ticket m = now_serving m + of_nat (length q) \<and>
     (\<forall>a. a \<notin> set q \<longrightarrow> phase_of m a = Outside) \<and>
     (\<forall>i < length q. phase_of m (q ! i) = Waiting (now_serving m + of_nat i) \<or>
        i = 0 \<and> (\<exists>d. phase_of m (q ! 0) = Holding d))"

lemma lock_queue_length: "lock_queue n m q \<Longrightarrow> length q \<le> n"
  using card_mono [of "{..<n}" "set q"] by (auto simp: lock_queue_def distinct_card)

lemma lock_queue_new: "lock_queue n (Mutex_new daif) []"
  by (simp add: lock_queue_def Mutex_new_def)

lemma lock_queue_member:
  assumes "lock_queue n m q" "phase_of m a \<noteq> Outside"
  obtains i where "i < length q" "q ! i = a"
proof -
  have "a \<in> set q"
    using assms by (auto simp: lock_queue_def)
  with that show thesis
    by (auto simp: in_set_conv_nth)
qed

lemma lock_queue_holder:
  assumes "lock_queue n m q" "phase_of m a = Holding d"
  obtains "q \<noteq> []" "hd q = a"
proof -
  obtain i where i: "i < length q" "q ! i = a"
    using lock_queue_member [OF assms(1), of a] assms(2) by auto
  with assms have "i = 0"
    by (auto simp: lock_queue_def)
  with i that show thesis
    by (auto simp: hd_conv_nth)
qed

lemma lock_queue_waiter:
  assumes "lock_queue n m q" "phase_of m a = Waiting t" "n \<le> 2 ^ 32"
  obtains i where "i < length q" "q ! i = a" "unat (t - now_serving m) = i"
proof -
  obtain i where i: "i < length q" "q ! i = a"
    using lock_queue_member [OF assms(1), of a] assms(2) by auto
  with assms(1,2) have "t = now_serving m + of_nat i"
    by (auto simp: lock_queue_def)
  moreover have "i < 2 ^ 32"
    using i lock_queue_length [OF assms(1)] assms(3) by linarith
  ultimately show thesis
    using that [OF i] by (simp add: unat_of_nat)
qed

lemma lock_queue_draw:
  assumes "lock_queue n m q" "a < n" "phase_of m a = Outside"
  shows "lock_queue n (lock_draw a m) (q @ [a])"
proof -
  have "a \<notin> set q"
    using assms(1,3) by (auto simp: lock_queue_def in_set_conv_nth)
  moreover have "q ! i \<noteq> a" if "i < length q" for i
    using calculation that nth_mem by blast
  ultimately show ?thesis
    using assms by (auto simp: lock_queue_def lock_draw_def nth_append less_Suc_eq)
qed

lemma lock_queue_acquire:
  assumes "lock_queue n m q" "phase_of m a = Waiting t" "lock_poll a t m = Some m'" "n \<le> 2 ^ 32"
  shows "lock_queue n m' q" "q \<noteq> []" "hd q = a"
proof -
  obtain i where i: "i < length q" "q ! i = a" "unat (t - now_serving m) = i"
    using lock_queue_waiter [OF assms(1,2,4)] .
  have "t = now_serving m"
    using assms(3) by (auto simp: lock_poll_def split: if_splits)
  with i have i0: "i = 0" by simp
  then show "q \<noteq> []" "hd q = a"
    using i by (auto simp: hd_conv_nth)
  have m': "m' = m\<lparr>phase_of := (phase_of m)(a := Holding (daif_of m a)),
      daif_of := (daif_of m)(a := daif_of m a OR DAIF_IRQ_FIQ)\<rparr>"
    using assms(3) by (auto simp: lock_poll_def split: if_splits)
  have "phase_of m' (q ! j) = Waiting (now_serving m + of_nat j) \<or>
      j = 0 \<and> (\<exists>d. phase_of m' (q ! 0) = Holding d)" if j: "j < length q" for j
  proof (cases "j = 0")
    case True
    then show ?thesis using i i0 by (simp add: m')
  next
    case False
    then have "q ! j \<noteq> a" "phase_of m (q ! j) = Waiting (now_serving m + of_nat j)"
      using assms(1) i i0 j by (auto simp: lock_queue_def nth_eq_iff_index_eq)
    then show ?thesis by (simp add: m')
  qed
  moreover have "a \<in> set q" using i nth_mem by blast
  ultimately show "lock_queue n m' q"
    using assms(1) by (auto simp: lock_queue_def m')
qed

lemma lock_queue_drop:
  assumes "lock_queue n m q" "phase_of m a = Holding d"
  shows "lock_queue n (guard_drop a d m) (tl q)"
proof -
  obtain q' where q: "q = a # q'"
    using lock_queue_holder [OF assms] by (metis list.collapse)
  then have "a \<notin> set q'" using assms(1) by (simp add: lock_queue_def)
  then have "q' ! i \<noteq> a" if "i < length q'" for i
    using that nth_mem by blast
  moreover have "phase_of m (q' ! i) = Waiting (now_serving m + of_nat (Suc i))" if "i < length q'" for i
    using assms(1) that unfolding lock_queue_def q by fastforce
  ultimately show ?thesis
    using assms(1) unfolding lock_queue_def q
    by (auto simp: guard_drop_def algebra_simps)
qed

lemma lock_step_queue:
  assumes "lock_step n m m'" "lock_queue n m q" "n \<le> 2 ^ 32"
  shows "\<exists>q'. lock_queue n m' q'"
  using assms(1)
proof cases
  case (draw a)
  then show ?thesis using lock_queue_draw [OF assms(2)] by blast
next
  case (spin a t)
  then show ?thesis using assms(2) by blast
next
  case (acquire a t)
  then show ?thesis using lock_queue_acquire(1) [OF assms(2) _ _ assms(3)] by blast
next
  case (drop a d)
  then show ?thesis using lock_queue_drop [OF assms(2)] by blast
qed

lemma lock_run_queue:
  assumes "lock_run n m m'" "lock_queue n m q" "n \<le> 2 ^ 32"
  shows "\<exists>q'. lock_queue n m' q'"
  using assms by (induction rule: lock_run.induct) (auto dest: lock_step_queue)

section \<open>The interrupt mask\<close>

fun daif_kept :: "u64 \<Rightarrow> phase \<Rightarrow> u64 \<Rightarrow> bool" where
  "daif_kept daif (Holding d) cur \<longleftrightarrow> d = daif \<and> cur = daif OR DAIF_IRQ_FIQ"
| "daif_kept daif Outside cur \<longleftrightarrow> cur = daif"
| "daif_kept daif (Waiting t) cur \<longleftrightarrow> cur = daif"

definition daif_ok :: "(nat \<Rightarrow> u64) \<Rightarrow> mutex \<Rightarrow> bool" where
  "daif_ok daif m \<longleftrightarrow> (\<forall>a. daif_kept (daif a) (phase_of m a) (daif_of m a))"

lemma daif_ok_step:
  assumes "lock_step n m m'" "daif_ok daif m"
  shows "daif_ok daif m'"
proof -
  have at: "daif_kept (daif b) (phase_of m b) (daif_of m b)" for b
    using assms(2) by (simp add: daif_ok_def)
  from assms(1) show ?thesis
  proof cases
    case (draw a)
    then show ?thesis
      using at at [of a] by (simp add: daif_ok_def lock_draw_def)
  next
    case (acquire a t)
    then show ?thesis
      using at at [of a] by (auto simp: daif_ok_def lock_poll_def split: if_splits)
  next
    case (drop a d)
    then show ?thesis
      using at at [of a] by (simp add: daif_ok_def guard_drop_def)
  qed (use assms(2) in simp)
qed

lemma daif_ok_run: "lock_run n m m' \<Longrightarrow> daif_ok daif m \<Longrightarrow> daif_ok daif m'"
  by (induction rule: lock_run.induct) (auto dest: daif_ok_step)

section \<open>Waiting\<close>

definition ahead :: "u32 \<Rightarrow> mutex \<Rightarrow> nat" where
  "ahead t m = unat (t - now_serving m)"

lemma ahead_step:
  assumes "lock_queue n m q" "n \<le> 2 ^ 32" "phase_of m a = Waiting t" "lock_step n m m'"
  shows "phase_of m' a = Waiting t \<and> now_serving m' = now_serving m \<or>
    phase_of m' a = Waiting t \<and> ahead t m = Suc (ahead t m') \<or>
    ahead t m = 0 \<and> (\<exists>d. phase_of m' a = Holding d)"
  using assms(4)
proof cases
  case (draw b)
  then show ?thesis using assms(3) by (auto simp: lock_draw_def)
next
  case (spin b u)
  then show ?thesis using assms(3) by simp
next
  case (acquire b u)
  show ?thesis
  proof (cases "b = a")
    case True
    then show ?thesis using acquire assms(3) by (auto simp: lock_poll_def ahead_def split: if_splits)
  next
    case False
    then show ?thesis using acquire assms(3) by (auto simp: lock_poll_def split: if_splits)
  qed
next
  case (drop b d)
  obtain i where i: "i < length q" "q ! i = a" "unat (t - now_serving m) = i"
    using lock_queue_waiter [OF assms(1,3,2)] .
  have "b \<noteq> a" using drop assms(3) by auto
  moreover have "q ! 0 = b"
    using lock_queue_holder [OF assms(1) drop(2)] by (metis hd_conv_nth)
  ultimately have "0 < i" using i by (cases i) auto
  then have "t - now_serving m \<noteq> 0" using i by auto
  then have "Suc (unat (t - now_serving m - 1)) = unat (t - now_serving m)"
    using unat_minus_one [of "t - now_serving m"] i(3) \<open>0 < i\<close> by simp
  then have "Suc (unat (t - (now_serving m + 1))) = unat (t - now_serving m)"
    by (simp only: diff_diff_eq)
  then show ?thesis
    using drop assms(3) \<open>b \<noteq> a\<close> by (simp add: ahead_def guard_drop_def)
qed

lemma lock_head_progress:
  assumes "lock_queue n m q" "q \<noteq> []"
  shows "(\<exists>d. phase_of m (hd q) = Holding d) \<or>
    (\<exists>t m'. phase_of m (hd q) = Waiting t \<and> lock_poll (hd q) t m = Some m')"
  using assms by (auto simp: lock_queue_def hd_conv_nth lock_poll_def)

text \<open>A run of two CPUs: both draw, the first gets the lock.\<close>

lemma two_cpus_run:
  "lock_run 2 (Mutex_new daif) (lock_draw 1 (lock_draw 0 (Mutex_new daif)))"
  "lock_poll 0 0 (lock_draw 1 (lock_draw 0 (Mutex_new daif))) = Some m \<Longrightarrow>
     lock_run 2 (Mutex_new daif) m"
proof -
  let ?m1 = "lock_draw 0 (Mutex_new daif)" and ?m2 = "lock_draw 1 (lock_draw 0 (Mutex_new daif))"
  have "lock_step 2 (Mutex_new daif) ?m1"
    by (rule lock_step.draw) (simp_all add: Mutex_new_def)
  moreover have "lock_step 2 ?m1 ?m2"
    by (rule lock_step.draw) (simp_all add: Mutex_new_def lock_draw_def)
  ultimately show run: "lock_run 2 (Mutex_new daif) ?m2"
    by (meson lock_run.intros)
  assume "lock_poll 0 0 ?m2 = Some m"
  then have "lock_step 2 ?m2 m"
    by (intro lock_step.acquire [of _ 0 0]) (simp_all add: Mutex_new_def lock_draw_def)
  with run show "lock_run 2 (Mutex_new daif) m"
    by (rule lock_run.step)
qed

section \<open>Properties\<close>

text \<open>
  C8 (\<open>Mutex::lock\<close>, \<open>MutexGuard::drop\<close>).  Mutual exclusion: whatever the interleaving of up to
  \<open>2 ^ 32\<close> CPUs, and across wrap-around of both counters, at most one of them holds the guard.
\<close>

theorem mutual_exclusion:
  assumes "lock_run n (Mutex_new daif) m" "n \<le> 2 ^ 32"
    and "phase_of m a = Holding d" "phase_of m b = Holding e"
  shows "a = b"
proof -
  obtain q where q: "lock_queue n m q"
    using lock_run_queue [OF assms(1) lock_queue_new assms(2)] by blast
  show ?thesis
    using lock_queue_holder [OF q assms(3)] lock_queue_holder [OF q assms(4)] by metis
qed

theorem mutual_exclusion_witness:
  "\<exists>m. lock_poll 0 0 (lock_draw 1 (lock_draw 0 (Mutex_new (\<lambda>_. 0)))) = Some m \<and>
     phase_of m 0 = Holding 0 \<and> (\<forall>b d. phase_of m b = Holding d \<longrightarrow> b = 0)"
proof -
  obtain m where m: "lock_poll 0 0 (lock_draw 1 (lock_draw 0 (Mutex_new (\<lambda>_. 0)))) = Some m"
    "phase_of m 0 = Holding 0"
    by (simp add: lock_poll_def lock_draw_def Mutex_new_def)
  show ?thesis
    using mutual_exclusion [OF two_cpus_run(2) [OF m(1)]] m by fastforce
qed

text \<open>
  C9 (\<open>Mutex::lock\<close>).  Strict first-come first-served order with a bounded wait: a waiting CPU has
  fewer than \<open>n\<close> tickets ahead of it; no step of any CPU increases that number, every
  release decreases it by one, and it gets the lock only at zero.  Meanwhile some CPU holds
  the lock or can take it, so the wait is never a deadlock.
\<close>

theorem ticket_order_bounded_wait:
  assumes "lock_run n (Mutex_new daif) m" "n \<le> 2 ^ 32" "phase_of m a = Waiting t"
  shows "ahead t m < n \<and>
    (\<forall>m'. lock_step n m m' \<longrightarrow>
      phase_of m' a = Waiting t \<and> now_serving m' = now_serving m \<or>
      phase_of m' a = Waiting t \<and> ahead t m = Suc (ahead t m') \<or>
      ahead t m = 0 \<and> (\<exists>d. phase_of m' a = Holding d)) \<and>
    (\<exists>b. (\<exists>d. phase_of m b = Holding d) \<or>
      (\<exists>u m'. phase_of m b = Waiting u \<and> lock_poll b u m = Some m'))"
proof -
  obtain q where q: "lock_queue n m q"
    using lock_run_queue [OF assms(1) lock_queue_new assms(2)] by blast
  obtain i where i: "i < length q" "unat (t - now_serving m) = i"
    using lock_queue_waiter [OF q assms(3,2)] by metis
  then have "ahead t m < n"
    using lock_queue_length [OF q] by (simp add: ahead_def)
  moreover have "q \<noteq> []" using i by auto
  ultimately show ?thesis
    using ahead_step [OF q assms(2,3)] lock_head_progress [OF q] by blast
qed

theorem ticket_order_bounded_wait_witness:
  "ahead 1 (lock_draw 1 (lock_draw 0 (Mutex_new (\<lambda>_. 0)))) < 2"
  using ticket_order_bounded_wait [OF two_cpus_run(1) [of "\<lambda>_. 0"], of 1 1]
  by (simp add: lock_draw_def Mutex_new_def)



end
