(* ===== verification/Serial.thy ===== *)
theory Serial
  imports Prelude
begin

text \<open>
  Character output: \<^verbatim>\<open>serial.rs\<close>.  The global serial port is \<open>None\<close> until a device has been
  registered; afterwards it is the list of bytes the device has been given.  The device
  itself (\<open>SerialDevice::putc\<close>) is the physical UART and is taken to accept every byte.

  Also here: what the device models use of Rust's strings, namely the test that a byte
  slice is valid UTF-8 (\<open>core::str::from_utf8\<close>) and the UTF-8 encoding of \<open>b as char\<close>.
\<close>

type_synonym serial = "u8 list option"

definition init_default_serial_port :: "u8 list \<Rightarrow> serial" where
  "init_default_serial_port device = Some device"

fun crlf :: "u8 list \<Rightarrow> u8 list" where
  "crlf [] = []"
| "crlf (c # cs) = (if c = 10 then [13, c] else [c]) @ crlf cs"

text \<open>\<open>write_str\<close> fails when no device is registered; \<open>print\<close> ignores the failure.\<close>

definition write_str :: "u8 list \<Rightarrow> serial \<Rightarrow> (unit + unit) \<times> serial" where
  "write_str s p = (case p of None \<Rightarrow> (Inl (), None) | Some out \<Rightarrow> (Inr (), Some (out @ crlf s)))"

definition print :: "u8 list \<Rightarrow> serial \<Rightarrow> serial" where
  "print s p = snd (write_str s p)"

section \<open>Strings\<close>

definition is_cont :: "u8 \<Rightarrow> bool" where
  "is_cont b \<longleftrightarrow> 0x80 \<le> b \<and> b \<le> 0xBF"

text \<open>Well-formed UTF-8 byte sequences (Unicode, table 3-7).\<close>

fun utf8_valid :: "u8 list \<Rightarrow> bool" where
  "utf8_valid [] = True"
| "utf8_valid (a # s) =
     (if a \<le> 0x7F then utf8_valid s
      else if 0xC2 \<le> a \<and> a \<le> 0xDF then
        (case s of b # s' \<Rightarrow> is_cont b \<and> utf8_valid s' | _ \<Rightarrow> False)
      else if 0xE0 \<le> a \<and> a \<le> 0xEF then
        (case s of b # c # s' \<Rightarrow>
           (if a = 0xE0 then 0xA0 else 0x80) \<le> b \<and> b \<le> (if a = 0xED then 0x9F else 0xBF) \<and>
           is_cont c \<and> utf8_valid s' | _ \<Rightarrow> False)
      else if 0xF0 \<le> a \<and> a \<le> 0xF4 then
        (case s of b # c # d # s' \<Rightarrow>
           (if a = 0xF0 then 0x90 else 0x80) \<le> b \<and> b \<le> (if a = 0xF4 then 0x8F else 0xBF) \<and>
           is_cont c \<and> is_cont d \<and> utf8_valid s' | _ \<Rightarrow> False)
      else False)"

definition encode_char :: "u8 \<Rightarrow> u8 list" where
  "encode_char b = (if b < 0x80 then [b] else [0xC0 OR drop_bit 6 b, 0x80 OR (b AND mask 6)])"

section \<open>Facts\<close>

lemma crlf_append [simp]: "crlf (xs @ ys) = crlf xs @ crlf ys"
  by (induction xs) auto

lemma utf8_valid_ascii: "\<forall>b \<in> set s. b \<le> 0x7F \<Longrightarrow> utf8_valid s"
  by (induction s) auto

lemma print_Some [simp]: "print s (Some out) = Some (out @ crlf s)"
  by (simp add: print_def write_str_def)

lemma print_None [simp]: "print s None = None"
  by (simp add: print_def write_str_def)

lemma crlf_filter: "filter (\<lambda>c. c \<noteq> 13) (crlf s) = filter (\<lambda>c. c \<noteq> 13) s"
  by (induction s) auto

end
