(* ===== verification/Fifo.thy ===== *)
theory Fifo
  imports Prelude
begin

text \<open>
  The contract of a bounded first-in first-out buffer of bytes, as the device models use
  it: a push drops the byte when the buffer is full, a pop on an empty buffer finds
  nothing.  What every user relies on is proved here once.
\<close>

locale bounded_fifo =
  fixes inv :: "'s \<Rightarrow> bool" and contents :: "'s \<Rightarrow> 'a list" and cap :: nat
    and push :: "'a \<Rightarrow> 's \<Rightarrow> 's" and pop :: "'s \<Rightarrow> 'a option \<times> 's"
  assumes inv_push: "inv s \<Longrightarrow> inv (push x s)"
    and inv_pop: "inv s \<Longrightarrow> inv (snd (pop s))"
    and bounded: "inv s \<Longrightarrow> length (contents s) \<le> cap"
    and push_room: "inv s \<Longrightarrow> length (contents s) < cap \<Longrightarrow> contents (push x s) = contents s @ [x]"
    and push_full: "inv s \<Longrightarrow> length (contents s) = cap \<Longrightarrow> contents (push x s) = contents s"
    and pop_empty: "inv s \<Longrightarrow> contents s = [] \<Longrightarrow> fst (pop s) = None \<and> contents (snd (pop s)) = []"
    and pop_first: "inv s \<Longrightarrow> contents s = x # xs \<Longrightarrow> fst (pop s) = Some x \<and> contents (snd (pop s)) = xs"
begin

lemma push_contents:
  "inv s \<Longrightarrow> contents (push x s) = take cap (contents s @ [x])"
  using bounded [of s] by (cases "length (contents s) < cap") (auto simp: push_room push_full)

text \<open>A burst of input: what fits is kept in order, the rest is dropped.\<close>

lemma push_all:
  assumes "inv s"
  shows "inv (fold push xs s) \<and> contents (fold push xs s) = take cap (contents s @ xs)"
  using assms
proof (induction xs arbitrary: s)
  case (Cons x xs)
  from Cons.IH [OF inv_push [OF Cons.prems, of x]] push_contents [OF Cons.prems, of x]
  show ?case
    using bounded [OF Cons.prems] by (cases "length (contents s) < cap") (auto simp: min_def)
qed (use bounded in simp)

primrec pop_many :: "nat \<Rightarrow> 's \<Rightarrow> 'a list \<times> 's" where
  "pop_many 0 s = ([], s)"
| "pop_many (Suc n) s = (case pop s of
     (None, s') \<Rightarrow> pop_many n s'
   | (Some x, s') \<Rightarrow> (case pop_many n s' of (xs, s'') \<Rightarrow> (x # xs, s'')))"

lemma pop_many_contents:
  assumes "inv s"
  shows "fst (pop_many n s) = take n (contents s) \<and> contents (snd (pop_many n s)) = drop n (contents s) \<and>
    inv (snd (pop_many n s))"
  using assms
proof (induction n arbitrary: s)
  case (Suc n)
  obtain r s' where r: "pop s = (r, s')" by fastforce
  have inv: "inv s'" using inv_pop [OF Suc.prems] r by simp
  show ?case
  proof (cases "contents s")
    case Nil
    then have "r = None" "contents s' = []" using pop_empty [OF Suc.prems] r by auto
    with Suc.IH [OF inv] r Nil show ?thesis by simp
  next
    case (Cons x xs)
    then have "r = Some x" "contents s' = xs" using pop_first [OF Suc.prems] r by auto
    with Suc.IH [OF inv] r Cons show ?thesis by (cases "pop_many n s'") simp
  qed
qed simp

end

end
