(* ===== verification/Pl011_Mmio.thy ===== *)
theory Pl011_Mmio
  imports Gic_Distributor Serial Fifo
begin

text \<open>
  The emulated PL011 UART: \<^verbatim>\<open>mmio/pl011.rs\<close>.  The struct \<open>Pl011Mmio\<close> is the record \<open>pl011\<close>.  The
  receive buffer is a ring of 256 bytes, the transmit buffer a line buffer flushed to the
  serial port of the theory \<open>Serial\<close>.  The diagnostic counters of \<open>DR\<close> writes are left out.
\<close>

section \<open>State\<close>

definition UART_DR :: nat where "UART_DR = 0x000"
definition UART_RSR_ECR :: nat where "UART_RSR_ECR = 0x004"
definition UART_FR :: nat where "UART_FR = 0x018"
definition UART_ILPR :: nat where "UART_ILPR = 0x020"
definition UART_IBRD :: nat where "UART_IBRD = 0x024"
definition UART_FBRD :: nat where "UART_FBRD = 0x028"
definition UART_LCR_H :: nat where "UART_LCR_H = 0x02C"
definition UART_CR :: nat where "UART_CR = 0x030"
definition UART_IFLS :: nat where "UART_IFLS = 0x034"
definition UART_IMSC :: nat where "UART_IMSC = 0x038"
definition UART_RIS :: nat where "UART_RIS = 0x03C"
definition UART_MIS :: nat where "UART_MIS = 0x040"
definition UART_ICR :: nat where "UART_ICR = 0x044"
definition UART_DMACR :: nat where "UART_DMACR = 0x048"
definition UART_PERIPH_ID0 :: nat where "UART_PERIPH_ID0 = 0xFE0"
definition UART_PERIPH_ID1 :: nat where "UART_PERIPH_ID1 = 0xFE4"
definition UART_PERIPH_ID2 :: nat where "UART_PERIPH_ID2 = 0xFE8"
definition UART_PERIPH_ID3 :: nat where "UART_PERIPH_ID3 = 0xFEC"
definition UART_PCELL_ID0 :: nat where "UART_PCELL_ID0 = 0xFF0"
definition UART_PCELL_ID1 :: nat where "UART_PCELL_ID1 = 0xFF4"
definition UART_PCELL_ID2 :: nat where "UART_PCELL_ID2 = 0xFF8"
definition UART_PCELL_ID3 :: nat where "UART_PCELL_ID3 = 0xFFC"

lemmas uart_offsets = UART_DR_def UART_RSR_ECR_def UART_FR_def UART_ILPR_def UART_IBRD_def
  UART_FBRD_def UART_LCR_H_def UART_CR_def UART_IFLS_def UART_IMSC_def UART_RIS_def UART_MIS_def
  UART_ICR_def UART_DMACR_def UART_PERIPH_ID0_def UART_PERIPH_ID1_def UART_PERIPH_ID2_def
  UART_PERIPH_ID3_def UART_PCELL_ID0_def UART_PCELL_ID1_def UART_PCELL_ID2_def UART_PCELL_ID3_def

definition UART_FR_RXFE :: u16 where "UART_FR_RXFE = flag 4"
definition UART_FR_RXFF :: u16 where "UART_FR_RXFF = flag 6"
definition UART_IMSC_RXIM :: u16 where "UART_IMSC_RXIM = flag 4"
definition UART_RIS_RXRIS :: u16 where "UART_RIS_RXRIS = flag 4"
definition PL011_INT_ID :: u32 where "PL011_INT_ID = 33"
definition RX_FIFO_SIZE :: nat where "RX_FIFO_SIZE = 256"
definition TX_BUFFER_SIZE :: nat where "TX_BUFFER_SIZE = 256"

record pl011 =
  uart_flag :: u16
  interrupt_mask :: u16
  raw_interrupt_status :: u16
  control :: u16
  rx_fifo :: "u8 list"
  rx_fifo_head :: nat
  rx_fifo_len :: nat
  tx_buffer :: "u8 list"
  tx_len :: nat
  irda_low_power_counter :: u16
  integer_baud_rate_divisor :: u16
  fractional_baud_rate_divisor :: u16
  line_control :: u16
  interrupt_fifo_level_select :: u16
  dma_control :: u16

definition Pl011Mmio_new :: pl011 where
  "Pl011Mmio_new = \<lparr>uart_flag = UART_FR_RXFE, interrupt_mask = 0, raw_interrupt_status = 0,
     control = 0, rx_fifo = replicate RX_FIFO_SIZE 0, rx_fifo_head = 0, rx_fifo_len = 0,
     tx_buffer = replicate TX_BUFFER_SIZE 0, tx_len = 0, irda_low_power_counter = 0,
     integer_baud_rate_divisor = 0, fractional_baud_rate_divisor = 0, line_control = 0,
     interrupt_fifo_level_select = 0, dma_control = 0\<rparr>"

section \<open>Receiving\<close>

text \<open>The buffer half of \<open>push\<close>: a full buffer drops the byte.\<close>

definition rx_push :: "u8 \<Rightarrow> pl011 \<Rightarrow> pl011" where
  "rx_push data u =
     (if rx_fifo_len u = RX_FIFO_SIZE then u
      else let tail = (rx_fifo_head u + rx_fifo_len u) mod RX_FIFO_SIZE;
               len = rx_fifo_len u + 1;
               fl = uart_flag u AND NOT UART_FR_RXFE
           in u\<lparr>rx_fifo := (rx_fifo u)[tail := data], rx_fifo_len := len,
                uart_flag := (if len = RX_FIFO_SIZE then fl OR UART_FR_RXFF else fl)\<rparr>)"

definition pl011_push :: "u8 \<Rightarrow> pl011 \<Rightarrow> gicd \<times> pcpu \<Rightarrow> (pl011 \<times> gicd \<times> pcpu) option" where
  "pl011_push data u s =
     (if rx_fifo_len u = RX_FIFO_SIZE then Some (u, s)
      else let u' = rx_push data u in
        if interrupt_mask u' AND UART_IMSC_RXIM \<noteq> 0 then do {
          (d, p, injected) \<leftarrow> trigger_interrupt PL011_INT_ID None s;
          Some (u'\<lparr>raw_interrupt_status := raw_interrupt_status u' OR UART_RIS_RXRIS\<rparr>, d, p) }
        else Some (u', s))"

text \<open>The branch of \<open>read\<close> for the data register.\<close>

definition rx_pop :: "pl011 \<Rightarrow> u8 option \<times> pl011" where
  "rx_pop u =
     (if rx_fifo_len u = 0 then (None, u)
      else let len = rx_fifo_len u - 1;
               u' = u\<lparr>rx_fifo_head := (rx_fifo_head u + 1) mod RX_FIFO_SIZE, rx_fifo_len := len,
                      uart_flag := uart_flag u AND NOT UART_FR_RXFF\<rparr>
           in (Some (rx_fifo u ! rx_fifo_head u),
               if len = 0 then u'\<lparr>uart_flag := uart_flag u' OR UART_FR_RXFE,
                 raw_interrupt_status := raw_interrupt_status u' AND NOT UART_RIS_RXRIS\<rparr>
               else u'))"

definition pl011_read :: "nat \<Rightarrow> nat \<Rightarrow> pl011 \<Rightarrow> (unit + u64) \<times> pl011" where
  "pl011_read offset access_width u =
     (if offset = UART_DR then
        (case rx_pop u of
           (None, u') \<Rightarrow> (Inr 0, u')
         | (Some c, u') \<Rightarrow> (Inr (ucast c), u'))
      else
        (Inr (if offset = UART_FR then ucast (uart_flag u)
              else if offset = UART_CR then ucast (control u)
              else if offset = UART_IMSC then ucast (interrupt_mask u)
              else if offset = UART_RIS then ucast (raw_interrupt_status u)
              else if offset = UART_MIS then ucast (raw_interrupt_status u AND interrupt_mask u)
              else if offset = UART_RSR_ECR then 0
              else if offset = UART_ILPR then ucast (irda_low_power_counter u)
              else if offset = UART_IBRD then ucast (integer_baud_rate_divisor u)
              else if offset = UART_FBRD then ucast (fractional_baud_rate_divisor u)
              else if offset = UART_LCR_H then ucast (line_control u)
              else if offset = UART_IFLS then ucast (interrupt_fifo_level_select u)
              else if offset = UART_DMACR then ucast (dma_control u)
              else if offset = UART_PERIPH_ID0 then 0x11
              else if offset = UART_PERIPH_ID1 then push_bit 4 0x01
              else if offset = UART_PERIPH_ID2 then push_bit 4 0x03 OR 0x04
              else if offset = UART_PERIPH_ID3 then 0x00
              else if offset = UART_PCELL_ID0 then 0x0D
              else if offset = UART_PCELL_ID1 then 0xF0
              else if offset = UART_PCELL_ID2 then 0x05
              else if offset = UART_PCELL_ID3 then 0xB1
              else 0), u))"

section \<open>Transmitting\<close>

definition flush_tx :: "pl011 \<times> serial \<Rightarrow> pl011 \<times> serial" where
  "flush_tx s =
     (case s of (u, out) \<Rightarrow>
        if tx_len u = 0 then (u, out)
        else let bytes = take (tx_len u) (tx_buffer u) in
          (u\<lparr>tx_len := 0\<rparr>,
           if utf8_valid bytes then print bytes out
           else fold (\<lambda>b. print (encode_char b)) bytes out))"

definition pl011_write :: "nat \<Rightarrow> nat \<Rightarrow> u64 \<Rightarrow> pl011 \<times> serial \<Rightarrow> (unit + unit) \<times> pl011 \<times> serial" where
  "pl011_write offset access_width val s =
     (case s of (u, out) \<Rightarrow>
       (Inr (),
        if offset = UART_DR then
          (let c = (ucast val :: u8);
               u' = (if tx_len u < TX_BUFFER_SIZE
                     then u\<lparr>tx_buffer := (tx_buffer u)[tx_len u := c], tx_len := tx_len u + 1\<rparr>
                     else u)
           in if c = 10 \<or> tx_len u' = TX_BUFFER_SIZE then flush_tx (u', out) else (u', out))
        else if offset = UART_CR then (u\<lparr>control := ucast val\<rparr>, out)
        else if offset = UART_IMSC then (u\<lparr>interrupt_mask := ucast val\<rparr>, out)
        else if offset = UART_ICR then
          (u\<lparr>raw_interrupt_status := raw_interrupt_status u AND NOT (ucast val)\<rparr>, out)
        else if offset = UART_RSR_ECR then (u, out)
        else if offset = UART_ILPR then (u\<lparr>irda_low_power_counter := ucast val\<rparr>, out)
        else if offset = UART_IBRD then (u\<lparr>integer_baud_rate_divisor := ucast val\<rparr>, out)
        else if offset = UART_FBRD then (u\<lparr>fractional_baud_rate_divisor := ucast val\<rparr>, out)
        else if offset = UART_LCR_H then (u\<lparr>line_control := ucast val\<rparr>, out)
        else if offset = UART_IFLS then (u\<lparr>interrupt_fifo_level_select := ucast val\<rparr>, out)
        else if offset = UART_DMACR then (u\<lparr>dma_control := ucast val\<rparr>, out)
        else (u, out)))"

section \<open>Invariant and contents\<close>

text \<open>The ring is in range and the two receive flags tell its state.\<close>

definition pl011_inv :: "pl011 \<Rightarrow> bool" where
  "pl011_inv u \<longleftrightarrow> length (rx_fifo u) = RX_FIFO_SIZE \<and> rx_fifo_head u < RX_FIFO_SIZE \<and>
     rx_fifo_len u \<le> RX_FIFO_SIZE \<and> length (tx_buffer u) = TX_BUFFER_SIZE \<and>
     tx_len u < TX_BUFFER_SIZE \<and>
     (bit (uart_flag u) 4 \<longleftrightarrow> rx_fifo_len u = 0) \<and>
     (bit (uart_flag u) 6 \<longleftrightarrow> rx_fifo_len u = RX_FIFO_SIZE)"

definition rx_contents :: "pl011 \<Rightarrow> u8 list" where
  "rx_contents u = map (\<lambda>i. rx_fifo u ! ((rx_fifo_head u + i) mod RX_FIFO_SIZE)) [0..<rx_fifo_len u]"

definition tx_pending :: "pl011 \<Rightarrow> u8 list" where
  "tx_pending u = take (tx_len u) (tx_buffer u)"

lemma ring_inj:
  assumes "(h + i) mod 256 = (h + j) mod 256" "i < 256" "j < (256 :: nat)"
  shows "i = j"
  using assms
proof (induction i j rule: linorder_wlog)
  case (le i j)
  then have "(256 :: nat) dvd (h + j) - (h + i)"
    using mod_eq_dvd_iff_nat [of "h + i" "h + j" 256] by simp
  then have "256 dvd j - i" by simp
  moreover have "j - i < 256" using le by simp
  ultimately have "\<not> 0 < j - i"
    using nat_dvd_not_less [of "j - i" 256] by blast
  then show ?case using le by simp
qed simp

lemma ucast_byte [simp]: "(ucast (ucast c :: u64) :: u8) = c"
  by (rule bit_word_eqI) (auto simp: bit_simps)

lemma ring_Suc: "((h + 1) mod 256 + i) mod 256 = (h + Suc i) mod (256 :: nat)"
  by (simp add: mod_add_left_eq)

lemma rx_contents_length [simp]: "length (rx_contents u) = rx_fifo_len u"
  by (simp add: rx_contents_def)

lemmas uart_flags = UART_FR_RXFE_def UART_FR_RXFF_def UART_RIS_RXRIS_def UART_IMSC_RXIM_def

lemma pl011_inv_new: "pl011_inv Pl011Mmio_new" "rx_contents Pl011Mmio_new = []"
  by (simp_all add: pl011_inv_def Pl011Mmio_new_def RX_FIFO_SIZE_def TX_BUFFER_SIZE_def
      rx_contents_def uart_flags bit_simps)

lemma rx_push_inv: "pl011_inv u \<Longrightarrow> pl011_inv (rx_push c u)"
  by (auto simp: pl011_inv_def rx_push_def Let_def uart_flags bit_simps RX_FIFO_SIZE_def)

lemma rx_pop_inv: "pl011_inv u \<Longrightarrow> pl011_inv (snd (rx_pop u))"
  by (auto simp: pl011_inv_def rx_pop_def Let_def uart_flags bit_simps RX_FIFO_SIZE_def)

lemma rx_push_contents:
  assumes "pl011_inv u" "rx_fifo_len u < 256"
  shows "rx_contents (rx_push c u) = rx_contents u @ [c]"
proof -
  let ?h = "rx_fifo_head u" and ?n = "rx_fifo_len u"
  have other: "(rx_fifo u)[(?h + ?n) mod 256 := c] ! ((?h + i) mod 256) = rx_fifo u ! ((?h + i) mod 256)"
    if "i < ?n" for i
    using ring_inj [of ?h i ?n] that assms(2) by (intro nth_list_update_neq) auto
  have last: "(rx_fifo u)[(?h + ?n) mod 256 := c] ! ((?h + ?n) mod 256) = c"
    using assms(1) by (intro nth_list_update_eq) (simp add: pl011_inv_def RX_FIFO_SIZE_def)
  have "rx_contents (rx_push c u) =
      map (\<lambda>i. (rx_fifo u)[(?h + ?n) mod 256 := c] ! ((?h + i) mod 256)) [0..<?n] @ [c]"
    using assms(2) last by (simp add: rx_contents_def rx_push_def Let_def RX_FIFO_SIZE_def)
  also have "\<dots> = rx_contents u @ [c]"
    using other unfolding rx_contents_def RX_FIFO_SIZE_def by (simp cong: map_cong)
  finally show ?thesis .
qed

lemma rx_pop_contents:
  assumes "pl011_inv u" "rx_contents u = c # cs"
  shows "fst (rx_pop u) = Some c \<and> rx_contents (snd (rx_pop u)) = cs"
proof -
  let ?h = "rx_fifo_head u"
  obtain m where n: "rx_fifo_len u = Suc m"
    using assms(2) rx_contents_length [of u] by (metis length_Cons)
  have h: "?h mod 256 = ?h" using assms(1) by (simp add: pl011_inv_def RX_FIFO_SIZE_def)
  have "rx_contents u = rx_fifo u ! ?h # map (\<lambda>i. rx_fifo u ! ((?h + Suc i) mod 256)) [0..<m]"
  proof -
    have "[0..<Suc m] = 0 # map Suc [0..<m]"
      by (metis map_Suc_upt upt_conv_Cons zero_less_Suc)
    then show ?thesis
      unfolding rx_contents_def n RX_FIFO_SIZE_def by (simp add: h o_def)
  qed
  with assms(2) have c: "c = rx_fifo u ! ?h"
    and cs: "cs = map (\<lambda>i. rx_fifo u ! ((?h + Suc i) mod 256)) [0..<m]"
    by simp_all
  have "rx_contents (snd (rx_pop u)) = map (\<lambda>i. rx_fifo u ! (((?h + 1) mod 256 + i) mod 256)) [0..<m]"
    by (simp add: rx_contents_def rx_pop_def Let_def RX_FIFO_SIZE_def n)
  then show ?thesis
    unfolding c cs ring_Suc by (simp add: rx_pop_def Let_def n)
qed

interpretation rx: bounded_fifo pl011_inv rx_contents 256 rx_push rx_pop
proof
  fix u c cs
  show "pl011_inv u \<Longrightarrow> pl011_inv (rx_push c u)" by (rule rx_push_inv)
  show "pl011_inv u \<Longrightarrow> pl011_inv (snd (rx_pop u))" by (rule rx_pop_inv)
  show "pl011_inv u \<Longrightarrow> length (rx_contents u) \<le> 256"
    by (simp add: pl011_inv_def RX_FIFO_SIZE_def)
  show "pl011_inv u \<Longrightarrow> length (rx_contents u) < 256 \<Longrightarrow> rx_contents (rx_push c u) = rx_contents u @ [c]"
    by (simp add: rx_push_contents)
  show "pl011_inv u \<Longrightarrow> length (rx_contents u) = 256 \<Longrightarrow> rx_contents (rx_push c u) = rx_contents u"
    by (simp add: rx_push_def RX_FIFO_SIZE_def)
  show "pl011_inv u \<Longrightarrow> rx_contents u = [] \<Longrightarrow> fst (rx_pop u) = None \<and> rx_contents (snd (rx_pop u)) = []"
    by (simp add: rx_pop_def rx_contents_def)
  show "pl011_inv u \<Longrightarrow> rx_contents u = c # cs \<Longrightarrow> fst (rx_pop u) = Some c \<and> rx_contents (snd (rx_pop u)) = cs"
    by (rule rx_pop_contents)
qed

section \<open>Transmit\<close>

lemma flush_tx_inv: "pl011_inv u \<Longrightarrow> pl011_inv (fst (flush_tx (u, out)))"
  by (auto simp: flush_tx_def Let_def pl011_inv_def TX_BUFFER_SIZE_def)

lemma flush_tx_rx [simp]: "rx_contents (fst (flush_tx (u, out))) = rx_contents u"
  by (simp add: flush_tx_def Let_def rx_contents_def)

lemma flush_tx_ascii:
  assumes "\<forall>b \<in> set (tx_pending u). b \<le> 0x7F"
  shows "snd (flush_tx (u, Some out)) = Some (out @ crlf (tx_pending u))"
    and "tx_pending (fst (flush_tx (u, Some out))) = []"
  using utf8_valid_ascii [OF assms] by (auto simp: flush_tx_def Let_def tx_pending_def)

text \<open>What the guest has sent: what is on the serial port followed by what is buffered.\<close>

definition tx_shown :: "pl011 \<times> serial \<Rightarrow> u8 list" where
  "tx_shown s = (case s of (u, out) \<Rightarrow> (case out of None \<Rightarrow> [] | Some o' \<Rightarrow> o') @ crlf (tx_pending u))"

definition pl011_putc :: "u8 \<Rightarrow> pl011 \<times> serial \<Rightarrow> pl011 \<times> serial" where
  "pl011_putc c s = snd (pl011_write UART_DR 8 (ucast c) s)"

definition tx_ascii :: "pl011 \<times> serial \<Rightarrow> bool" where
  "tx_ascii s \<longleftrightarrow> pl011_inv (fst s) \<and> snd s \<noteq> None \<and> (\<forall>b \<in> set (tx_pending (fst s)). b \<le> 0x7F)"

lemma tx_ascii_flush:
  assumes "pl011_inv u'" "\<forall>b \<in> set (tx_pending u'). b \<le> 0x7F"
  shows "tx_shown (flush_tx (u', Some out)) = out @ crlf (tx_pending u')"
    and "tx_ascii (flush_tx (u', Some out))"
  using flush_tx_ascii [OF assms(2), of out] flush_tx_inv [OF assms(1), of "Some out"]
  by (cases "flush_tx (u', Some out)"; simp add: tx_shown_def tx_ascii_def)+

lemma pl011_putc_ascii:
  assumes "tx_ascii s" "c \<le> 0x7F"
  shows "tx_ascii (pl011_putc c s)" "tx_shown (pl011_putc c s) = tx_shown s @ crlf [c]"
proof -
  obtain u out where s: "s = (u, Some out)" and inv: "pl011_inv u"
    and asc: "\<forall>b \<in> set (tx_pending u). b \<le> 0x7F"
    using assms(1) by (cases s) (auto simp: tx_ascii_def)
  define u' where "u' = u\<lparr>tx_buffer := (tx_buffer u)[tx_len u := c], tx_len := tx_len u + 1\<rparr>"
  have room: "tx_len u < 256" "tx_len u < length (tx_buffer u)"
    using inv by (simp_all add: pl011_inv_def TX_BUFFER_SIZE_def)
  have "take (Suc (tx_len u)) ((tx_buffer u)[tx_len u := c]) = take (tx_len u) (tx_buffer u) @ [c]"
    using room(2) by (simp add: take_Suc_conv_app_nth)
  then have pend: "tx_pending u' = tx_pending u @ [c]"
    by (simp add: tx_pending_def u'_def)
  then have asc': "\<forall>b \<in> set (tx_pending u'). b \<le> 0x7F"
    using asc assms(2) by auto
  have put: "pl011_putc c s =
      (if c = 10 \<or> tx_len u' = 256 then flush_tx (u', Some out) else (u', Some out))"
    using room(1) by (simp add: pl011_putc_def pl011_write_def s Let_def TX_BUFFER_SIZE_def u'_def)
  consider "c = 10 \<or> tx_len u' = 256" "tx_len u' \<noteq> 0" | "c \<noteq> 10" "tx_len u' < 256"
    using room(1) by (cases "c = 10 \<or> tx_len u = 255") (auto simp: u'_def)
  then have "tx_ascii (pl011_putc c s) \<and> tx_shown (pl011_putc c s) = tx_shown s @ crlf [c]"
  proof cases
    case 1
    have inv': "pl011_inv (u'\<lparr>tx_len := 0\<rparr>)"
      using inv by (simp add: pl011_inv_def u'_def TX_BUFFER_SIZE_def)
    have "flush_tx (u', Some out) = (u'\<lparr>tx_len := 0\<rparr>, Some (out @ crlf (tx_pending u')))"
      using 1 utf8_valid_ascii [OF asc'] by (simp add: flush_tx_def Let_def tx_pending_def)
    then show ?thesis
      using 1 put inv' pend by (simp add: tx_shown_def tx_ascii_def s) (simp add: tx_pending_def)
  next
    case 2
    have inv': "pl011_inv u'"
      using inv 2 by (simp add: pl011_inv_def u'_def TX_BUFFER_SIZE_def)
    then show ?thesis
      using 2 put asc' pend by (simp add: tx_shown_def tx_ascii_def s)
  qed
  then show "tx_ascii (pl011_putc c s)" "tx_shown (pl011_putc c s) = tx_shown s @ crlf [c]"
    by simp_all
qed

lemma pl011_putc_all:
  assumes "tx_ascii s" "\<forall>b \<in> set bs. b \<le> 0x7F"
  shows "tx_ascii (fold pl011_putc bs s) \<and> tx_shown (fold pl011_putc bs s) = tx_shown s @ crlf bs"
  using assms
proof (induction bs arbitrary: s)
  case (Cons b bs)
  with Cons.IH [of "pl011_putc b s"] pl011_putc_ascii [OF Cons.prems(1), of b] show ?case
    by simp
qed simp

section \<open>All operations\<close>

lemma pl011_push_spec:
  assumes "pl011_inv u" "gicd_wf d"
  shows "\<exists>u' d' p'. pl011_push c u (d, p) = Some (u', d', p') \<and> gicd_wf d' \<and> pl011_inv u' \<and>
    rx_contents u' = take 256 (rx_contents u @ [c])"
proof -
  obtain d' p' h where t: "trigger_interrupt PL011_INT_ID None (d, p) = Some (d', p', h)" "gicd_wf d'"
    using trigger_interrupt_total [OF assms(2), of PL011_INT_ID None p] by (auto simp: PL011_INT_ID_def)
  have full: "rx_push c u = u" if "rx_fifo_len u = RX_FIFO_SIZE"
    using that by (simp add: rx_push_def)
  have raw: "pl011_inv (v\<lparr>raw_interrupt_status := x\<rparr>) = pl011_inv v"
    "rx_contents (v\<lparr>raw_interrupt_status := x\<rparr>) = rx_contents v" for v x
    by (simp_all add: pl011_inv_def rx_contents_def)
  note facts = rx.inv_push [OF assms(1), of c] rx.push_contents [OF assms(1), of c]
  show ?thesis
    using t assms facts by (simp add: pl011_push_def Let_def raw) (metis full)
qed

lemma pl011_read_inv: "pl011_inv u \<Longrightarrow> pl011_inv (snd (pl011_read offset w u))"
  using rx.inv_pop [of u] by (cases "rx_pop u"; cases "fst (rx_pop u)") (auto simp: pl011_read_def)

lemma pl011_read_DR:
  assumes "pl011_inv u"
  shows "fst (pl011_read UART_DR w u) = Inr (case rx_contents u of [] \<Rightarrow> 0 | c # cs \<Rightarrow> ucast c) \<and>
    rx_contents (snd (pl011_read UART_DR w u)) = tl (rx_contents u)"
  using rx.pop_empty [OF assms] rx.pop_first [OF assms]
  by (cases "rx_pop u"; cases "rx_contents u") (auto simp: pl011_read_def)

lemma pl011_write_inv: "pl011_inv u \<Longrightarrow> pl011_inv (fst (snd (pl011_write offset w v (u, out))))"
proof -
  assume inv: "pl011_inv u"
  have "pl011_inv (fst (snd (pl011_write UART_DR w v (u, out))))"
  proof -
    let ?c = "ucast v :: u8"
    define u' where "u' = u\<lparr>tx_buffer := (tx_buffer u)[tx_len u := ?c], tx_len := tx_len u + 1\<rparr>"
    have put: "snd (pl011_write UART_DR w v (u, out)) =
        (if ?c = 10 \<or> tx_len u' = 256 then flush_tx (u', out) else (u', out))"
      using inv by (simp add: pl011_write_def Let_def TX_BUFFER_SIZE_def u'_def pl011_inv_def)
    show ?thesis
      unfolding put using inv
      by (auto simp: flush_tx_def Let_def pl011_inv_def u'_def TX_BUFFER_SIZE_def)
  qed
  with inv show ?thesis
    by (cases "offset = UART_DR") (simp_all add: pl011_write_def pl011_inv_def)
qed

fun pl011_reads :: "nat \<Rightarrow> pl011 \<Rightarrow> (unit + u64) list" where
  "pl011_reads 0 u = []"
| "pl011_reads (Suc n) u = (case pl011_read UART_DR 8 u of (r, u') \<Rightarrow> r # pl011_reads n u')"

lemma pl011_reads_contents:
  assumes "pl011_inv u" "n \<le> length (rx_contents u)"
  shows "pl011_reads n u = map (\<lambda>c. Inr (ucast c)) (take n (rx_contents u))"
  using assms
proof (induction n arbitrary: u)
  case (Suc n)
  then obtain c cs where c: "rx_contents u = c # cs"
    by (cases "rx_contents u") (auto simp del: rx_contents_length)
  obtain r u' where r: "pl011_read UART_DR 8 u = (r, u')" by fastforce
  with pl011_read_DR [OF Suc.prems(1), of 8] pl011_read_inv [OF Suc.prems(1), of UART_DR 8] c
    Suc.IH [of u'] Suc.prems(2) show ?case
    by (simp del: rx_contents_length)
qed simp

section \<open>Properties\<close>

text \<open>
  C11 (\<open>Pl011Mmio\<close>).  Every operation keeps the ring in range and the flag register honest
  (\<open>RXFE\<close> set exactly when no byte is waiting, \<open>RXFF\<close> exactly when 256 are).  Receiving a
  byte never panics and appends it unless 256 bytes are already waiting.
\<close>

theorem pl011_operations_keep_inv:
  assumes "pl011_inv u" "gicd_wf d"
  shows "(\<exists>u' d' p'. pl011_push c u (d, p) = Some (u', d', p') \<and> gicd_wf d' \<and> pl011_inv u' \<and>
      rx_contents u' = take 256 (rx_contents u @ [c])) \<and>
    pl011_inv (snd (pl011_read offset w u)) \<and>
    pl011_inv (fst (snd (pl011_write offset w v (u, out)))) \<and>
    pl011_inv (fst (flush_tx (u, out)))"
  using pl011_push_spec [OF assms] pl011_read_inv [OF assms(1)] pl011_write_inv [OF assms(1)]
    flush_tx_inv [OF assms(1)] by blast

theorem pl011_operations_keep_inv_witness:
  "\<exists>u' d' p'. pl011_push 65 Pl011Mmio_new (GicDistributorMmio_new 1, pcpu_reset 1) = Some (u', d', p') \<and>
     pl011_inv u' \<and> rx_contents u' = [65]"
  using pl011_operations_keep_inv [OF pl011_inv_new(1) gicd_wf_new, of 65 1 "pcpu_reset 1" 0 8 0 None]
  by (auto simp: pl011_inv_new)

text \<open>
  C12 (receive path).  A burst of up to 256 bytes arriving at an empty UART is read back by the guest
  through the data register, byte for byte and in order, wherever the ring starts.
\<close>

theorem pl011_input_roundtrip:
  assumes "pl011_inv u" "rx_contents u = []" "length bs \<le> 256"
  shows "pl011_reads (length bs) (fold rx_push bs u) = map (\<lambda>c. Inr (ucast c)) bs"
proof -
  have "pl011_inv (fold rx_push bs u)" "rx_contents (fold rx_push bs u) = bs"
    using rx.push_all [OF assms(1), of bs] assms(2,3) by simp_all
  then show ?thesis
    using pl011_reads_contents [of "fold rx_push bs u" "length bs"] by simp
qed

theorem pl011_input_roundtrip_witness:
  "pl011_reads 3 (fold rx_push [104, 0, 105] Pl011Mmio_new) = [Inr 104, Inr 0, Inr 105]"
  using pl011_input_roundtrip [OF pl011_inv_new, of "[104, 0, 105]"] by (simp add: numeral_3_eq_3)

text \<open>
  C13 (transmit path).  Buffering and flushing change nothing of what appears on the console: after any
  sequence of ASCII bytes written to the data register, and a final flush, the serial port
  has received exactly these bytes, with a carriage return before each newline.
\<close>

theorem pl011_output_complete:
  assumes "pl011_inv u" "tx_pending u = []" "\<forall>b \<in> set bs. b \<le> 0x7F"
  shows "snd (flush_tx (fold pl011_putc bs (u, Some out))) = Some (out @ crlf bs)"
proof -
  have "tx_ascii (u, Some out)" using assms(1,2) by (simp add: tx_ascii_def)
  from pl011_putc_all [OF this assms(3)] obtain u' o' where
    f: "fold pl011_putc bs (u, Some out) = (u', Some o')" "\<forall>b \<in> set (tx_pending u'). b \<le> 0x7F"
      "o' @ crlf (tx_pending u') = out @ crlf bs"
    using assms(2) by (cases "fold pl011_putc bs (u, Some out)") (auto simp: tx_ascii_def tx_shown_def)
  then show ?thesis
    by (simp add: flush_tx_ascii)
qed

theorem pl011_output_complete_witness:
  "snd (flush_tx (fold pl011_putc [79, 75, 10, 36] (Pl011Mmio_new, Some []))) = Some [79, 75, 13, 10, 36]"
  using pl011_output_complete [OF pl011_inv_new(1), of "[79, 75, 10, 36]" "[]"]
  by (simp add: tx_pending_def Pl011Mmio_new_def)

end
