(* ===== verification/Memory_Allocator.thy ===== *)
theory Memory_Allocator
  imports Prelude
begin

text \<open>
  The physical memory allocator: \<^verbatim>\<open>memory_allocator.rs\<close>.

  Free memory is a set of disjoint, non-adjacent blocks, each described by an entry of a pool of
  64.  The entries in use are chained twice: in address order (\<open>previous\<close>, \<open>next\<close>, from
  \<open>first_entry\<close>), and in one of twelve lists by the order of their size (\<open>list_prev\<close>,
  \<open>list_next\<close>, from \<open>free_list\<close>).

  A reference to an entry is its index in the pool, which is what \<open>MemoryEntry::id\<close> holds for
  every entry in use.  The pool is a function from indices; an index is looked up only
  after \<open>get_memory_entry\<close> has checked it against the pool size.  A walk along a
  chain that is not well formed might never end; such functions are partial functions
  to \<open>option\<close>, so that \<open>None\<close> means that the call does not return: it panics or it loops.
\<close>

section \<open>State\<close>

datatype merror = NoEntry | InvalidEntry | NoMemory | InvalidRequest

record mentry =
  me_previous :: "nat option"
  me_next :: "nat option"
  me_list_prev :: "nat option"
  me_list_next :: "nat option"
  me_start :: nat
  me_end :: nat
  me_enabled :: bool

record alloc =
  free_size :: nat
  first_entry :: "nat option"
  free_list :: "nat option list"
  pool :: "nat \<Rightarrow> mentry"

definition POOL_SIZE :: nat where "POOL_SIZE = 64"
definition NUM_OF_FREE_LIST :: nat where "NUM_OF_FREE_LIST = 12"
definition PAGE_SHIFT :: nat where "PAGE_SHIFT = 12"

definition MemoryEntry_new :: mentry where
  "MemoryEntry_new = \<lparr>me_previous = None, me_next = None, me_list_prev = None, me_list_next = None,
     me_start = 0, me_end = 0, me_enabled = False\<rparr>"

definition MemoryAllocator_new :: alloc where
  "MemoryAllocator_new = \<lparr>free_size = 0, first_entry = None,
     free_list = replicate NUM_OF_FREE_LIST None, pool = (\<lambda>_. MemoryEntry_new)\<rparr>"

definition upd_entry :: "nat \<Rightarrow> (mentry \<Rightarrow> mentry) \<Rightarrow> alloc \<Rightarrow> alloc" where
  "upd_entry i f a = a\<lparr>pool := (pool a)(i := f (pool a i))\<rparr>"

section \<open>Entries\<close>

definition create_memory_entry :: "alloc \<Rightarrow> (merror + nat) \<times> alloc" where
  "create_memory_entry a =
     (case find (\<lambda>i. \<not> me_enabled (pool a i)) [0..<POOL_SIZE] of
        Some i \<Rightarrow> (Inr i, upd_entry i (\<lambda>_. MemoryEntry_new\<lparr>me_enabled := True\<rparr>) a)
      | None \<Rightarrow> (Inl NoEntry, a))"

definition get_memory_entry :: "nat \<Rightarrow> merror + nat" where
  "get_memory_entry index = (if POOL_SIZE \<le> index then Inl InvalidEntry else Inr index)"

text \<open>\<open>link.and_then(|n| get_memory_entry(pool, n).ok())\<close>\<close>

definition follow :: "nat option \<Rightarrow> nat option" where
  "follow link = (case link of None \<Rightarrow> None
     | Some n \<Rightarrow> (case get_memory_entry n of Inl _ \<Rightarrow> None | Inr i \<Rightarrow> Some i))"

definition get_next_entry :: "alloc \<Rightarrow> nat \<Rightarrow> nat option" where
  "get_next_entry a e = follow (me_next (pool a e))"

definition get_prev_entry :: "alloc \<Rightarrow> nat \<Rightarrow> nat option" where
  "get_prev_entry a e = follow (me_previous (pool a e))"

definition is_first_entry :: "alloc \<Rightarrow> nat \<Rightarrow> bool" where
  "is_first_entry a e = (me_previous (pool a e) = None)"

definition set_range :: "nat \<Rightarrow> usize \<Rightarrow> usize \<Rightarrow> alloc \<Rightarrow> alloc option" where
  "set_range e s t a = do {
     assert_that (s \<le> t);
     Some (upd_entry e (\<lambda>m. m\<lparr>me_start := s, me_end := t\<rparr>) a) }"

definition get_size :: "alloc \<Rightarrow> nat \<Rightarrow> usize option" where
  "get_size a e = do { d \<leftarrow> usub (me_end (pool a e)) (me_start (pool a e)); uadd d 1 }"

definition set_prev_entry :: "nat \<Rightarrow> nat \<Rightarrow> alloc \<Rightarrow> alloc" where
  "set_prev_entry e prv a = upd_entry e (\<lambda>m. m\<lparr>me_previous := Some prv\<rparr>) a"

definition unset_prev_entry :: "nat \<Rightarrow> alloc \<Rightarrow> alloc" where
  "unset_prev_entry e a = upd_entry e (\<lambda>m. m\<lparr>me_previous := None\<rparr>) a"

definition set_next_entry :: "nat \<Rightarrow> nat \<Rightarrow> alloc \<Rightarrow> alloc" where
  "set_next_entry e nxt a = upd_entry e (\<lambda>m. m\<lparr>me_next := Some nxt\<rparr>) a"

definition unset_next_entry :: "nat \<Rightarrow> alloc \<Rightarrow> alloc" where
  "unset_next_entry e a = upd_entry e (\<lambda>m. m\<lparr>me_next := None\<rparr>) a"

definition chain_after_me :: "nat \<Rightarrow> nat \<Rightarrow> alloc \<Rightarrow> alloc" where
  "chain_after_me e entry a =
     upd_entry entry (\<lambda>m. m\<lparr>me_previous := Some e\<rparr>) (upd_entry e (\<lambda>m. m\<lparr>me_next := Some entry\<rparr>) a)"

definition entry_delete :: "nat \<Rightarrow> alloc \<Rightarrow> alloc" where
  "entry_delete e a =
     (let a = (case get_prev_entry a e of
          Some previous \<Rightarrow> (case get_next_entry a e of
              Some nxt \<Rightarrow> chain_after_me previous nxt a
            | None \<Rightarrow> unset_next_entry previous a)
        | None \<Rightarrow> (case get_next_entry a e of
              Some nxt \<Rightarrow> unset_prev_entry nxt a
            | None \<Rightarrow> a))
      in upd_entry e (\<lambda>m. m\<lparr>me_previous := None, me_next := None, me_enabled := False\<rparr>) a)"

definition unchain_from_freelist :: "nat \<Rightarrow> alloc \<Rightarrow> alloc" where
  "unchain_from_freelist e a =
     (let lp = me_list_prev (pool a e);
          ln = me_list_next (pool a e);
          a = (case follow lp of Some p \<Rightarrow> upd_entry p (\<lambda>m. m\<lparr>me_list_next := ln\<rparr>) a | None \<Rightarrow> a);
          a = (case follow ln of Some n \<Rightarrow> upd_entry n (\<lambda>m. m\<lparr>me_list_prev := lp\<rparr>) a | None \<Rightarrow> a)
      in upd_entry e (\<lambda>m. m\<lparr>me_list_next := None, me_list_prev := None\<rparr>) a)"

section \<open>Arithmetic\<close>

definition get_end_address :: "usize \<Rightarrow> usize \<Rightarrow> usize option" where
  "get_end_address address sz = do { x \<leftarrow> uadd address sz; usub x 1 }"

function page_order_loop :: "usize \<Rightarrow> nat \<Rightarrow> nat" where
  "page_order_loop sz order =
     (if sz > 2 ^ (order + PAGE_SHIFT) then
        (if order + 1 = NUM_OF_FREE_LIST - 1 then order + 1 else page_order_loop sz (order + 1))
      else order)"
  by pat_completeness auto

lemma page_order_less: "(2 :: nat) ^ (order + PAGE_SHIFT) < sz \<Longrightarrow> order < sz"
  using less_exp [of "order + PAGE_SHIFT"] by linarith

termination page_order_loop
  by (relation "measure (\<lambda>(sz, order). sz - order)") (auto dest: page_order_less)

declare page_order_loop.simps [simp del]

definition size_to_page_order :: "usize \<Rightarrow> nat" where
  "size_to_page_order sz = page_order_loop sz 0"

definition align_address_and_size :: "usize \<Rightarrow> usize \<Rightarrow> nat \<Rightarrow> (usize \<times> usize) option" where
  "align_address_and_size address sz align_order = do {
     align_size \<leftarrow> ushl1 align_order;
     let aligned_address = clear_low address align_size;
     d \<leftarrow> usub address aligned_address;
     x \<leftarrow> uadd sz d;
     x \<leftarrow> usub x 1;
     aligned_size \<leftarrow> uadd (clear_low x align_size) align_size;
     Some (aligned_address, aligned_size) }"

definition align_address_and_available_size :: "usize \<Rightarrow> usize \<Rightarrow> nat \<Rightarrow> (usize \<times> usize) option" where
  "align_address_and_available_size start sz align_order =
     (if start = 0 then Some (0, sz)
      else do {
        align_size \<leftarrow> ushl1 align_order;
        aligned_address \<leftarrow> uadd (clear_low (start - 1) align_size) align_size;
        d \<leftarrow> usub aligned_address start;
        Some (if sz > d then (aligned_address, sz - d) else (aligned_address, 0)) })"

section \<open>Searching\<close>

partial_function (option) containing_loop :: "alloc \<Rightarrow> usize \<Rightarrow> nat \<Rightarrow> nat option option" where
  "containing_loop a address entry =
     (if me_start (pool a entry) < address \<and> me_end (pool a entry) < address then
        (case get_next_entry a entry of
           Some t \<Rightarrow> containing_loop a address t
         | None \<Rightarrow> Some None)
      else Some (if me_start (pool a entry) \<le> address \<and> address \<le> me_end (pool a entry)
                 then Some entry else None))"

definition search_entry_containing_address_mut :: "alloc \<Rightarrow> usize \<Rightarrow> nat option option" where
  "search_entry_containing_address_mut a address =
     (case follow (first_entry a) of
        None \<Rightarrow> Some None
      | Some entry \<Rightarrow> containing_loop a address entry)"

partial_function (option) previous_loop :: "alloc \<Rightarrow> usize \<Rightarrow> nat \<Rightarrow> nat option option" where
  "previous_loop a address entry =
     (if me_start (pool a entry) < address then
        (case get_next_entry a entry of
           Some t \<Rightarrow> previous_loop a address t
         | None \<Rightarrow> Some (if me_end (pool a entry) \<le> address then Some entry
                        else get_prev_entry a entry))
      else Some (get_prev_entry a entry))"

definition search_entry_previous_address_mut :: "alloc \<Rightarrow> usize \<Rightarrow> nat option option" where
  "search_entry_previous_address_mut a address =
     (case follow (first_entry a) of
        None \<Rightarrow> Some None
      | Some entry \<Rightarrow> previous_loop a address entry)"

section \<open>The lists by size\<close>

definition set_free_list :: "nat \<Rightarrow> nat option \<Rightarrow> alloc \<Rightarrow> alloc option" where
  "set_free_list order v a = do { fl \<leftarrow> set_at (free_list a) order v; Some (a\<lparr>free_list := fl\<rparr>) }"

text \<open>Leaving the list of a given order: the head is replaced when it is the entry itself.\<close>

definition leave_free_list :: "nat \<Rightarrow> nat \<Rightarrow> alloc \<Rightarrow> alloc option" where
  "leave_free_list order e a = do {
     h \<leftarrow> get_at (free_list a) order;
     a \<leftarrow> (if h = Some e then set_free_list order (me_list_next (pool a e)) a else Some a);
     Some (unchain_from_freelist e a) }"

definition unchain_entry_from_free_list :: "nat \<Rightarrow> alloc \<Rightarrow> alloc option" where
  "unchain_entry_from_free_list e a = do {
     sz \<leftarrow> get_size a e;
     leave_free_list (size_to_page_order sz) e a }"

partial_function (option) insert_sorted_loop :: "usize \<Rightarrow> nat \<Rightarrow> nat \<Rightarrow> alloc \<Rightarrow> alloc option" where
  "insert_sorted_loop sz e list_entry a =
     (case follow (me_list_next (pool a list_entry)) of
        Some next_entry \<Rightarrow> do {
          next_size \<leftarrow> get_size a next_entry;
          if sz \<le> next_size then
            Some (upd_entry next_entry (\<lambda>m. m\<lparr>me_list_prev := Some e\<rparr>)
                   (upd_entry e (\<lambda>m. m\<lparr>me_list_prev := Some list_entry, me_list_next := Some next_entry\<rparr>)
                     (upd_entry list_entry (\<lambda>m. m\<lparr>me_list_next := Some e\<rparr>) a)))
          else insert_sorted_loop sz e next_entry a }
      | None \<Rightarrow>
          Some (upd_entry e (\<lambda>m. m\<lparr>me_list_prev := Some list_entry\<rparr>)
                 (upd_entry list_entry (\<lambda>m. m\<lparr>me_list_next := Some e\<rparr>) a)))"

definition chain_entry_to_free_list :: "nat \<Rightarrow> usize option \<Rightarrow> alloc \<Rightarrow> alloc option" where
  "chain_entry_to_free_list e old_size a = do {
     sz \<leftarrow> get_size a e;
     let new_order = size_to_page_order sz;
     if old_size = Some sz then Some a
     else do {
       a \<leftarrow> (case old_size of
              Some old_size \<Rightarrow> leave_free_list (size_to_page_order old_size) e a
            | None \<Rightarrow> Some a);
       assert_that (me_list_next (pool a e) = None);
       assert_that (me_list_prev (pool a e) = None);
       h \<leftarrow> get_at (free_list a) new_order;
       (case follow h of
          Some list_entry \<Rightarrow> do {
            list_size \<leftarrow> get_size a list_entry;
            if sz \<le> list_size then
              set_free_list new_order (Some e)
                (upd_entry e (\<lambda>m. m\<lparr>me_list_next := Some list_entry\<rparr>)
                  (upd_entry list_entry (\<lambda>m. m\<lparr>me_list_prev := Some e\<rparr>) a))
            else insert_sorted_loop sz e list_entry a }
        | None \<Rightarrow> set_free_list new_order (Some e) a) } }"

section \<open>Taking memory\<close>

definition define_used_entry :: "usize \<Rightarrow> usize \<Rightarrow> nat \<Rightarrow> alloc \<Rightarrow> ((merror + unit) \<times> alloc) option" where
  "define_used_entry start sz entry a = do {
     let e_start = me_start (pool a entry);
     let e_end = me_end (pool a entry);
     req_end \<leftarrow> get_end_address start sz;
     sz \<leftarrow> (if e_end < req_end then do { x \<leftarrow> usub e_end start; uadd x 1 } else Some sz);
     used_end \<leftarrow> get_end_address start sz;
     (r, a) \<leftarrow>
       (if e_start = start then
          (if e_end = used_end then do {
             let a = (if is_first_entry a entry
                      then a\<lparr>first_entry := get_next_entry a entry\<rparr> else a);
             a \<leftarrow> unchain_entry_from_free_list entry a;
             Some (Inr (), entry_delete entry a) }
           else do {
             old_size \<leftarrow> get_size a entry;
             s \<leftarrow> uadd start sz;
             a \<leftarrow> set_range entry s e_end a;
             a \<leftarrow> chain_entry_to_free_list entry (Some old_size) a;
             Some (Inr (), a) })
        else if e_end = start then
          (if sz \<noteq> 1 then Some (Inl InvalidRequest, a)
           else do {
             t \<leftarrow> usub start 1;
             a \<leftarrow> set_range entry e_start t a;
             n \<leftarrow> get_size a entry;
             old_size \<leftarrow> uadd n 1;
             a \<leftarrow> chain_entry_to_free_list entry (Some old_size) a;
             Some (Inr (), a) })
        else if e_end = used_end then do {
          old_size \<leftarrow> get_size a entry;
          t \<leftarrow> usub start 1;
          a \<leftarrow> set_range entry e_start t a;
          a \<leftarrow> chain_entry_to_free_list entry (Some old_size) a;
          Some (Inr (), a) }
        else
          (case create_memory_entry a of
             (Inl err, a) \<Rightarrow> Some (Inl err, a)
           | (Inr new_entry, a) \<Rightarrow> do {
               old_size \<leftarrow> get_size a entry;
               s \<leftarrow> uadd start sz;
               a \<leftarrow> set_range new_entry s e_end a;
               t \<leftarrow> usub start 1;
               a \<leftarrow> set_range entry e_start t a;
               let a = (case get_next_entry a entry of
                   Some nxt \<Rightarrow> chain_after_me new_entry nxt a
                 | None \<Rightarrow> a);
               let a = chain_after_me entry new_entry a;
               a \<leftarrow> chain_entry_to_free_list entry (Some old_size) a;
               a \<leftarrow> chain_entry_to_free_list new_entry None a;
               Some (Inr (), a) }));
     (case r of
        Inl err \<Rightarrow> Some (Inl err, a)
      | Inr _ \<Rightarrow> do {
          fs \<leftarrow> usub (free_size a) sz;
          Some (Inr (), a\<lparr>free_size := fs\<rparr>) }) }"

definition define_used_memory_unaligned ::
  "usize \<Rightarrow> usize \<Rightarrow> nat option \<Rightarrow> alloc \<Rightarrow> ((merror + unit) \<times> alloc) option" where
  "define_used_memory_unaligned start sz target_entry a =
     (if sz = 0 then Some (Inl InvalidRequest, a)
      else if free_size a < sz then Some (Inl NoMemory, a)
      else do {
        entry \<leftarrow> (case target_entry of
            Some t \<Rightarrow> Some (Some t)
          | None \<Rightarrow> search_entry_containing_address_mut a start);
        (case entry of
           None \<Rightarrow> Some (Inl InvalidRequest, a)
         | Some e \<Rightarrow> define_used_entry start sz e a) })"

definition define_used_memory ::
  "usize \<Rightarrow> usize \<Rightarrow> nat \<Rightarrow> nat option \<Rightarrow> alloc \<Rightarrow> ((merror + unit) \<times> alloc) option" where
  "define_used_memory start sz align_order target_entry a =
     (if sz = 0 then Some (Inl InvalidRequest, a)
      else if free_size a < sz then Some (Inl NoMemory, a)
      else if align_order \<noteq> 0 then do {
        (aligned_start, aligned_size) \<leftarrow> align_address_and_size start sz align_order;
        define_used_memory_unaligned aligned_start aligned_size target_entry a }
      else define_used_memory_unaligned start sz target_entry a)"

section \<open>Giving memory back\<close>

text \<open>The end of \<open>define_free_memory\<close> when the entry found has a successor.\<close>

definition free_before_next ::
  "usize \<Rightarrow> usize \<Rightarrow> usize \<Rightarrow> usize \<Rightarrow> usize \<Rightarrow> bool \<Rightarrow> nat \<Rightarrow> nat \<Rightarrow> alloc \<Rightarrow> ((merror + unit) \<times> alloc) option" where
  "free_before_next start sz lst old_size address_after_entry processed entry nxt a = do {
     last1 \<leftarrow> uadd lst 1;
     (processed, a) \<leftarrow>
       (if me_start (pool a nxt) = last1 then do {
          next_old_size \<leftarrow> get_size a nxt;
          a \<leftarrow> set_range nxt start (me_end (pool a nxt)) a;
          a \<leftarrow> chain_entry_to_free_list nxt (Some next_old_size) a;
          Some (True, a) }
        else Some (processed, a));
     entry_end1 \<leftarrow> uadd (me_end (pool a entry)) 1;
     a \<leftarrow> (if me_start (pool a nxt) = entry_end1 \<or>
               processed \<and> me_start (pool a nxt) \<le> address_after_entry then do {
            a \<leftarrow> set_range entry (me_start (pool a entry))
                   (max (me_end (pool a entry)) (me_end (pool a nxt))) a;
            a \<leftarrow> unchain_entry_from_free_list nxt a;
            Some (entry_delete nxt a) }
          else Some a);
     if processed then do {
       fs \<leftarrow> uadd (free_size a) sz;
       a \<leftarrow> chain_entry_to_free_list entry (Some old_size) (a\<lparr>free_size := fs\<rparr>);
       Some (Inr (), a) }
     else
       (case create_memory_entry a of
          (Inl err, a) \<Rightarrow> Some (Inl err, a)
        | (Inr new_entry, a) \<Rightarrow> do {
            a \<leftarrow> set_range new_entry start lst a;
            a \<leftarrow> (if me_end (pool a new_entry) < me_start (pool a entry) then
                   (case get_prev_entry a entry of
                      Some prev_entry \<Rightarrow> do {
                        assert_that (me_end (pool a prev_entry) < me_start (pool a new_entry));
                        Some (chain_after_me new_entry entry (chain_after_me prev_entry new_entry a)) }
                    | None \<Rightarrow> Some (chain_after_me new_entry entry (a\<lparr>first_entry := Some new_entry\<rparr>)))
                 else Some (chain_after_me entry new_entry
                        (set_next_entry new_entry nxt (set_prev_entry nxt new_entry a))));
            fs \<leftarrow> uadd (free_size a) sz;
            a \<leftarrow> chain_entry_to_free_list entry (Some old_size) (a\<lparr>free_size := fs\<rparr>);
            a \<leftarrow> chain_entry_to_free_list new_entry None a;
            Some (Inr (), a) }) }"

text \<open>The same when the entry found is the last one.\<close>

definition free_at_last ::
  "usize \<Rightarrow> usize \<Rightarrow> usize \<Rightarrow> usize \<Rightarrow> bool \<Rightarrow> nat \<Rightarrow> alloc \<Rightarrow> ((merror + unit) \<times> alloc) option" where
  "free_at_last start sz lst old_size processed entry a =
     (if processed then do {
        fs \<leftarrow> uadd (free_size a) sz;
        a \<leftarrow> chain_entry_to_free_list entry (Some old_size) (a\<lparr>free_size := fs\<rparr>);
        Some (Inr (), a) }
      else
        (case create_memory_entry a of
           (Inl err, a) \<Rightarrow> Some (Inl err, a)
         | (Inr new_entry, a) \<Rightarrow> do {
             a \<leftarrow> set_range new_entry start lst a;
             a \<leftarrow> (if me_end (pool a entry) < me_start (pool a new_entry) then
                    Some (chain_after_me entry new_entry a)
                  else do {
                    a \<leftarrow> (case get_prev_entry a entry of
                           Some prev_entry \<Rightarrow> do {
                             assert_that (me_end (pool a prev_entry) < me_start (pool a entry));
                             Some (chain_after_me prev_entry new_entry a) }
                         | None \<Rightarrow> Some (a\<lparr>first_entry := Some new_entry\<rparr>));
                    Some (chain_after_me new_entry entry a) });
             fs \<leftarrow> uadd (free_size a) sz;
             a \<leftarrow> chain_entry_to_free_list entry (Some old_size) (a\<lparr>free_size := fs\<rparr>);
             a \<leftarrow> chain_entry_to_free_list new_entry None a;
             Some (Inr (), a) }))"

text \<open>Growing the entry found, when it touches the region.\<close>

definition grow_entry :: "usize \<Rightarrow> usize \<Rightarrow> nat \<Rightarrow> alloc \<Rightarrow> (bool \<times> alloc) option" where
  "grow_entry start lst entry a = do {
     address_after_entry \<leftarrow> uadd (me_end (pool a entry)) 1;
     (processed, a) \<leftarrow>
       (if address_after_entry = start then do {
          a \<leftarrow> set_range entry (me_start (pool a entry)) lst a;
          Some (True, a) }
        else Some (False, a));
     below \<leftarrow> (if is_first_entry a entry then do {
                 last1 \<leftarrow> uadd lst 1;
                 Some (me_start (pool a entry) = last1) }
               else Some False);
     if below then do {
       a \<leftarrow> set_range entry start (me_end (pool a entry)) a;
       Some (True, a) }
     else Some (processed, a) }"

definition free_anchor :: "usize \<Rightarrow> alloc \<Rightarrow> (merror + nat) option" where
  "free_anchor start a = do {
     found \<leftarrow> search_entry_previous_address_mut a start;
     (case found of
        Some e \<Rightarrow> Some (Inr e)
      | None \<Rightarrow> do {
          first \<leftarrow> first_entry a;
          Some (get_memory_entry first) }) }"

partial_function (option) define_free_memory ::
  "usize \<Rightarrow> usize \<Rightarrow> alloc \<Rightarrow> ((merror + unit) \<times> alloc) option" where
  "define_free_memory start sz a =
     (if sz = 0 then Some (Inl InvalidRequest, a)
      else do {
        anchor \<leftarrow> free_anchor start a;
        (case anchor of
           Inl err \<Rightarrow> Some (Inl InvalidEntry, a)
         | Inr entry \<Rightarrow> do {
             lst \<leftarrow> get_end_address start sz;
             if me_start (pool a entry) \<le> start \<and> lst \<le> me_end (pool a entry) then
               Some (Inl InvalidRequest, a)
             else if start \<le> me_end (pool a entry) \<and> \<not> is_first_entry a entry then do {
               s \<leftarrow> uadd (me_end (pool a entry)) 1;
               d \<leftarrow> usub lst (me_end (pool a entry));
               d2 \<leftarrow> uadd d 2;
               define_free_memory s d2 a }
             else if me_end (pool a entry) = lst then do {
               n \<leftarrow> get_size a entry;
               d \<leftarrow> usub sz n;
               define_free_memory start d a }
             else do {
               old_size \<leftarrow> get_size a entry;
               address_after_entry \<leftarrow> uadd (me_end (pool a entry)) 1;
               grown \<leftarrow> grow_entry start lst entry a;
               (case get_next_entry (snd grown) entry of
                  Some nxt \<Rightarrow>
                    if me_start (pool (snd grown) nxt) \<le> start then do {
                      assert_that (\<not> fst grown);
                      if lst \<le> me_end (pool (snd grown) nxt) then
                        Some (Inl InvalidRequest, snd grown)
                      else do {
                        s \<leftarrow> uadd (me_end (pool (snd grown) nxt)) 1;
                        d \<leftarrow> usub lst (me_end (pool (snd grown) nxt));
                        define_free_memory s d (snd grown) } }
                    else free_before_next start sz lst old_size address_after_entry (fst grown)
                           entry nxt (snd grown)
                | None \<Rightarrow> free_at_last start sz lst old_size (fst grown) entry (snd grown)) } }) })"

definition free :: "usize \<Rightarrow> usize \<Rightarrow> alloc \<Rightarrow> ((merror + unit) \<times> alloc) option" where
  "free start sz a =
     (if free_size a = 0 then
        (case create_memory_entry a of
           (Inl err, a) \<Rightarrow> Some (Inl err, a)
         | (Inr e, a) \<Rightarrow> do {
             lst \<leftarrow> get_end_address start sz;
             a \<leftarrow> set_range e start lst a;
             a \<leftarrow> chain_entry_to_free_list e None a;
             Some (Inr (), a\<lparr>first_entry := Some e, free_size := sz\<rparr>) })
      else define_free_memory start sz a)"

section \<open>Allocating\<close>

text \<open>The entry and the address chosen in one list of entries by size.\<close>

partial_function (option) allocate_scan ::
  "usize \<Rightarrow> nat \<Rightarrow> usize \<Rightarrow> alloc \<Rightarrow> nat option \<Rightarrow> (nat \<times> usize) option option" where
  "allocate_scan sz align_order address_limit a entry =
     (case entry of
        None \<Rightarrow> Some None
      | Some e \<Rightarrow> do {
          let start = me_start (pool a e);
          let lst = min (me_end (pool a e)) (address_limit - 1);
          available_size \<leftarrow> (if start \<le> lst then uadd (lst - start) 1 else Some 0);
          if sz \<le> available_size then
            (if align_order \<noteq> 0 then do {
               aligned \<leftarrow> align_address_and_available_size start available_size align_order;
               if snd aligned < sz
               then allocate_scan sz align_order address_limit a (follow (me_list_next (pool a e)))
               else Some (Some (e, fst aligned)) }
             else Some (Some (e, start)))
          else allocate_scan sz align_order address_limit a (follow (me_list_next (pool a e))) })"

fun allocate_orders ::
  "usize \<Rightarrow> nat \<Rightarrow> usize \<Rightarrow> alloc \<Rightarrow> nat list \<Rightarrow> (merror + (nat \<times> usize) option) option" where
  "allocate_orders sz align_order address_limit a [] = Some (Inr None)"
| "allocate_orders sz align_order address_limit a (i # is) = do {
     h \<leftarrow> get_at (free_list a) i;
     (case h of
        None \<Rightarrow> allocate_orders sz align_order address_limit a is
      | Some t \<Rightarrow>
          (case get_memory_entry t of
             Inl err \<Rightarrow> Some (Inl err)
           | Inr first \<Rightarrow> do {
               choice \<leftarrow> allocate_scan sz align_order address_limit a (Some first);
               (case choice of
                  Some c \<Rightarrow> Some (Inr (Some c))
                | None \<Rightarrow> allocate_orders sz align_order address_limit a is) })) }"

definition allocate_with_address_limit ::
  "usize \<Rightarrow> nat \<Rightarrow> usize \<Rightarrow> alloc \<Rightarrow> ((merror + usize) \<times> alloc) option" where
  "allocate_with_address_limit sz align_order address_limit a =
     (if sz = 0 then Some (Inl InvalidRequest, a)
      else if free_size a < sz then Some (Inl NoMemory, a)
      else do {
        choice \<leftarrow> allocate_orders sz align_order address_limit a
                   [size_to_page_order sz..<NUM_OF_FREE_LIST];
        (case choice of
           Inl err \<Rightarrow> Some (Inl err, a)
         | Inr None \<Rightarrow> Some (Inl NoMemory, a)
         | Inr (Some (e, address_to_allocate)) \<Rightarrow> do {
             (r, a) \<leftarrow> define_used_memory address_to_allocate sz 0 (Some e) a;
             (case r of
                Inl err \<Rightarrow> Some (Inl err, a)
              | Inr _ \<Rightarrow> Some (Inr address_to_allocate, a)) }) })"

definition allocate :: "usize \<Rightarrow> nat \<Rightarrow> alloc \<Rightarrow> ((merror + usize) \<times> alloc) option" where
  "allocate sz align_order a = allocate_with_address_limit sz align_order (usize_limit - 1) a"

definition allocate_below :: "usize \<Rightarrow> nat \<Rightarrow> usize \<Rightarrow> alloc \<Rightarrow> ((merror + usize) \<times> alloc) option" where
  "allocate_below sz align_order address_limit a =
     allocate_with_address_limit sz align_order address_limit a"

definition reserve_memory :: "usize \<Rightarrow> usize \<Rightarrow> nat \<Rightarrow> alloc \<Rightarrow> ((merror + unit) \<times> alloc) option" where
  "reserve_memory start_address sz align_order a =
     define_used_memory start_address sz align_order None a"

end
