(* ===== verification/Dll.thy ===== *)
theory Dll
  imports Prelude
begin

text \<open>
  Doubly linked lists in a store of numbered nodes: what two link functions have to satisfy for
  a list of nodes to be chained, and how insertion and removal of a node act on it.  The
  allocator has two such structures over the same nodes.
\<close>

fun first_of :: "'a list \<Rightarrow> 'a option \<Rightarrow> 'a option" where
  "first_of [] q = q"
| "first_of (x # xs) q = Some x"

definition last_of :: "'a option \<Rightarrow> 'a list \<Rightarrow> 'a option" where
  "last_of p xs = (if xs = [] then p else Some (last xs))"

fun seg :: "('a \<Rightarrow> 'a option) \<Rightarrow> ('a \<Rightarrow> 'a option) \<Rightarrow> 'a option \<Rightarrow> 'a list \<Rightarrow> 'a option \<Rightarrow> bool" where
  "seg nx pv p [] q = True"
| "seg nx pv p (x # xs) q = (pv x = p \<and> nx x = first_of xs q \<and> seg nx pv (Some x) xs q)"

definition dll :: "('a \<Rightarrow> 'a option) \<Rightarrow> ('a \<Rightarrow> 'a option) \<Rightarrow> 'a list \<Rightarrow> bool" where
  "dll nx pv xs \<longleftrightarrow> distinct xs \<and> seg nx pv None xs None"

lemma first_of_append [simp]: "first_of (xs @ ys) q = first_of xs (first_of ys q)"
  by (cases xs) simp_all

lemma last_of_simps [simp]:
  "last_of p [] = p" "last_of p (xs @ [x]) = Some x" "last_of p (x # xs) = last_of (Some x) xs"
  by (simp_all add: last_of_def)

lemma seg_append [simp]:
  "seg nx pv p (xs @ ys) q \<longleftrightarrow> seg nx pv p xs (first_of ys q) \<and> seg nx pv (last_of p xs) ys q"
  by (induction xs arbitrary: p) auto

lemma seg_upd_nx [simp]: "x \<notin> set xs \<Longrightarrow> seg (nx(x := v)) pv p xs q = seg nx pv p xs q"
  by (induction xs arbitrary: p) auto

lemma seg_upd_pv [simp]: "x \<notin> set xs \<Longrightarrow> seg nx (pv(x := v)) p xs q = seg nx pv p xs q"
  by (induction xs arbitrary: p) auto

lemma dll_Nil [simp]: "dll nx pv []"
  by (simp add: dll_def)

lemma dll_upd [simp]:
  "x \<notin> set xs \<Longrightarrow> dll (nx(x := v)) pv xs = dll nx pv xs"
  "x \<notin> set xs \<Longrightarrow> dll nx (pv(x := v)) xs = dll nx pv xs"
  by (simp_all add: dll_def)

lemma dll_distinct: "dll nx pv xs \<Longrightarrow> distinct xs"
  by (simp add: dll_def)

lemma dll_links:
  assumes "dll nx pv (ys @ x # zs)"
  shows "nx x = first_of zs None" "pv x = last_of None ys"
  using assms by (simp_all add: dll_def)

lemma last_of_split: "last_of None ys = Some p \<Longrightarrow> \<exists>ys'. ys = ys' @ [p]"
  by (cases ys rule: rev_cases) auto

lemma dll_member:
  assumes "x \<in> set xs"
  obtains ys zs where "xs = ys @ x # zs"
  using assms by (metis split_list)

lemma first_of_in: "first_of zs None = Some y \<Longrightarrow> y \<in> set zs"
  by (cases zs) auto

text \<open>Links out of a list stay in it.\<close>

lemma dll_nx_in: "dll nx pv xs \<Longrightarrow> x \<in> set xs \<Longrightarrow> nx x = Some y \<Longrightarrow> y \<in> set xs"
  by (elim dll_member) (auto dest!: dll_links(1) dest: first_of_in)

lemma dll_pv_in: "dll nx pv xs \<Longrightarrow> x \<in> set xs \<Longrightarrow> pv x = Some y \<Longrightarrow> y \<in> set xs"
  by (elim dll_member) (auto dest!: dll_links(2) last_of_split [OF sym] simp: last_of_def split: if_splits)

section \<open>Removal and insertion\<close>

lemma dll_remove:
  assumes "dll nx pv (ys @ x # zs)"
  shows "dll (case last_of None ys of Some p \<Rightarrow> nx(p := first_of zs None) | None \<Rightarrow> nx)
             (case first_of zs None of Some n \<Rightarrow> pv(n := last_of None ys) | None \<Rightarrow> pv) (ys @ zs)"
  using assms by (cases ys rule: rev_cases; cases zs) (auto simp: dll_def)

lemma dll_insert_after:
  assumes "dll nx pv (ys @ x # zs)" "n \<notin> set (ys @ x # zs)"
  shows "dll (nx(x := Some n, n := first_of zs None))
             ((case zs of [] \<Rightarrow> pv | z # _ \<Rightarrow> pv(z := Some n))(n := Some x)) (ys @ x # n # zs)"
  using assms by (cases zs) (auto simp: dll_def)

lemma dll_insert_front:
  assumes "dll nx pv zs" "n \<notin> set zs"
  shows "dll (nx(n := first_of zs None))
             ((case zs of [] \<Rightarrow> pv | z # _ \<Rightarrow> pv(z := Some n))(n := None)) (n # zs)"
  using assms by (cases zs) (auto simp: dll_def)

end
