(* ===== verification/Memory_Allocator_Inv.thy ===== *)
theory Memory_Allocator_Inv
  imports Memory_Allocator Dll
begin

text \<open>
  The invariant of the allocator and that its operations keep it: the entries in use form a
  doubly linked list in address order, each of them is in exactly the list for the order of
  its size, the blocks are disjoint and not adjacent, and \<open>free_size\<close> counts the bytes they
  cover.  The abstract state is that set of bytes, \<open>free_set\<close>.
\<close>

section \<open>Views of the pool\<close>

definition nxs :: "alloc \<Rightarrow> nat \<Rightarrow> nat option" where "nxs a = (\<lambda>i. me_next (pool a i))"
definition pvs :: "alloc \<Rightarrow> nat \<Rightarrow> nat option" where "pvs a = (\<lambda>i. me_previous (pool a i))"
definition lnx :: "alloc \<Rightarrow> nat \<Rightarrow> nat option" where "lnx a = (\<lambda>i. me_list_next (pool a i))"
definition lpv :: "alloc \<Rightarrow> nat \<Rightarrow> nat option" where "lpv a = (\<lambda>i. me_list_prev (pool a i))"
definition lo :: "alloc \<Rightarrow> nat \<Rightarrow> nat" where "lo a = (\<lambda>i. me_start (pool a i))"
definition hi :: "alloc \<Rightarrow> nat \<Rightarrow> nat" where "hi a = (\<lambda>i. me_end (pool a i))"
definition ena :: "alloc \<Rightarrow> nat \<Rightarrow> bool" where "ena a = (\<lambda>i. me_enabled (pool a i))"

lemmas view_defs = nxs_def pvs_def lnx_def lpv_def lo_def hi_def ena_def

lemma view_upd [simp]:
  "nxs (upd_entry e f a) = (nxs a)(e := me_next (f (pool a e)))"
  "pvs (upd_entry e f a) = (pvs a)(e := me_previous (f (pool a e)))"
  "lnx (upd_entry e f a) = (lnx a)(e := me_list_next (f (pool a e)))"
  "lpv (upd_entry e f a) = (lpv a)(e := me_list_prev (f (pool a e)))"
  "lo (upd_entry e f a) = (lo a)(e := me_start (f (pool a e)))"
  "hi (upd_entry e f a) = (hi a)(e := me_end (f (pool a e)))"
  "ena (upd_entry e f a) = (ena a)(e := me_enabled (f (pool a e)))"
  "first_entry (upd_entry e f a) = first_entry a"
  "free_list (upd_entry e f a) = free_list a"
  "free_size (upd_entry e f a) = free_size a"
  by (auto simp: view_defs upd_entry_def)

lemma view_other [simp]:
  "nxs (a\<lparr>free_size := n\<rparr>) = nxs a" "pvs (a\<lparr>free_size := n\<rparr>) = pvs a"
  "lnx (a\<lparr>free_size := n\<rparr>) = lnx a" "lpv (a\<lparr>free_size := n\<rparr>) = lpv a"
  "lo (a\<lparr>free_size := n\<rparr>) = lo a" "hi (a\<lparr>free_size := n\<rparr>) = hi a" "ena (a\<lparr>free_size := n\<rparr>) = ena a"
  "nxs (a\<lparr>first_entry := x\<rparr>) = nxs a" "pvs (a\<lparr>first_entry := x\<rparr>) = pvs a"
  "lnx (a\<lparr>first_entry := x\<rparr>) = lnx a" "lpv (a\<lparr>first_entry := x\<rparr>) = lpv a"
  "lo (a\<lparr>first_entry := x\<rparr>) = lo a" "hi (a\<lparr>first_entry := x\<rparr>) = hi a" "ena (a\<lparr>first_entry := x\<rparr>) = ena a"
  "nxs (a\<lparr>free_list := l\<rparr>) = nxs a" "pvs (a\<lparr>free_list := l\<rparr>) = pvs a"
  "lnx (a\<lparr>free_list := l\<rparr>) = lnx a" "lpv (a\<lparr>free_list := l\<rparr>) = lpv a"
  "lo (a\<lparr>free_list := l\<rparr>) = lo a" "hi (a\<lparr>free_list := l\<rparr>) = hi a" "ena (a\<lparr>free_list := l\<rparr>) = ena a"
  by (simp_all add: view_defs)

text \<open>The fields of an entry, read through the views.\<close>

lemma pool_view [simp]:
  "me_next (pool a e) = nxs a e" "me_previous (pool a e) = pvs a e"
  "me_list_next (pool a e) = lnx a e" "me_list_prev (pool a e) = lpv a e"
  "me_start (pool a e) = lo a e" "me_end (pool a e) = hi a e" "me_enabled (pool a e) = ena a e"
  by (simp_all add: view_defs)

lemma follow_simps [simp]: "follow None = None" "n < 64 \<Longrightarrow> follow (Some n) = Some n"
  by (simp_all add: follow_def get_memory_entry_def POOL_SIZE_def)

lemma follow_bounded: "(\<And>n. l = Some n \<Longrightarrow> n < 64) \<Longrightarrow> follow l = l"
  by (cases l) simp_all

section \<open>Invariant\<close>

definition bsize :: "alloc \<Rightarrow> nat \<Rightarrow> nat" where
  "bsize a i = hi a i - lo a i + 1"

definition ord :: "alloc \<Rightarrow> nat \<Rightarrow> nat" where
  "ord a i = size_to_page_order (bsize a i)"

definition good_range :: "alloc \<Rightarrow> nat \<Rightarrow> bool" where
  "good_range a i \<longleftrightarrow> lo a i \<le> hi a i \<and> hi a i + 1 < usize_limit"

text \<open>The chain in address order.\<close>

definition alist :: "alloc \<Rightarrow> nat list \<Rightarrow> bool" where
  "alist a L \<longleftrightarrow> dll (nxs a) (pvs a) L \<and> first_entry a = first_of L None \<and> set L \<subseteq> {..<64} \<and>
     (\<forall>i < 64. ena a i \<longleftrightarrow> i \<in> set L)"

text \<open>The chains by size.\<close>

definition listed :: "(nat \<Rightarrow> nat list) \<Rightarrow> nat \<Rightarrow> bool" where
  "listed F e \<longleftrightarrow> (\<exists>k < 12. e \<in> set (F k))"

definition flist :: "alloc \<Rightarrow> (nat \<Rightarrow> nat list) \<Rightarrow> bool" where
  "flist a F \<longleftrightarrow> length (free_list a) = 12 \<and>
     (\<forall>k < 12. dll (lnx a) (lpv a) (F k) \<and> free_list a ! k = first_of (F k) None \<and>
        set (F k) \<subseteq> {i. i < 64 \<and> good_range a i}) \<and>
     (\<forall>k < 12. \<forall>j < 12. k \<noteq> j \<longrightarrow> set (F k) \<inter> set (F j) = {}) \<and>
     (\<forall>i. \<not> listed F i \<longrightarrow> lnx a i = None \<and> lpv a i = None)"

definition sorted_blocks :: "alloc \<Rightarrow> nat list \<Rightarrow> bool" where
  "sorted_blocks a L \<longleftrightarrow> (\<forall>i \<in> set L. good_range a i) \<and> sorted_wrt (\<lambda>i j. hi a i + 1 < lo a j) L"

definition blocks :: "alloc \<Rightarrow> nat list \<Rightarrow> nat set" where
  "blocks a L = (\<Union>i \<in> set L. {lo a i..hi a i})"

definition alloc_rep :: "alloc \<Rightarrow> nat list \<Rightarrow> (nat \<Rightarrow> nat list) \<Rightarrow> bool" where
  "alloc_rep a L F \<longleftrightarrow> alist a L \<and> flist a F \<and> sorted_blocks a L \<and>
     (\<forall>k < 12. set (F k) = {i \<in> set L. ord a i = k}) \<and> free_size a = card (blocks a L)"

definition alloc_inv :: "alloc \<Rightarrow> bool" where
  "alloc_inv a \<longleftrightarrow> (\<exists>L F. alloc_rep a L F)"

text \<open>The abstract state: the bytes the entries in use cover.\<close>

definition free_set :: "alloc \<Rightarrow> nat set" where
  "free_set a = (\<Union>i \<in> {i. i < 64 \<and> me_enabled (pool a i)}. {me_start (pool a i)..me_end (pool a i)})"

section \<open>Sizes and orders\<close>

lemma good_range_size: "good_range a e \<Longrightarrow> get_size a e = Some (bsize a e)"
  by (auto simp: get_size_def usub_def uadd_def good_range_def bsize_def)

lemma page_order_loop_less: "order < 11 \<Longrightarrow> page_order_loop sz order < 12"
proof (induction sz order rule: page_order_loop.induct)
  case (1 sz order)
  show ?case
  proof (cases "order = 10")
    case True
    then show ?thesis
      using page_order_loop.simps [of sz 10] by (simp add: NUM_OF_FREE_LIST_def)
  next
    case False
    with 1 show ?thesis
      by (simp add: page_order_loop.simps [of sz order] NUM_OF_FREE_LIST_def)
  qed
qed

lemma size_to_page_order_less [simp]: "size_to_page_order sz < 12"
  by (simp add: size_to_page_order_def page_order_loop_less)

lemma ord_less [simp]: "ord a i < 12"
  by (simp add: ord_def)

lemma page_order_loop_ge: "order \<le> page_order_loop sz order"
proof (induction sz order rule: page_order_loop.induct)
  case (1 sz order)
  then show ?case
    by (cases "2 ^ (order + PAGE_SHIFT) < sz"; cases "order + 1 = NUM_OF_FREE_LIST - 1")
      (simp_all add: page_order_loop.simps [of sz order])
qed

lemma page_order_loop_mono:
  "sz \<le> sz' \<Longrightarrow> page_order_loop sz order \<le> page_order_loop sz' order"
proof (induction sz order rule: page_order_loop.induct)
  case (1 sz order)
  show ?case
  proof (cases "2 ^ (order + PAGE_SHIFT) < sz")
    case True
    with 1(2) have "2 ^ (order + PAGE_SHIFT) < sz'" by linarith
    with True 1 show ?thesis
      by (cases "order + 1 = NUM_OF_FREE_LIST - 1")
        (simp_all add: page_order_loop.simps [of sz order] page_order_loop.simps [of sz' order])
  next
    case False
    then show ?thesis
      using page_order_loop_ge by (simp add: page_order_loop.simps [of sz order])
  qed
qed

lemma size_to_page_order_mono: "sz \<le> sz' \<Longrightarrow> size_to_page_order sz \<le> size_to_page_order sz'"
  by (simp add: size_to_page_order_def page_order_loop_mono)

lemma free_set_blocks: "alist a L \<Longrightarrow> free_set a = blocks a L"
  by (auto simp: free_set_def blocks_def alist_def)

section \<open>The lists by size\<close>

text \<open>The operations on the lists by size leave everything else alone.\<close>

definition lists_only :: "alloc \<Rightarrow> alloc \<Rightarrow> bool" where
  "lists_only a a' \<longleftrightarrow> nxs a' = nxs a \<and> pvs a' = pvs a \<and> lo a' = lo a \<and> hi a' = hi a \<and> ena a' = ena a \<and>
     first_entry a' = first_entry a \<and> free_size a' = free_size a"

lemma lists_only_refl [simp]: "lists_only a a"
  by (simp add: lists_only_def)

lemma lists_only_trans: "lists_only a b \<Longrightarrow> lists_only b c \<Longrightarrow> lists_only a c"
  by (simp add: lists_only_def)

lemma lists_only_sizes:
  assumes "lists_only a a'"
  shows "bsize a' = bsize a" "ord a' = ord a" "good_range a' = good_range a" "blocks a' = blocks a"
    "alist a' = alist a" "sorted_blocks a' = sorted_blocks a" "get_size a' = get_size a"
proof -
  have e: "nxs a' = nxs a" "pvs a' = pvs a" "lo a' = lo a" "hi a' = hi a" "ena a' = ena a"
    "first_entry a' = first_entry a"
    using assms by (simp_all add: lists_only_def)
  have b: "bsize a' = bsize a" and g: "good_range a' = good_range a"
    by (rule ext, simp add: bsize_def good_range_def e)+
  from b show "ord a' = ord a" by (intro ext) (simp add: ord_def)
  from g show "sorted_blocks a' = sorted_blocks a" by (intro ext) (simp add: sorted_blocks_def e)
  show "alist a' = alist a" "blocks a' = blocks a" "get_size a' = get_size a"
    by (intro ext, simp add: alist_def blocks_def get_size_def e)+
  show "bsize a' = bsize a" "good_range a' = good_range a" by (fact b g)+
qed

lemma dll_insert:
  assumes "dll nx pv (ys @ zs)" "e \<notin> set (ys @ zs)"
  shows "dll ((case last_of None ys of Some p \<Rightarrow> nx(p := Some e) | None \<Rightarrow> nx)(e := first_of zs None))
             ((case first_of zs None of Some n \<Rightarrow> pv(n := Some e) | None \<Rightarrow> pv)(e := last_of None ys))
             (ys @ e # zs)"
  using assms by (cases ys rule: rev_cases; cases zs) (auto simp: dll_def)

lemma flistD:
  assumes "flist a F" "k < 12"
  shows "dll (lnx a) (lpv a) (F k)" "free_list a ! k = first_of (F k) None" "length (free_list a) = 12"
    "x \<in> set (F k) \<Longrightarrow> x < 64" "x \<in> set (F k) \<Longrightarrow> good_range a x"
    "j < 12 \<Longrightarrow> k \<noteq> j \<Longrightarrow> x \<in> set (F k) \<Longrightarrow> x \<notin> set (F j)"
    "\<not> listed F x \<Longrightarrow> lnx a x = None" "\<not> listed F x \<Longrightarrow> lpv a x = None"
  using assms unfolding flist_def by blast+

text \<open>Replacing one of the lists, when only links of its own nodes (and of nodes in no list)
  have changed.\<close>

lemma flist_replace:
  assumes "flist a F" "k < 12" "good_range a' = good_range a"
    "dll (lnx a') (lpv a') xs" "free_list a' = (free_list a)[k := first_of xs None]"
    "set xs \<subseteq> {i. i < 64 \<and> good_range a i}"
    "\<And>j. j < 12 \<Longrightarrow> j \<noteq> k \<Longrightarrow> set xs \<inter> set (F j) = {}"
    "\<And>j. j < 12 \<Longrightarrow> j \<noteq> k \<Longrightarrow> dll (lnx a') (lpv a') (F j)"
    "\<And>i. \<not> listed (F(k := xs)) i \<Longrightarrow> lnx a' i = None \<and> lpv a' i = None"
  shows "flist a' (F(k := xs))"
  using assms unfolding flist_def by (auto simp: nth_list_update)

lemma first_of_last_of_in:
  "first_of zs None = Some n \<Longrightarrow> n \<in> set zs" "last_of None ys = Some p \<Longrightarrow> p \<in> set ys"
  by (auto simp: first_of_in last_of_def split: if_splits)

lemma dll_upd_outside:
  assumes "dll nx pv xs" "set (ys @ e # zs) \<inter> set xs = {}"
  shows "dll ((case last_of None ys of Some p \<Rightarrow> nx(p := v) | None \<Rightarrow> nx)(e := v'))
             ((case first_of zs None of Some n \<Rightarrow> pv(n := w) | None \<Rightarrow> pv)(e := w')) xs"
proof -
  have "p \<notin> set xs" if "last_of None ys = Some p" for p
    using first_of_last_of_in(2) [OF that] assms(2) by auto
  moreover have "n \<notin> set xs" if "first_of zs None = Some n" for n
    using first_of_last_of_in(1) [OF that] assms(2) by auto
  ultimately show ?thesis
    using assms by (cases "last_of None ys"; cases "first_of zs None") auto
qed

lemma links_outside:
  assumes "i \<notin> set (ys @ e # zs)"
  shows "((case last_of None ys of Some p \<Rightarrow> nx(p := v) | None \<Rightarrow> nx)(e := v')) i = nx i"
    "((case first_of zs None of Some n \<Rightarrow> pv(n := w) | None \<Rightarrow> pv)(e := w')) i = pv i"
  using assms first_of_last_of_in [of zs] first_of_last_of_in(2) [of ys] by (auto split: option.split)

lemma not_listed_upd:
  "k < 12 \<Longrightarrow> \<not> listed (F(k := xs)) i \<longleftrightarrow> i \<notin> set xs \<and> (\<forall>j < 12. j \<noteq> k \<longrightarrow> i \<notin> set (F j))"
  by (auto simp: listed_def)

lemma listed_split: "k < 12 \<Longrightarrow> listed F i \<longleftrightarrow> i \<in> set (F k) \<or> (\<exists>j < 12. j \<noteq> k \<and> i \<in> set (F j))"
  by (auto simp: listed_def)

text \<open>Removal.\<close>

lemma unchain_from_freelist_views:
  assumes "\<And>n. lpv a e = Some n \<Longrightarrow> n < 64" "\<And>n. lnx a e = Some n \<Longrightarrow> n < 64"
  shows "lists_only a (unchain_from_freelist e a)"
    and "free_list (unchain_from_freelist e a) = free_list a"
    and "lnx (unchain_from_freelist e a) =
      (case lpv a e of Some p \<Rightarrow> (lnx a)(p := lnx a e) | None \<Rightarrow> lnx a)(e := None)"
    and "lpv (unchain_from_freelist e a) =
      (case lnx a e of Some n \<Rightarrow> (lpv a)(n := lpv a e) | None \<Rightarrow> lpv a)(e := None)"
  using assms
  by (cases "lpv a e"; cases "lnx a e";
      auto simp: unchain_from_freelist_def lists_only_def fun_upd_triv)+

lemma leave_free_list_correct:
  assumes f: "flist a F" and k: "k < 12" and e: "e \<in> set (F k)"
  shows "\<exists>a'. leave_free_list k e a = Some a' \<and> lists_only a a' \<and> flist a' (F(k := remove1 e (F k))) \<and>
    \<not> listed (F(k := remove1 e (F k))) e"
proof -
  note D = flistD [OF f k]
  obtain ys zs where F: "F k = ys @ e # zs" using e by (elim dll_member)
  have links: "lnx a e = first_of zs None" "lpv a e = last_of None ys"
    using D(1) dll_links F by metis+
  have dis: "e \<notin> set ys" "e \<notin> set zs"
    using dll_distinct [OF D(1)] F by auto
  define a1 where "a1 = (if free_list a ! k = Some e then a\<lparr>free_list := (free_list a)[k := lnx a e]\<rparr> else a)"
  have a1: "lnx a1 = lnx a" "lpv a1 = lpv a" "lists_only a a1"
    by (auto simp: a1_def lists_only_def)
  have fl: "free_list a1 = (free_list a)[k := first_of (ys @ zs) None]"
  proof (cases "ys = []")
    case True
    then show ?thesis using D(2) F links by (simp add: a1_def)
  next
    case False
    then obtain y ys' where y: "ys = y # ys'" by (cases ys) auto
    then have "free_list a ! k = Some y" "y \<noteq> e" using D(2) F dis by auto
    moreover have "(free_list a)[k := Some y] = free_list a"
      using \<open>free_list a ! k = Some y\<close> list_update_id [of "free_list a" k] by simp
    ultimately show ?thesis using y by (simp add: a1_def)
  qed
  have bound: "lpv a1 e = Some n \<Longrightarrow> n < 64" "lnx a1 e = Some n \<Longrightarrow> n < 64" for n
    using D(4) [of n] F links a1 by (auto dest!: first_of_last_of_in)
  define a' where "a' = unchain_from_freelist e a1"
  note v = unchain_from_freelist_views [of a1 e, OF bound, folded a'_def]
  have run: "leave_free_list k e a = Some a'"
    using D(3) k by (simp add: leave_free_list_def a1_def a'_def set_free_list_def)
  have nx: "lnx a' = (case last_of None ys of Some p \<Rightarrow> (lnx a)(p := first_of zs None) | None \<Rightarrow> lnx a)(e := None)"
    and pv: "lpv a' = (case first_of zs None of Some n \<Rightarrow> (lpv a)(n := last_of None ys) | None \<Rightarrow> lpv a)(e := None)"
    using v(3,4) by (simp_all add: a1 links split: option.split)
  have lo: "lists_only a a'" using a1(3) v(1) lists_only_trans by blast
  have "flist a' (F(k := ys @ zs))"
  proof (rule flist_replace [OF f k])
    show "dll (lnx a') (lpv a') (ys @ zs)"
      using dll_remove [of "lnx a" "lpv a" ys e zs] D(1) F dis unfolding nx pv by simp
    show "set (ys @ zs) \<subseteq> {i. i < 64 \<and> good_range a i}" using D(4,5) F by auto
    fix j assume j: "j < 12" "j \<noteq> k"
    have sep: "set (ys @ e # zs) \<inter> set (F j) = {}" using D(6) [OF j(1)] j(2) F by auto
    then show "set (ys @ zs) \<inter> set (F j) = {}" by auto
    show "dll (lnx a') (lpv a') (F j)"
      unfolding nx pv using dll_upd_outside [OF flistD(1) [OF f j(1)] sep] .
  next
    fix i assume i: "\<not> listed (F(k := ys @ zs)) i"
    show "lnx a' i = None \<and> lpv a' i = None"
    proof (cases "i = e")
      case False
      with i k have i: "i \<notin> set (ys @ e # zs)" "\<not> listed F i"
        using F by (auto simp: not_listed_upd listed_split [of k])
      then show ?thesis
        by (intro conjI; simp only: nx pv links_outside [OF i(1)] D(7,8) [OF i(2)])
    qed (simp add: nx pv)
  qed (use v(2) fl lists_only_sizes(3) [OF lo] in auto)
  moreover have "remove1 e (F k) = ys @ zs" using F dis by (simp add: remove1_append)
  moreover have "\<not> listed (F(k := ys @ zs)) e"
    using D(6) e dis k by (auto simp: not_listed_upd)
  ultimately show ?thesis using run lo by simp
qed

text \<open>Insertion.\<close>

lemma flist_insert:
  assumes f: "flist a F" and k: "k < 12" and F: "F k = ys @ zs"
    and e: "e < 64" "good_range a e" "\<not> listed F e" and l: "lists_only a a'"
    and nx: "lnx a' = (case last_of None ys of Some p \<Rightarrow> (lnx a)(p := Some e) | None \<Rightarrow> lnx a)(e := first_of zs None)"
    and pv: "lpv a' = (case first_of zs None of Some n \<Rightarrow> (lpv a)(n := Some e) | None \<Rightarrow> lpv a)(e := last_of None ys)"
    and fl: "free_list a' = (free_list a)[k := first_of (ys @ e # zs) None]"
  shows "flist a' (F(k := ys @ e # zs))"
proof (rule flist_replace [OF f k lists_only_sizes(3) [OF l] _ fl])
  note D = flistD [OF f k]
  have nin: "e \<notin> set (F j)" if "j < 12" for j using e(3) that by (auto simp: listed_def)
  show "dll (lnx a') (lpv a') (ys @ e # zs)"
    unfolding nx pv by (rule dll_insert) (use D(1) nin [OF k] F in auto)
  show "set (ys @ e # zs) \<subseteq> {i. i < 64 \<and> good_range a i}" using D(4,5) F e by auto
  fix j assume j: "j < 12" "j \<noteq> k"
  show sep: "set (ys @ e # zs) \<inter> set (F j) = {}" using D(6) [OF j(1)] j(2) F nin [OF j(1)] by auto
  show "dll (lnx a') (lpv a') (F j)"
    unfolding nx pv by (rule dll_upd_outside [OF flistD(1) [OF f j(1)] sep])
next
  fix i assume "\<not> listed (F(k := ys @ e # zs)) i"
  with k F have i: "i \<notin> set (ys @ e # zs)" "\<not> listed F i"
    by (auto simp: not_listed_upd listed_split [of k])
  show "lnx a' i = None \<and> lpv a' i = None"
    by (intro conjI; simp only: nx pv links_outside [OF i(1)] flistD(7,8) [OF f k i(2)])
qed

lemma insert_sorted_loop_correct:
  assumes f: "flist a F" and k: "k < 12"
    and e: "e < 64" "good_range a e" "\<not> listed F e"
  shows "F k = ys @ x # zs \<Longrightarrow> \<exists>a' us vs. insert_sorted_loop sz e x a = Some a' \<and> lists_only a a' \<and>
    F k = us @ vs \<and> flist a' (F(k := us @ e # vs))"
proof (induction zs arbitrary: ys x)
  case Nil
  note D = flistD [OF f k]
  have "lnx a x = None" using D(1) Nil dll_links(1) by fastforce
  define a' where "a' = upd_entry e (\<lambda>m. m\<lparr>me_list_prev := Some x\<rparr>) (upd_entry x (\<lambda>m. m\<lparr>me_list_next := Some e\<rparr>) a)"
  have "x \<noteq> e" using e(3) k Nil by (auto simp: listed_def)
  have run: "insert_sorted_loop sz e x a = Some a'"
    by (subst insert_sorted_loop.simps) (simp add: \<open>lnx a x = None\<close> a'_def)
  have l: "lists_only a a'" by (simp add: a'_def lists_only_def)
  have "flist a' (F(k := (ys @ [x]) @ e # []))"
  proof (rule flist_insert [OF f k _ e(1-3) l])
    show "lnx a' = (case last_of None (ys @ [x]) of Some p \<Rightarrow> (lnx a)(p := Some e) | None \<Rightarrow> lnx a)(e := first_of [] None)"
      using \<open>x \<noteq> e\<close> D(7) [OF e(3)] by (auto simp: a'_def)
    show "free_list a' = (free_list a)[k := first_of ((ys @ [x]) @ [e]) None]"
      using D(2) Nil list_update_id [of "free_list a" k] by (cases ys) (simp_all add: a'_def)
  qed (use Nil in \<open>auto simp: a'_def\<close>)
  with run l Nil show ?case by (metis append.right_neutral)
next
  case (Cons z zs)
  note D = flistD [OF f k]
  have z: "lnx a x = Some z" using D(1) Cons.prems dll_links(1) by fastforce
  have "z < 64" "good_range a z" using D(4,5) Cons.prems by auto
  show ?case
  proof (cases "sz \<le> bsize a z")
    case False
    then have "insert_sorted_loop sz e x a = insert_sorted_loop sz e z a"
      by (subst insert_sorted_loop.simps) (simp add: z \<open>z < 64\<close> good_range_size [OF \<open>good_range a z\<close>])
    with Cons.IH [of "ys @ [x]" z] Cons.prems show ?thesis by simp
  next
    case True
    define a' where "a' = upd_entry z (\<lambda>m. m\<lparr>me_list_prev := Some e\<rparr>)
        (upd_entry e (\<lambda>m. m\<lparr>me_list_prev := Some x, me_list_next := Some z\<rparr>)
          (upd_entry x (\<lambda>m. m\<lparr>me_list_next := Some e\<rparr>) a))"
    have neq: "x \<noteq> e" "z \<noteq> e" "x \<noteq> z"
      using e(3) k Cons.prems dll_distinct [OF D(1)] by (auto simp: listed_def)
    have run: "insert_sorted_loop sz e x a = Some a'"
      using True by (subst insert_sorted_loop.simps)
        (simp add: z \<open>z < 64\<close> good_range_size [OF \<open>good_range a z\<close>] a'_def)
    have l: "lists_only a a'" by (simp add: a'_def lists_only_def)
    have "flist a' (F(k := (ys @ [x]) @ e # z # zs))"
    proof (rule flist_insert [OF f k _ e(1-3) l])
      show "free_list a' = (free_list a)[k := first_of ((ys @ [x]) @ e # z # zs) None]"
        using D(2) Cons.prems list_update_id [of "free_list a" k] by (cases ys) (simp_all add: a'_def)
    qed (use Cons.prems neq in \<open>auto simp: a'_def\<close>)
    with run l Cons.prems show ?thesis
      by (metis append.assoc append_Cons append_Nil)
  qed
qed

lemma chain_unlisted_entry:
  assumes f: "flist a F" and e: "e < 64" "good_range a e" "\<not> listed F e"
  shows "\<exists>a' us vs. chain_entry_to_free_list e None a = Some a' \<and> lists_only a a' \<and>
    F (ord a e) = us @ vs \<and> flist a' (F(ord a e := us @ e # vs))"
proof -
  let ?k = "ord a e"
  have k: "?k < 12" by simp
  note D = flistD [OF f k]
  note en = D(7,8) [OF e(3)]
  have sz: "get_size a e = Some (bsize a e)" using good_range_size [OF e(2)] .
  have ko: "size_to_page_order (bsize a e) = ?k" by (simp add: ord_def)
  show ?thesis
  proof (cases "F ?k")
    case Nil
    define a' where "a' = a\<lparr>free_list := (free_list a)[?k := Some e]\<rparr>"
    have run: "chain_entry_to_free_list e None a = Some a'"
      using D(2,3) Nil en by (simp add: chain_entry_to_free_list_def sz ko assert_that_def set_free_list_def a'_def)
    have l: "lists_only a a'" by (simp add: a'_def lists_only_def)
    have "flist a' (F(?k := [] @ e # []))"
      by (rule flist_insert [OF f k _ e(1-3) l]) (use Nil en in \<open>auto simp: a'_def\<close>)
    with run l Nil show ?thesis by (metis append_Nil)
  next
    case (Cons x zs)
    have x: "x < 64" "good_range a x" using D(4,5) Cons by auto
    have xe: "x \<noteq> e" using e(3) k Cons unfolding listed_def by (metis list.set_intros(1))
    show ?thesis
    proof (cases "bsize a e \<le> bsize a x")
      case True
      define a' where "a' = (upd_entry e (\<lambda>m. m\<lparr>me_list_next := Some x\<rparr>)
                (upd_entry x (\<lambda>m. m\<lparr>me_list_prev := Some e\<rparr>) a))\<lparr>free_list := (free_list a)[?k := Some e]\<rparr>"
      have run: "chain_entry_to_free_list e None a = Some a'"
        using D(2,3) Cons True en x
        by (simp add: chain_entry_to_free_list_def sz ko assert_that_def set_free_list_def a'_def good_range_size)
      have l: "lists_only a a'" by (simp add: a'_def lists_only_def)
      have "flist a' (F(?k := [] @ e # x # zs))"
        by (rule flist_insert [OF f k _ e(1-3) l]) (use Cons xe en in \<open>auto simp: a'_def fun_upd_idem\<close>)
      with run l Cons show ?thesis by (metis append_Nil)
    next
      case False
      have "chain_entry_to_free_list e None a = insert_sorted_loop (bsize a e) e x a"
        using D(2,3) Cons False en x
        by (simp add: chain_entry_to_free_list_def sz ko assert_that_def good_range_size)
      with insert_sorted_loop_correct [OF f k e, of "[]" x zs "bsize a e"] Cons show ?thesis by simp
    qed
  qed
qed

text \<open>An entry whose range has changed moves to the list for its size; the membership of
  every list is then known.\<close>

lemma chain_listed_entry:
  assumes f: "flist a F" and e: "good_range a e" "e \<in> set (F (size_to_page_order old))"
  shows "\<exists>a' F'. chain_entry_to_free_list e (Some old) a = Some a' \<and> lists_only a a' \<and> flist a' F' \<and>
    (\<forall>k < 12. set (F' k) = set (F k) - {e} \<union> (if k = ord a e then {e} else {}))"
proof (cases "old = bsize a e")
  case True
  have "e \<notin> set (F k)" if "k < 12" "k \<noteq> ord a e" for k
    using flistD(6) [OF f _ that(1)] that(2) e(2) True ord_less [of a e] by (fastforce simp: ord_def)
  moreover have "chain_entry_to_free_list e (Some old) a = Some a"
    using True good_range_size [OF e(1)] by (simp add: chain_entry_to_free_list_def)
  ultimately show ?thesis using f e(2) True by (auto simp: ord_def intro!: exI [of _ a] exI [of _ F])
next
  case False
  let ?j = "size_to_page_order old"
  have j: "?j < 12" by simp
  have e64: "e < 64" using flistD(4) [OF f j e(2)] .
  obtain a1 where a1: "leave_free_list ?j e a = Some a1" "lists_only a a1"
    "flist a1 (F(?j := remove1 e (F ?j)))" "\<not> listed (F(?j := remove1 e (F ?j))) e"
    using leave_free_list_correct [OF f j e(2)] by auto
  note s = lists_only_sizes [OF a1(2)]
  have "distinct (F ?j)" using dll_distinct [OF flistD(1) [OF f j]] .
  then have rm: "set (remove1 e (F ?j)) = set (F ?j) - {e}" by (simp add: set_remove1_eq)
  obtain a2 us vs where a2: "chain_entry_to_free_list e None a1 = Some a2" "lists_only a1 a2"
    "(F(?j := remove1 e (F ?j))) (ord a e) = us @ vs"
    "flist a2 ((F(?j := remove1 e (F ?j)))(ord a e := us @ e # vs))"
    using chain_unlisted_entry [OF a1(3) e64 _ a1(4)] e(1) s(2,3) by auto
  have "chain_entry_to_free_list e (Some old) a = Some a2"
    using a2(1) a1(1) False s(7) good_range_size [OF e(1)] by (simp add: chain_entry_to_free_list_def)
  moreover have "set (((F(?j := remove1 e (F ?j)))(ord a e := us @ e # vs)) k) =
      set (F k) - {e} \<union> (if k = ord a e then {e} else {})" if "k < 12" for k
  proof -
    have "set us \<union> set vs = set ((F(?j := remove1 e (F ?j))) (ord a e))" using a2(3) by simp
    moreover have "e \<notin> set (F k)" if "k \<noteq> ?j" using flistD(6) [OF f j \<open>k < 12\<close> _ e(2)] that by auto
    ultimately show ?thesis using rm by auto
  qed
  ultimately show ?thesis using lists_only_trans [OF a1(2) a2(2)] a2(4) by blast
qed

subsection \<open>Entries by class\<close>

text \<open>The lists hold exactly the entries of \<open>S\<close>, each in the list of its class \<open>c\<close>.
  While an operation is under way the class of an entry may be that of its old size.\<close>

definition classed :: "alloc \<Rightarrow> (nat \<Rightarrow> nat list) \<Rightarrow> nat set \<Rightarrow> (nat \<Rightarrow> nat) \<Rightarrow> bool" where
  "classed a F S c \<longleftrightarrow> flist a F \<and> (\<forall>k < 12. set (F k) = {i \<in> S. c i = k}) \<and> (\<forall>i \<in> S. c i < 12)"

lemma classed_cong: "(\<And>i. i \<in> S \<Longrightarrow> c i = c' i) \<Longrightarrow> classed a F S c = classed a F S c'"
  by (auto simp: classed_def)

lemma classed_member:
  assumes "classed a F S c" "i \<in> S"
  shows "i < 64 \<and> good_range a i \<and> i \<in> set (F (c i))"
proof -
  have "c i < 12" "flist a F" "i \<in> set (F (c i))" using assms by (auto simp: classed_def)
  then show ?thesis using flistD(4,5) by blast
qed

lemma dll_cong:
  assumes "\<And>x. x \<in> set xs \<Longrightarrow> nx' x = nx x \<and> pv' x = pv x"
  shows "dll nx' pv' xs = dll nx pv xs"
proof -
  have "seg nx' pv' p xs q = seg nx pv p xs q" for p q
    using assms by (induction xs arbitrary: p) auto
  then show ?thesis by (simp add: dll_def)
qed

lemma classed_frame:
  assumes c: "classed a F S c" and v: "\<And>i. lnx b i = lnx a i \<and> lpv b i = lpv a i \<or> i \<notin> S \<and> lnx b i = None \<and> lpv b i = None"
    and fl: "free_list b = free_list a" and g: "\<And>i. i \<in> S \<Longrightarrow> good_range b i"
  shows "classed b F S c"
proof -
  have sub: "i \<in> S" if "i \<in> set (F k)" "k < 12" for i k
    using c that by (auto simp: classed_def)
  have "set (F k) \<subseteq> {i. i < 64 \<and> good_range b i}" if "k < 12" for k
    using classed_member [OF c] g sub that by blast
  moreover have "dll (lnx b) (lpv b) (F k) = dll (lnx a) (lpv a) (F k)" if "k < 12" for k
    using v sub that by (intro dll_cong) blast
  moreover have "lnx b i = None \<and> lpv b i = None" if "\<not> listed F i" for i
    using v [of i] c that by (auto simp: classed_def flist_def)
  ultimately show ?thesis
    using c unfolding classed_def flist_def fl by auto
qed

lemma rechain_classed:
  assumes c: "classed a F S c" and e: "e \<in> S" "c e = size_to_page_order old"
  shows "\<exists>a' F'. chain_entry_to_free_list e (Some old) a = Some a' \<and> lists_only a a' \<and>
    classed a' F' S (c(e := ord a e))"
proof -
  have "good_range a e" "e \<in> set (F (size_to_page_order old))"
    using classed_member [OF c e(1)] e(2) by auto
  moreover have "flist a F" using c by (simp add: classed_def)
  ultimately obtain a' F' where
    "chain_entry_to_free_list e (Some old) a = Some a' \<and> lists_only a a' \<and> flist a' F' \<and>
    (\<forall>k < 12. set (F' k) = set (F k) - {e} \<union> (if k = ord a e then {e} else {}))"
    using chain_listed_entry by blast
  with c e(1) show ?thesis
    by (intro exI [of _ a'] exI [of _ F']) (auto simp: classed_def)
qed

lemma chain_classed:
  assumes c: "classed a F S c" and e: "e \<notin> S" "e < 64" "good_range a e"
  shows "\<exists>a' F'. chain_entry_to_free_list e None a = Some a' \<and> lists_only a a' \<and>
    classed a' F' (insert e S) (c(e := ord a e))"
proof -
  have f: "flist a F" using c by (simp add: classed_def)
  have nl: "\<not> listed F e" using c e(1) by (auto simp: classed_def listed_def)
  obtain a' us vs where a': "chain_entry_to_free_list e None a = Some a'" "lists_only a a'"
    "F (ord a e) = us @ vs" "flist a' (F(ord a e := us @ e # vs))"
    using chain_unlisted_entry [OF f e(2,3) nl] by auto
  have "set us \<union> set vs = {i \<in> S. c i = ord a e}"
    using c a'(3) unfolding classed_def by (metis ord_less set_append)
  then have "classed a' (F(ord a e := us @ e # vs)) (insert e S) (c(e := ord a e))"
    using c a'(4) e(1) by (auto simp: classed_def)
  with a' show ?thesis by blast
qed

lemma unchain_classed:
  assumes c: "classed a F S c" and e: "e \<in> S" "c e = ord a e"
  shows "\<exists>a' F'. unchain_entry_from_free_list e a = Some a' \<and> lists_only a a' \<and>
    classed a' F' (S - {e}) c"
proof -
  have f: "flist a F" using c by (simp add: classed_def)
  have m: "good_range a e" "e \<in> set (F (ord a e))" using classed_member [OF c e(1)] e(2) by auto
  obtain a' where a': "leave_free_list (ord a e) e a = Some a'" "lists_only a a'"
    "flist a' (F(ord a e := remove1 e (F (ord a e))))"
    using leave_free_list_correct [OF f _ m(2)] by auto
  have "distinct (F (ord a e))" using dll_distinct [OF flistD(1) [OF f]] by simp
  then have "classed a' (F(ord a e := remove1 e (F (ord a e)))) (S - {e}) c"
    using a'(3) c e by (auto simp: classed_def set_remove1_eq)
  moreover have "unchain_entry_from_free_list e a = Some a'"
    using a'(1) good_range_size [OF m(1)] by (simp add: unchain_entry_from_free_list_def ord_def)
  ultimately show ?thesis using a' by blast
qed

section \<open>The chain in address order\<close>

lemma alistD:
  assumes "alist a L"
  shows "dll (nxs a) (pvs a) L" "first_entry a = first_of L None" "i \<in> set L \<Longrightarrow> i < 64"
    "i < 64 \<Longrightarrow> ena a i \<longleftrightarrow> i \<in> set L" "distinct L"
  using assms by (auto simp: alist_def dll_def)

lemma alist_split:
  assumes "alist a (ys @ e # zs)"
  shows "nxs a e = first_of zs None" "pvs a e = last_of None ys"
    "get_next_entry a e = first_of zs None" "get_prev_entry a e = last_of None ys"
    "is_first_entry a e \<longleftrightarrow> ys = []"
proof -
  note D = alistD [OF assms]
  show l: "nxs a e = first_of zs None" "pvs a e = last_of None ys" using dll_links [OF D(1)] by auto
  have "n < 64" if "first_of zs None = Some n \<or> last_of None ys = Some n" for n
    using that D(3) [of n] first_of_last_of_in [of zs n] first_of_last_of_in(2) [of ys n] by auto
  then show "get_next_entry a e = first_of zs None" "get_prev_entry a e = last_of None ys"
    by (simp_all add: get_next_entry_def get_prev_entry_def l follow_bounded)
  show "is_first_entry a e \<longleftrightarrow> ys = []" by (simp add: is_first_entry_def l last_of_def)
qed

lemma alist_first: "alist a L \<Longrightarrow> follow (first_entry a) = first_of L None"
  using alistD(2) [of a L] alistD(3) [of a L] first_of_in [of L] by (auto intro: follow_bounded)

lemma alist_delete:
  assumes a: "alist a (ys @ e # zs)" and b: "nxs b = nxs a" "pvs b = pvs a" "ena b = ena a"
    and "first_entry b = first_of (ys @ zs) None"
  shows "alist (entry_delete e b) (ys @ zs)"
    and "lo (entry_delete e b) = lo b" "hi (entry_delete e b) = hi b"
    "lnx (entry_delete e b) = lnx b" "lpv (entry_delete e b) = lpv b"
    "free_list (entry_delete e b) = free_list b" "free_size (entry_delete e b) = free_size b"
proof -
  note D = alistD [OF a]
  have g: "get_next_entry b e = first_of zs None" "get_prev_entry b e = last_of None ys"
    using alist_split(3,4) [OF a] b(1,2) by (simp_all add: get_next_entry_def get_prev_entry_def)
  have v: "nxs (entry_delete e b) = (case last_of None ys of Some p \<Rightarrow> (nxs a)(p := first_of zs None) | None \<Rightarrow> nxs a)(e := None)"
    "pvs (entry_delete e b) = (case first_of zs None of Some n \<Rightarrow> (pvs a)(n := last_of None ys) | None \<Rightarrow> pvs a)(e := None)"
    "first_entry (entry_delete e b) = first_entry b" "ena (entry_delete e b) = (ena a)(e := False)"
    by (simp_all add: entry_delete_def g chain_after_me_def unset_next_entry_def unset_prev_entry_def Let_def b
        fun_upd_idem split: option.split)
  show "lo (entry_delete e b) = lo b" "hi (entry_delete e b) = hi b"
    "lnx (entry_delete e b) = lnx b" "lpv (entry_delete e b) = lpv b"
    "free_list (entry_delete e b) = free_list b" "free_size (entry_delete e b) = free_size b"
    by (simp_all add: entry_delete_def g chain_after_me_def unset_next_entry_def unset_prev_entry_def Let_def
        split: option.split)
  have "e \<notin> set (ys @ zs)" using D(5) by auto
  then have "dll (nxs (entry_delete e b)) (pvs (entry_delete e b)) (ys @ zs)"
    using dll_remove [OF D(1)] by (simp add: v)
  then show "alist (entry_delete e b) (ys @ zs)"
    using assms(5) D(3-5) by (auto simp: alist_def v)
qed

lemma alist_insert:
  assumes a: "alist a (ys @ zs)" and n: "n \<notin> set (ys @ zs)" "n < 64"
    and "nxs b = (case last_of None ys of Some p \<Rightarrow> (nxs a)(p := Some n) | None \<Rightarrow> nxs a)(n := first_of zs None)"
    and "pvs b = (case first_of zs None of Some m \<Rightarrow> (pvs a)(m := Some n) | None \<Rightarrow> pvs a)(n := last_of None ys)"
    and "ena b = (ena a)(n := True)" "first_entry b = first_of (ys @ n # zs) None"
  shows "alist b (ys @ n # zs)"
  using dll_insert [OF alistD(1) [OF a] n(1)] alistD(3-5) [OF a] assms(3-) n(2)
  by (auto simp: alist_def)

section \<open>The blocks\<close>

lemma sorted_blocks_append:
  "sorted_blocks a (ys @ zs) \<longleftrightarrow> sorted_blocks a ys \<and> sorted_blocks a zs \<and>
     (\<forall>i \<in> set ys. \<forall>j \<in> set zs. hi a i + 1 < lo a j)"
  by (auto simp: sorted_blocks_def sorted_wrt_append)

lemma sorted_blocks_Cons:
  "sorted_blocks a (e # zs) \<longleftrightarrow> good_range a e \<and> sorted_blocks a zs \<and> (\<forall>j \<in> set zs. hi a e + 1 < lo a j)"
  by (auto simp: sorted_blocks_def)

lemma sorted_blocks_Nil [simp]: "sorted_blocks a []"
  by (simp add: sorted_blocks_def)

lemmas sorted_blocks_simps = sorted_blocks_append sorted_blocks_Cons

lemma sorted_blocks_cong:
  assumes "\<And>i. i \<in> set L \<Longrightarrow> lo b i = lo a i \<and> hi b i = hi a i"
  shows "sorted_blocks b L = sorted_blocks a L"
  using assms by (induction L) (auto simp: sorted_blocks_Cons good_range_def)

lemma blocks_simps:
  "blocks a [] = {}" "blocks a (e # zs) = {lo a e..hi a e} \<union> blocks a zs"
  "blocks a (ys @ zs) = blocks a ys \<union> blocks a zs"
  by (auto simp: blocks_def)

lemma blocks_cong:
  assumes "\<And>i. i \<in> set L \<Longrightarrow> lo b i = lo a i \<and> hi b i = hi a i"
  shows "blocks b L = blocks a L"
  using assms by (auto simp: blocks_def)

lemma finite_blocks [simp]: "finite (blocks a L)"
  by (simp add: blocks_def)

text \<open>What the neighbours of a block leave to it.\<close>

lemma sorted_blocks_around:
  assumes "sorted_blocks a (ys @ e # zs)"
  shows "x \<in> blocks a ys \<Longrightarrow> x + 1 < lo a e" "x \<in> blocks a zs \<Longrightarrow> hi a e + 1 < x"
    "good_range a e"
  using assms by (fastforce simp: sorted_blocks_simps blocks_def)+

lemma alloc_repI:
  assumes "alist a L" "sorted_blocks a L" "classed a F (set L) (ord a)" "free_size a = card (blocks a L)"
  shows "alloc_rep a L F"
  using assms by (auto simp: alloc_rep_def classed_def)

lemma alloc_repD:
  assumes "alloc_rep a L F"
  shows "alist a L" "sorted_blocks a L" "classed a F (set L) (ord a)" "free_size a = card (blocks a L)"
    "free_set a = blocks a L"
  using assms by (auto simp: alloc_rep_def classed_def free_set_blocks)

lemma alloc_repE:
  assumes "alloc_rep a L F" "e \<in> set L"
  obtains ys zs where "L = ys @ e # zs" "alist a (ys @ e # zs)" "sorted_blocks a (ys @ e # zs)"
    "classed a F (set (ys @ e # zs)) (ord a)"
  using alloc_repD [OF assms(1)] assms(2) by (metis split_list)

section \<open>Taking memory\<close>

lemma free_size_irrelevant [simp]:
  "alist (a\<lparr>free_size := n\<rparr>) = alist a" "sorted_blocks (a\<lparr>free_size := n\<rparr>) = sorted_blocks a"
  "good_range (a\<lparr>free_size := n\<rparr>) = good_range a" "ord (a\<lparr>free_size := n\<rparr>) = ord a"
  "bsize (a\<lparr>free_size := n\<rparr>) = bsize a" "blocks (a\<lparr>free_size := n\<rparr>) = blocks a"
  "classed (a\<lparr>free_size := n\<rparr>) = classed a"
proof -
  show g: "good_range (a\<lparr>free_size := n\<rparr>) = good_range a" and b: "bsize (a\<lparr>free_size := n\<rparr>) = bsize a"
    by (intro ext, simp add: good_range_def bsize_def)+
  show "ord (a\<lparr>free_size := n\<rparr>) = ord a" by (intro ext) (simp add: ord_def b)
  show "alist (a\<lparr>free_size := n\<rparr>) = alist a" "sorted_blocks (a\<lparr>free_size := n\<rparr>) = sorted_blocks a"
    "blocks (a\<lparr>free_size := n\<rparr>) = blocks a" "classed (a\<lparr>free_size := n\<rparr>) = classed a"
    by (intro ext, simp add: alist_def sorted_blocks_def blocks_def classed_def flist_def g)+
qed

text \<open>An operation that takes the bytes \<open>X\<close>, and one that gives them.\<close>

definition takes :: "alloc \<Rightarrow> nat set \<Rightarrow> ((merror + unit) \<times> alloc) option \<Rightarrow> bool" where
  "takes a X m \<longleftrightarrow> (\<exists>a'. m = Some (Inr (), a') \<and> alloc_inv a' \<and> free_set a' = free_set a - X)"

definition gives :: "alloc \<Rightarrow> nat set \<Rightarrow> ((merror + unit) \<times> alloc) option \<Rightarrow> bool" where
  "gives a X m \<longleftrightarrow> (\<exists>a'. m = Some (Inr (), a') \<and> alloc_inv a' \<and> free_set a' = free_set a \<union> X)"

lemma takes_end:
  assumes a: "alloc_rep a L F" and b: "alist b L'" "sorted_blocks b L'" "classed b F' (set L') (ord b)"
    and "free_size b = free_size a" "blocks b L' = blocks a L - {s..<s + n}" "{s..<s + n} \<subseteq> blocks a L"
  shows "takes a {s..<s + n} (do { fs \<leftarrow> usub (free_size b) n; Some (Inr (), b\<lparr>free_size := fs\<rparr>) })"
proof -
  note A = alloc_repD [OF a]
  have "card (blocks b L') = card (blocks a L) - n" "n \<le> card (blocks a L)"
    using assms(6,7) card_mono [OF finite_blocks assms(7)] by (simp_all add: card_Diff_subset)
  then have "usub (free_size b) n = Some (card (blocks b L'))"
    using A(4) assms(5) by (simp add: usub_def)
  moreover have "alloc_rep (b\<lparr>free_size := card (blocks b L')\<rparr>) L' F'"
    by (rule alloc_repI) (use b in simp_all)
  ultimately show ?thesis
    using A(5) assms(6) alloc_repD(5) by (fastforce simp: takes_def alloc_inv_def)
qed

lemma gives_end:
  assumes a: "alloc_rep a L F" and b: "alist b L'" "sorted_blocks b L'" "classed b F' (set L') (ord b)"
    and "free_size b = free_size a + n" "blocks b L' = blocks a L \<union> {s..<s + n}" "{s..<s + n} \<inter> blocks a L = {}"
  shows "gives a {s..<s + n} (Some (Inr (), b))"
proof -
  note A = alloc_repD [OF a]
  have "card (blocks b L') = card (blocks a L) + n"
    using assms(6,7) by (simp add: card_Un_disjoint inf_commute)
  then have "alloc_rep b L' F'"
    by (intro alloc_repI) (use b A(4) assms(5) in simp_all)
  then show ?thesis
    using A(5) assms(6) alloc_repD(5) by (fastforce simp: gives_def alloc_inv_def)
qed

text \<open>Changing the range of one entry and putting it into the list it then belongs to.\<close>

lemma reshape_entry:
  assumes c: "classed a F S (ord a)" and e: "e \<in> S"
    and v: "\<And>i. lnx b i = lnx a i \<and> lpv b i = lpv a i \<or> i \<notin> S \<and> lnx b i = None \<and> lpv b i = None" and fl: "free_list b = free_list a"
    and g: "\<And>i. i \<in> S \<Longrightarrow> good_range b i"
    and o: "\<And>i. i \<in> S \<Longrightarrow> i \<noteq> e \<Longrightarrow> lo b i = lo a i \<and> hi b i = hi a i"
  shows "\<exists>b' F'. chain_entry_to_free_list e (Some (bsize a e)) b = Some b' \<and> lists_only b b' \<and>
    classed b' F' S (ord b')"
proof -
  have "classed b F S (ord a)" using classed_frame [OF c v fl g] .
  from rechain_classed [OF this e, of "bsize a e"] obtain b' F' where
    b': "chain_entry_to_free_list e (Some (bsize a e)) b = Some b'" "lists_only b b'"
    "classed b' F' S ((ord a)(e := ord b e))"
    by (auto simp: ord_def)
  have "classed b' F' S (ord b')"
    using b'(3) o by (subst (asm) classed_cong [where c' = "ord b'"])
      (auto simp: lists_only_sizes(2) [OF b'(2)] ord_def bsize_def)
  with b' show ?thesis by blast
qed

lemma get_end_address_Some: "0 < n \<Longrightarrow> s + n < usize_limit \<Longrightarrow> get_end_address s n = Some (s + n - 1)"
  by (simp add: get_end_address_def uadd_def usub_def)

text \<open>A request that runs past the block is cut at its end.\<close>

lemma define_used_entry_clip:
  assumes "start \<le> hi a e" "hi a e + 1 < start + sz" "start + sz < usize_limit"
  shows "define_used_entry start sz e a = define_used_entry start (hi a e + 1 - start) e a"
proof -
  have "get_end_address start sz = Some (start + sz - 1)"
    "get_end_address start (hi a e + 1 - start) = Some (hi a e)"
    using assms by (simp_all add: get_end_address_def uadd_def usub_def)
  moreover have "do { x \<leftarrow> usub (hi a e) start; uadd x 1 } = Some (hi a e + 1 - start)"
    using assms by (auto simp: uadd_def usub_def)
  moreover have "hi a e < start + sz - 1" using assms by simp
  ultimately show ?thesis
    by (simp add: define_used_entry_def)
qed

lemma take_whole:
  assumes rep: "alloc_rep a L F" and e: "e \<in> set L"
    and r: "start = lo a e" "start + sz = hi a e + 1" "0 < sz"
  shows "takes a {start..<start + sz} (define_used_entry start sz e a)"
proof -
  obtain ys zs where L: "L = ys @ e # zs" "alist a (ys @ e # zs)" "sorted_blocks a (ys @ e # zs)"
    "classed a F (set (ys @ e # zs)) (ord a)"
    using alloc_repE [OF rep e] .
  note S = alist_split [OF L(2)] and R = sorted_blocks_around [OF L(3)]
  have e1: "e \<notin> set ys" "e \<notin> set zs" using alistD(5) [OF L(2)] by auto
  define b where "b = (if is_first_entry a e then a\<lparr>first_entry := get_next_entry a e\<rparr> else a)"
  have b: "lnx b = lnx a" "lpv b = lpv a" "nxs b = nxs a" "pvs b = pvs a" "lo b = lo a" "hi b = hi a"
    "ena b = ena a" "free_list b = free_list a" "free_size b = free_size a"
    "first_entry b = first_of (ys @ zs) None"
    using S(3,5) alistD(2) [OF L(2)] by (cases ys; simp add: b_def)+
  have gb: "good_range b = good_range a" "ord b = ord a"
    by (intro ext, simp add: good_range_def ord_def bsize_def b)+
  have "classed b F (set (ys @ e # zs)) (ord a)"
    by (rule classed_frame [OF L(4)]) (use b classed_member [OF L(4)] in \<open>auto simp: gb\<close>)
  then obtain c F' where c: "unchain_entry_from_free_list e b = Some c" "lists_only b c"
    "classed c F' (set (ys @ e # zs) - {e}) (ord a)"
    using unchain_classed [of b F "set (ys @ e # zs)" "ord a" e] by (auto simp: gb)
  have cv: "nxs c = nxs a" "pvs c = pvs a" "ena c = ena a" "first_entry c = first_of (ys @ zs) None"
    "lo c = lo a" "hi c = hi a" "free_size c = free_size a"
    using c(2) b by (simp_all add: lists_only_def)
  note del = alist_delete [OF L(2) cv(1-4)]
  define d where "d = entry_delete e c"
  have dv: "lo d = lo a" "hi d = hi a" "ord d = ord a" "good_range d = good_range a"
    using del(2,3) cv by (auto simp: d_def fun_eq_iff ord_def bsize_def good_range_def)
  have "set (ys @ e # zs) - {e} = set (ys @ zs)" using e1 by auto
  then have cd: "classed d F' (set (ys @ zs)) (ord d)"
    using classed_frame [OF c(3), of d] del(4-6) classed_member [OF c(3)]
    by (auto simp: d_def [symmetric] dv lists_only_sizes(3) [OF c(2)] gb)
  have sd: "sorted_blocks d (ys @ zs)"
    using L(3) by (simp add: sorted_blocks_simps dv sorted_blocks_cong [of _ d a])
  have bd: "blocks d (ys @ zs) = blocks a L - {start..<start + sz}"
    using R(1,2) r L(1) by (fastforce simp: blocks_simps blocks_cong [of _ d a] dv)
  have "takes a {start..<start + sz} (do { fs \<leftarrow> usub (free_size d) sz; Some (Inr (), d\<lparr>free_size := fs\<rparr>) })"
    by (rule takes_end [OF rep _ sd cd _ bd])
      (use del(1,7) cv(7) r L(1) in \<open>auto simp: d_def blocks_simps\<close>)
  moreover have "define_used_entry start sz e a = do { fs \<leftarrow> usub (free_size d) sz; Some (Inr (), d\<lparr>free_size := fs\<rparr>) }"
    using r R(3) c(1) get_end_address_Some [of sz start]
    by (simp add: define_used_entry_def good_range_def b_def [symmetric] d_def)
  ultimately show ?thesis by simp
qed

text \<open>Only one end of the block remains.\<close>

lemma take_shrink:
  assumes rep: "alloc_rep a L F" and e: "e \<in> set L"
    and st: "lo a e \<le> s" "s \<le> t" "t \<le> hi a e"
    and X: "{lo a e..hi a e} - {start..<start + sz} = {s..t}" "{start..<start + sz} \<subseteq> {lo a e..hi a e}"
  shows "\<exists>b. chain_entry_to_free_list e (Some (bsize a e)) (upd_entry e (\<lambda>m. m\<lparr>me_start := s, me_end := t\<rparr>) a) = Some b \<and>
    takes a {start..<start + sz} (do { fs \<leftarrow> usub (free_size b) sz; Some (Inr (), b\<lparr>free_size := fs\<rparr>) })"
proof -
  obtain ys zs where L: "L = ys @ e # zs" "alist a (ys @ e # zs)" "sorted_blocks a (ys @ e # zs)"
    "classed a F (set (ys @ e # zs)) (ord a)"
    using alloc_repE [OF rep e] .
  note R = sorted_blocks_around [OF L(3)]
  have e1: "e \<notin> set ys" "e \<notin> set zs" using alistD(5) [OF L(2)] by auto
  let ?b = "upd_entry e (\<lambda>m. m\<lparr>me_start := s, me_end := t\<rparr>) a"
  have oth: "lo ?b i = lo a i \<and> hi ?b i = hi a i" if "i \<noteq> e" for i using that by simp
  have sys: "sorted_blocks ?b ys = sorted_blocks a ys" "sorted_blocks ?b zs = sorted_blocks a zs"
    "blocks ?b ys = blocks a ys" "blocks ?b zs = blocks a zs"
    using e1 by (auto intro!: sorted_blocks_cong blocks_cong)
  have sb: "sorted_blocks ?b L"
    using L(1,3) st e1 by (fastforce simp: sorted_blocks_simps sys good_range_def)
  have "\<exists>b' F'. chain_entry_to_free_list e (Some (bsize a e)) ?b = Some b' \<and> lists_only ?b b' \<and>
    classed b' F' (set L) (ord b')"
    by (rule reshape_entry [OF L(4) [folded L(1)] e]) (use sb in \<open>auto simp: sorted_blocks_def\<close>)
  then obtain b F' where b: "chain_entry_to_free_list e (Some (bsize a e)) ?b = Some b" "lists_only ?b b"
    "classed b F' (set L) (ord b)"
    by blast
  note lb = lists_only_sizes [OF b(2)]
  have "blocks b L = blocks a L - {start..<start + sz}"
  proof -
    have "blocks a ys \<inter> {start..<start + sz} = {}" "blocks a zs \<inter> {start..<start + sz} = {}"
      using R(1,2) X(2) by fastforce+
    then show ?thesis
      using X(1) by (auto simp: L(1) blocks_simps lb(4) sys)
  qed
  then have "takes a {start..<start + sz} (do { fs \<leftarrow> usub (free_size b) sz; Some (Inr (), b\<lparr>free_size := fs\<rparr>) })"
  proof (rule takes_end [OF rep _ _ b(3), rotated 3])
    show "alist b L" using L(1,2) by (simp add: lb(5) alist_def)
    show "{start..<start + sz} \<subseteq> blocks a L" using X(2) by (auto simp: L(1) blocks_simps)
  qed (use sb b(2) lb(6) in \<open>simp_all add: lists_only_def\<close>)
  with b(1) show ?thesis by blast
qed

text \<open>A fresh entry for the pool.\<close>

lemma create_memory_entry_Some:
  assumes "alist a L" "create_memory_entry a = (Inr n, a1)"
  shows "n < 64" "n \<notin> set L" "a1 = upd_entry n (\<lambda>_. MemoryEntry_new\<lparr>me_enabled := True\<rparr>) a"
proof -
  have "find (\<lambda>i. \<not> ena a i) [0..<64] = Some n" "a1 = upd_entry n (\<lambda>_. MemoryEntry_new\<lparr>me_enabled := True\<rparr>) a"
    using assms(2) by (auto simp: create_memory_entry_def POOL_SIZE_def split: option.splits)
  then show "n < 64" "n \<notin> set L" "a1 = upd_entry n (\<lambda>_. MemoryEntry_new\<lparr>me_enabled := True\<rparr>) a"
    using find_upt_SomeD alistD(4) [OF assms(1)] by blast+
qed

lemma create_memory_entry_full:
  assumes "alist a L"
  shows "(\<exists>n a1. create_memory_entry a = (Inr n, a1)) \<or>
    create_memory_entry a = (Inl NoEntry, a) \<and> set L = {..<64}"
proof (cases "find (\<lambda>i. \<not> ena a i) [0..<64]")
  case None
  then have "\<forall>i < 64. ena a i" by (simp add: find_None_iff)
  then have "set L = {..<64}" using alistD(3,4) [OF assms] by auto
  with None show ?thesis by (simp add: create_memory_entry_def POOL_SIZE_def)
qed (simp add: create_memory_entry_def POOL_SIZE_def)

text \<open>A new entry put into the chain behind another, with its range.\<close>

lemma alist_insert_after:
  assumes a: "alist a (ys @ e # zs)" and n: "n \<notin> set (ys @ e # zs)" "n < 64"
    and "nxs b = (nxs a)(n := first_of zs None, e := Some n)"
    and "pvs b = (case first_of zs None of Some m \<Rightarrow> (pvs a)(m := Some n) | None \<Rightarrow> pvs a)(n := Some e)"
    and "ena b = (ena a)(n := True)" "first_entry b = first_entry a"
  shows "alist b (ys @ e # n # zs)"
proof -
  have "alist b ((ys @ [e]) @ n # zs)"
    by (rule alist_insert [of a]) (use assms alistD(2) [OF a] in \<open>auto simp: fun_upd_twist\<close>)
  then show ?thesis by simp
qed

lemma lists_only_views:
  assumes "lists_only a a'"
  shows "nxs a' = nxs a" "pvs a' = pvs a" "lo a' = lo a" "hi a' = hi a" "ena a' = ena a"
    "first_entry a' = first_entry a" "free_size a' = free_size a"
  using assms by (simp_all add: lists_only_def)

text \<open>One entry changes its range and a new one joins.\<close>

lemma reshape_and_add:
  assumes c: "classed a F S (ord a)" and e: "e \<in> S" and n: "n \<notin> S" "n < 64"
    and v: "\<And>i. lnx b i = lnx a i \<and> lpv b i = lpv a i \<or> i \<notin> S \<and> lnx b i = None \<and> lpv b i = None"
    and fl: "free_list b = free_list a" and g: "\<And>i. i \<in> insert n S \<Longrightarrow> good_range b i"
    and o: "\<And>i. i \<in> S \<Longrightarrow> i \<noteq> e \<Longrightarrow> lo b i = lo a i \<and> hi b i = hi a i"
  shows "\<exists>b1 b2 F'. chain_entry_to_free_list e (Some (bsize a e)) b = Some b1 \<and>
    chain_entry_to_free_list n None b1 = Some b2 \<and> lists_only b b2 \<and> classed b2 F' (insert n S) (ord b2)"
proof -
  have "\<exists>b1 F'. chain_entry_to_free_list e (Some (bsize a e)) b = Some b1 \<and> lists_only b b1 \<and>
    classed b1 F' S (ord b1)"
    by (rule reshape_entry [OF c e]) (use v fl g o in auto)
  then obtain b1 F1 where b1: "chain_entry_to_free_list e (Some (bsize a e)) b = Some b1" "lists_only b b1"
    "classed b1 F1 S (ord b1)" by blast
  have "good_range b1 n" using g lists_only_sizes(3) [OF b1(2)] by simp
  from chain_classed [OF b1(3) n this] obtain b2 F2 where b2: "chain_entry_to_free_list n None b1 = Some b2"
    "lists_only b1 b2" "classed b2 F2 (insert n S) ((ord b1)(n := ord b1 n))"
    by blast
  then have "classed b2 F2 (insert n S) (ord b2)"
    using lists_only_sizes(2) [OF b2(2)] by simp
  with b1 b2 lists_only_trans show ?thesis by blast
qed

lemma take_split:
  assumes rep: "alloc_rep a L F" and e: "e \<in> set L" and n: "create_memory_entry a = (Inr n, a1)"
    and r: "lo a e < start" "start + sz \<le> hi a e" "0 < sz"
  shows "takes a {start..<start + sz} (define_used_entry start sz e a)"
proof -
  obtain ys zs where L: "L = ys @ e # zs" "alist a (ys @ e # zs)" "sorted_blocks a (ys @ e # zs)"
    "classed a F (set (ys @ e # zs)) (ord a)"
    using alloc_repE [OF rep e] .
  note N = create_memory_entry_Some [OF L(2) n]
  note R = sorted_blocks_around [OF L(3)]
  have neq: "n \<noteq> e" "e \<noteq> n" "n \<notin> set ys" "n \<notin> set zs" "e \<notin> set ys" "e \<notin> set zs"
    using N(2) alistD(5) [OF L(2)] by auto
  define a2 where "a2 = upd_entry e (\<lambda>m. m\<lparr>me_start := lo a e, me_end := start - 1\<rparr>)
    (upd_entry n (\<lambda>m. m\<lparr>me_start := start + sz, me_end := hi a e\<rparr>) a1)"
  define b where "b = chain_after_me e n (case first_of zs None of Some m \<Rightarrow> chain_after_me n m a2 | None \<Rightarrow> a2)"
  have z: "m \<noteq> n \<and> m \<noteq> e" if "first_of zs None = Some m" for m
    using neq first_of_in [OF that] by auto
  have bv: "nxs b = (nxs a)(n := first_of zs None, e := Some n)"
    "pvs b = (case first_of zs None of Some m \<Rightarrow> (pvs a)(m := Some n) | None \<Rightarrow> pvs a)(n := Some e)"
    "lo b = (lo a)(n := start + sz)" "hi b = (hi a)(n := hi a e, e := start - 1)"
    "ena b = (ena a)(n := True)" "lnx b = (lnx a)(n := None)" "lpv b = (lpv a)(n := None)"
    "free_list b = free_list a" "free_size b = free_size a" "first_entry b = first_entry a"
    using neq z
    by (auto simp: b_def a2_def N(3) chain_after_me_def MemoryEntry_new_def fun_eq_iff split: option.split)
  have al: "alist b (ys @ e # n # zs)"
    by (rule alist_insert_after [OF L(2) N(2,1)]) (use bv in auto)
  have cong: "sorted_blocks b ys = sorted_blocks a ys" "sorted_blocks b zs = sorted_blocks a zs"
    "blocks b ys = blocks a ys" "blocks b zs = blocks a zs"
    using neq by (auto intro!: sorted_blocks_cong blocks_cong simp: bv)
  have sb: "sorted_blocks b (ys @ e # n # zs)"
    using L(3) r neq by (fastforce simp: sorted_blocks_simps cong bv good_range_def)
  have bb: "blocks b (ys @ e # n # zs) = blocks a L - {start..<start + sz}"
  proof -
    have "blocks a ys \<inter> {start..<start + sz} = {}" "blocks a zs \<inter> {start..<start + sz} = {}"
      using R(1,2) r by fastforce+
    then show ?thesis using r neq by (auto simp: L(1) blocks_simps cong bv)
  qed
  have eq: "set (ys @ e # n # zs) = insert n (set (ys @ e # zs))" by auto
  have "\<exists>b1 b2 F'. chain_entry_to_free_list e (Some (bsize a e)) b = Some b1 \<and>
    chain_entry_to_free_list n None b1 = Some b2 \<and> lists_only b b2 \<and>
    classed b2 F' (set (ys @ e # n # zs)) (ord b2)"
    unfolding eq by (rule reshape_and_add [OF L(4)]) (use N sb neq bv in \<open>auto simp: sorted_blocks_def\<close>)
  then obtain b1 b2 F' where b2: "chain_entry_to_free_list e (Some (bsize a e)) b = Some b1"
    "chain_entry_to_free_list n None b1 = Some b2" "lists_only b b2"
    "classed b2 F' (set (ys @ e # n # zs)) (ord b2)"
    by blast
  note lb = lists_only_sizes [OF b2(3)]
  have "takes a {start..<start + sz} (do { fs \<leftarrow> usub (free_size b2) sz; Some (Inr (), b2\<lparr>free_size := fs\<rparr>) })"
  proof (rule takes_end [OF rep _ _ b2(4)])
    show "alist b2 (ys @ e # n # zs)" "sorted_blocks b2 (ys @ e # n # zs)"
      "blocks b2 (ys @ e # n # zs) = blocks a L - {start..<start + sz}"
      by (simp_all only: lb(4-6) al sb bb)
    show "free_size b2 = free_size a" by (simp only: lists_only_views(7) [OF b2(3)] bv(9))
    show "{start..<start + sz} \<subseteq> blocks a L" using r by (auto simp: L(1) blocks_simps)
  qed
  moreover have "define_used_entry start sz e a =
    do { fs \<leftarrow> usub (free_size b2) sz; Some (Inr (), b2\<lparr>free_size := fs\<rparr>) }"
  proof -
    have lim: "start + sz < usize_limit" using r R(3) by (auto simp: good_range_def)
    have ar: "get_end_address start sz = Some (start + sz - 1)" "uadd start sz = Some (start + sz)"
      "usub start 1 = Some (start - 1)" "\<not> hi a e < start + sz - 1" "hi a e \<noteq> start + sz - 1"
      "hi a e \<noteq> start" "lo a e \<noteq> start"
      using r lim get_end_address_Some [of sz start] by (simp_all add: uadd_def usub_def)
    have st: "get_size a1 e = Some (bsize a e)"
      using good_range_size [OF R(3)] neq by (simp add: N(3) get_size_def)
    have nx: "get_next_entry a2 e = first_of zs None"
      using alist_split(3) [OF L(2)] neq by (simp add: get_next_entry_def a2_def N(3))
    have sr: "set_range n (start + sz) (hi a e) a1 = Some (upd_entry n (\<lambda>m. m\<lparr>me_start := start + sz, me_end := hi a e\<rparr>) a1)"
      "set_range e (lo a e) (start - 1) (upd_entry n (\<lambda>m. m\<lparr>me_start := start + sz, me_end := hi a e\<rparr>) a1) = Some a2"
      using r by (simp_all add: set_range_def assert_that_def a2_def)
    show ?thesis
      by (simp add: define_used_entry_def Let_def ar [simplified] n st sr [simplified] nx b_def [symmetric] b2(1,2))
  qed
  ultimately show ?thesis by simp
qed

text \<open>Taking a part of one block, in all its cases: it fails only when the part is in the
  middle of the block and no entry of the pool is left for the second half.\<close>

lemma used_entry_arith:
  assumes rep: "alloc_rep a L F" and e: "e \<in> set L"
    and r: "lo a e \<le> start" "start + sz \<le> hi a e + 1" "0 < sz"
  shows "good_range a e" "get_size a e = Some (bsize a e)"
    "get_end_address start sz = Some (start + sz - 1)" "uadd start sz = Some (start + sz)"
    "\<not> hi a e < start + sz - 1"
proof -
  show gr: "good_range a e" using alloc_repD(2) [OF rep] e by (simp add: sorted_blocks_def)
  show "get_size a e = Some (bsize a e)" using good_range_size [OF gr] .
  have "start + sz < usize_limit" using r gr by (simp add: good_range_def)
  then show "get_end_address start sz = Some (start + sz - 1)" "uadd start sz = Some (start + sz)"
    "\<not> hi a e < start + sz - 1"
    using r get_end_address_Some [of sz start] by (simp_all add: uadd_def)
qed

lemma take_front:
  assumes rep: "alloc_rep a L F" and e: "e \<in> set L"
    and r: "start = lo a e" "start + sz \<le> hi a e" "0 < sz"
  shows "takes a {start..<start + sz} (define_used_entry start sz e a)"
proof -
  have "lo a e \<le> start" "start + sz \<le> hi a e + 1" using r by auto
  note ar = used_entry_arith [OF rep e this r(3)]
  have X: "lo a e \<le> start + sz" "hi a e \<noteq> start + sz - 1" using r by auto
  have Y: "{lo a e..hi a e} - {start..<start + sz} = {start + sz..hi a e}"
    "{start..<start + sz} \<subseteq> {lo a e..hi a e}"
    using r by auto
  obtain b where b: "chain_entry_to_free_list e (Some (bsize a e))
      (upd_entry e (\<lambda>m. m\<lparr>me_start := start + sz, me_end := hi a e\<rparr>) a) = Some b"
    "takes a {start..<start + sz} (do { fs \<leftarrow> usub (free_size b) sz; Some (Inr (), b\<lparr>free_size := fs\<rparr>) })"
    using take_shrink [OF rep e X(1) r(2) le_refl Y] by blast
  have "set_range e (start + sz) (hi a e) a = Some (upd_entry e (\<lambda>m. m\<lparr>me_start := start + sz, me_end := hi a e\<rparr>) a)"
    using r by (simp add: set_range_def assert_that_def)
  then have "define_used_entry start sz e a = do { fs \<leftarrow> usub (free_size b) sz; Some (Inr (), b\<lparr>free_size := fs\<rparr>) }"
    using X(2) by (simp add: r(1) [symmetric] define_used_entry_def Let_def ar(2-) [simplified] b(1))
  with b(2) show ?thesis by simp
qed

lemma take_rear:
  assumes rep: "alloc_rep a L F" and e: "e \<in> set L"
    and r: "lo a e < start" "start + sz = hi a e + 1" "0 < sz"
  shows "takes a {start..<start + sz} (define_used_entry start sz e a)"
proof -
  have "lo a e \<le> start" "start + sz \<le> hi a e + 1" using r by auto
  note ar = used_entry_arith [OF rep e this r(3)]
  have X: "lo a e \<le> start - 1" "start - 1 \<le> hi a e" "hi a e = start + sz - 1" using r by auto
  have Y: "{lo a e..hi a e} - {start..<start + sz} = {lo a e..start - 1}"
    "{start..<start + sz} \<subseteq> {lo a e..hi a e}"
    using r by auto
  obtain b where b: "chain_entry_to_free_list e (Some (bsize a e))
      (upd_entry e (\<lambda>m. m\<lparr>me_start := lo a e, me_end := start - 1\<rparr>) a) = Some b"
    "takes a {start..<start + sz} (do { fs \<leftarrow> usub (free_size b) sz; Some (Inr (), b\<lparr>free_size := fs\<rparr>) })"
    using take_shrink [OF rep e le_refl X(1,2) Y] by blast
  have sr: "set_range e (lo a e) (start - 1) a = Some (upd_entry e (\<lambda>m. m\<lparr>me_start := lo a e, me_end := start - 1\<rparr>) a)"
    using X by (simp add: set_range_def assert_that_def)
  have us: "usub start 1 = Some (start - 1)" using r(1) by (simp add: usub_def)
  note steps = us [simplified] sr [simplified] b(1) [simplified]
  have "define_used_entry start sz e a = do { fs \<leftarrow> usub (free_size b) sz; Some (Inr (), b\<lparr>free_size := fs\<rparr>) }"
  proof (cases "hi a e = start")
    case True
    then have "sz = 1" using r(2) by simp
    with ar(3) have "get_end_address start (Suc 0) = Some start" by simp
    moreover have "get_size (upd_entry e (\<lambda>m. m\<lparr>me_start := lo a e, me_end := start - 1\<rparr>) a) e = Some (bsize a e - 1)"
      "uadd (bsize a e - 1) 1 = Some (bsize a e)"
      using True X r(1) ar(1) by (auto simp: get_size_def usub_def uadd_def bsize_def good_range_def)
    ultimately show ?thesis
      using True r(1) \<open>sz = 1\<close> by (simp add: define_used_entry_def Let_def ar(2-) [simplified] steps)
  next
    case False
    then show ?thesis
      using r(1) X(3) by (simp add: define_used_entry_def Let_def ar(2-) [simplified] steps)
  qed
  with b(2) show ?thesis by simp
qed

lemma take_inside:
  assumes rep: "alloc_rep a L F" and e: "e \<in> set L"
    and r: "lo a e \<le> start" "start + sz \<le> hi a e + 1" "0 < sz"
  shows "takes a {start..<start + sz} (define_used_entry start sz e a) \<or>
    define_used_entry start sz e a = Some (Inl NoEntry, a) \<and> card (set L) = 64"
proof (cases "start = lo a e \<or> start + sz = hi a e + 1")
  case True
  then have "takes a {start..<start + sz} (define_used_entry start sz e a)"
    using take_whole [OF rep e _ _ r(3)] take_front [OF rep e _ _ r(3)] take_rear [OF rep e _ _ r(3)] r
    by (cases "start = lo a e"; cases "start + sz = hi a e + 1") auto
  then show ?thesis by blast
next
  case False
  then have X: "lo a e < start" "start + sz \<le> hi a e" using r by auto
  note ar = used_entry_arith [OF rep e r]
  show ?thesis
    using create_memory_entry_full [OF alloc_repD(1) [OF rep]]
  proof (elim disjE exE conjE)
    fix n a1 assume "create_memory_entry a = (Inr n, a1)"
    from take_split [OF rep e this X r(3)] show ?thesis by simp
  next
    assume full: "create_memory_entry a = (Inl NoEntry, a)" and "set L = {..<64}"
    moreover have "define_used_entry start sz e a = Some (Inl NoEntry, a)"
      using X r(3) by (auto simp: define_used_entry_def Let_def ar(2-) [simplified] full)
    ultimately show ?thesis by simp
  qed
qed

section \<open>Searching\<close>

lemma containing_loop_find:
  assumes "alist a (ys @ e # zs)" "sorted_blocks a (ys @ e # zs)"
  shows "containing_loop a x e = Some (find (\<lambda>i. lo a i \<le> x \<and> x \<le> hi a i) (e # zs))"
  using assms
proof (induction zs arbitrary: ys e)
  case Nil
  then show ?case
    by (subst containing_loop.simps) (auto simp: alist_split(3) [OF Nil(1)])
next
  case (Cons z zs)
  have IH: "containing_loop a x z = Some (find (\<lambda>i. lo a i \<le> x \<and> x \<le> hi a i) (z # zs))"
    using Cons.IH [of "ys @ [e]" z] Cons.prems by simp
  have none: "find (\<lambda>i. lo a i \<le> x \<and> x \<le> hi a i) (z # zs) = None" if "x < lo a e"
    using that Cons.prems(2) by (fastforce simp: sorted_blocks_simps find_None_iff good_range_def)
  have "lo a e \<le> hi a e"
    using sorted_blocks_around(3) [OF Cons.prems(2)] by (simp add: good_range_def)
  then show ?case
    using none
    by (subst containing_loop.simps)
      (auto simp: alist_split(3) [OF Cons.prems(1)] IH simp del: find.simps(2) simp: find.simps(2) [of _ e])
qed

lemma search_containing_find:
  assumes "alloc_rep a L F"
  shows "search_entry_containing_address_mut a x = Some (find (\<lambda>i. lo a i \<le> x \<and> x \<le> hi a i) L)"
proof (cases L)
  case Nil
  then show ?thesis
    using alist_first [OF alloc_repD(1) [OF assms]] by (simp add: search_entry_containing_address_mut_def)
next
  case (Cons e zs)
  then show ?thesis
    using alist_first [OF alloc_repD(1) [OF assms]] alloc_repD(1,2) [OF assms]
      containing_loop_find [of a "[]" e zs x]
    by (simp add: search_entry_containing_address_mut_def)
qed

text \<open>A region that is free lies in one block, since blocks are never adjacent.\<close>

lemma free_region_in_block:
  assumes rep: "alloc_rep a L F" and "0 < n" "{s..<s + n} \<subseteq> free_set a"
  shows "\<exists>e \<in> set L. lo a e \<le> s \<and> s + n \<le> hi a e + 1"
  using assms(2,3)
proof (induction n)
  case (Suc n)
  note A = alloc_repD [OF rep]
  show ?case
  proof (cases "n = 0")
    case True
    with Suc.prems(2) A(5) show ?thesis by (auto simp: blocks_def)
  next
    case False
    have "{s..<s + n} \<subseteq> free_set a" using Suc.prems(2) by auto
    with Suc.IH False obtain e where e: "e \<in> set L" "lo a e \<le> s" "s + n \<le> hi a e + 1" by auto
    obtain ys zs where L: "L = ys @ e # zs" "sorted_blocks a (ys @ e # zs)"
      using alloc_repE [OF rep e(1)] by metis
    have "s + n \<in> blocks a L" using Suc.prems(2) A(5) by auto
    then have "s + n \<in> blocks a ys \<or> s + n \<in> {lo a e..hi a e} \<or> s + n \<in> blocks a zs"
      by (auto simp: L(1) blocks_simps)
    then have "s + n \<le> hi a e"
      using sorted_blocks_around(1,2) [OF L(2), of "s + n"] e by auto
    with e show ?thesis by auto
  qed
qed simp

section \<open>Allocating\<close>

definition round_up :: "nat \<Rightarrow> nat \<Rightarrow> nat" where
  "round_up x k = (if x = 0 then 0 else ((x - 1) div 2 ^ k + 1) * 2 ^ k)"

lemma round_up_least:
  "x \<le> round_up x k" "2 ^ k dvd round_up x k" "2 ^ k dvd y \<Longrightarrow> x \<le> y \<Longrightarrow> round_up x k \<le> y"
  "round_up x k < x + 2 ^ k" "round_up x 0 = x"
proof -
  have e: "(x - 1) div 2 ^ k * 2 ^ k + (x - 1) mod 2 ^ k = x - 1" by (rule div_mult_mod_eq)
  have m: "(x - 1) mod 2 ^ k < 2 ^ k" by simp
  have u: "round_up x k = (x - 1) div 2 ^ k * 2 ^ k + 2 ^ k" if "x \<noteq> 0"
    using that by (simp add: round_up_def)
  show "x \<le> round_up x k"
    using e m u by (cases "x = 0") (simp, linarith)
  show "round_up x k < x + 2 ^ k"
    using e m u by (cases "x = 0") (simp add: round_up_def, linarith)
  show "2 ^ k dvd round_up x k" "round_up x 0 = x" by (simp_all add: round_up_def)
  assume "2 ^ k dvd y" "x \<le> y"
  then obtain q where q: "y = q * 2 ^ k" by (metis dvd_def mult.commute)
  show "round_up x k \<le> y"
  proof (cases "x = 0")
    case False
    then have "(x - 1) div 2 ^ k < q"
      using q \<open>x \<le> y\<close> by (simp add: less_mult_imp_div_less)
    then have "(x - 1) div 2 ^ k + 1 \<le> q" by simp
    then show ?thesis unfolding q round_up_def using False by (simp only: if_False mult_le_mono1)
  qed (simp add: round_up_def)
qed

lemma align_available:
  assumes "0 < sz" "k < 64" "s \<le> lst" "lst + 2 ^ k < usize_limit"
  shows "\<exists>n. align_address_and_available_size s (lst - s + 1) k = Some (round_up s k, n) \<and>
    (sz \<le> n \<longleftrightarrow> round_up s k + sz \<le> lst + 1)"
proof (cases "s = 0")
  case False
  let ?A = "round_up s k"
  have lt: "s - 1 < 2 ^ 64" using assms by (simp add: usize_limit_def)
  have A: "clear_low (s - 1) (2 ^ k) + 2 ^ k = ?A"
    using clear_low_power2 [OF lt assms(2)] False by (simp add: round_up_def)
  have B: "s \<le> ?A" "?A < usize_limit" using round_up_least(1,4) [of s k] assms(3,4) by auto
  have "align_address_and_available_size s (lst - s + 1) k =
    Some (if lst - s + 1 > ?A - s then (?A, lst - s + 1 - (?A - s)) else (?A, 0))"
    using False assms(2) A B by (simp add: align_address_and_available_size_def ushl1_def uadd_def usub_def)
  then show ?thesis using B(1) assms(1,3) by auto
qed (use assms in \<open>auto simp: align_address_and_available_size_def round_up_def\<close>)

text \<open>The address an entry offers and whether the request fits there.\<close>

definition fits :: "usize \<Rightarrow> nat \<Rightarrow> usize \<Rightarrow> alloc \<Rightarrow> nat \<Rightarrow> bool" where
  "fits sz align_order limit a e \<longleftrightarrow>
     round_up (lo a e) align_order + sz \<le> min (hi a e + 1) limit"

lemma allocate_scan_step:
  assumes g: "good_range a e" "hi a e + 2 ^ k < usize_limit" "0 < sz" "k < 64" "0 < limit"
  shows "allocate_scan sz k limit a (Some e) =
    (if fits sz k limit a e then Some (Some (e, round_up (lo a e) k))
     else allocate_scan sz k limit a (follow (lnx a e)))"
proof -
  let ?l = "min (hi a e) (limit - 1)"
  have l1: "?l + 1 = min (hi a e + 1) limit" using g(5) by auto
  show ?thesis
  proof (cases "lo a e \<le> ?l \<and> sz \<le> ?l - lo a e + 1")
    case False
    then have "\<not> fits sz k limit a e"
      using round_up_least(1) [of "lo a e" k] l1 g(3) by (auto simp: fits_def)
    with False g(1,3) show ?thesis
      by (subst allocate_scan.simps) (auto simp: uadd_def good_range_def Let_def)
  next
    case True
    have "?l - lo a e + 1 < usize_limit" using g(1) by (auto simp: good_range_def)
    then have u: "uadd (?l - lo a e) 1 = Some (?l - lo a e + 1)" by (simp add: uadd_def)
    have "?l + 2 ^ k < usize_limit" using g(2) by auto
    from align_available [OF g(3,4) conjunct1 [OF True] this] obtain n where
      n: "align_address_and_available_size (lo a e) (?l - lo a e + 1) k = Some (round_up (lo a e) k, n)"
      "sz \<le> n \<longleftrightarrow> round_up (lo a e) k + sz \<le> ?l + 1" by blast
    show ?thesis
    proof (cases "k = 0")
      case True0: True
      have "lo a e + sz \<le> min (hi a e + 1) limit" using l1 True by linarith
      then have "fits sz k limit a e"
        using True0 by (simp add: fits_def round_up_least(5))
      then show ?thesis
        using True True0 u by (subst allocate_scan.simps) (simp add: Let_def round_up_least(5))
    next
      case False
      have "fits sz k limit a e \<longleftrightarrow> \<not> n < sz"
        unfolding fits_def l1 [symmetric] using n(2) by linarith
      then show ?thesis
        using True False u n(1) by (subst allocate_scan.simps) (simp add: Let_def)
    qed
  qed
qed

lemma allocate_scan_find:
  assumes f: "flist a F" and j: "j < 12" and F: "F j = ys @ xs" and p: "0 < sz" "k < 64" "0 < limit"
    and g: "\<And>e. e \<in> set xs \<Longrightarrow> hi a e + 2 ^ k < usize_limit"
  shows "allocate_scan sz k limit a (first_of xs None) =
    Some (map_option (\<lambda>e. (e, round_up (lo a e) k)) (find (fits sz k limit a) xs))"
  using F g
proof (induction xs arbitrary: ys)
  case Nil
  then show ?case by (subst allocate_scan.simps) simp
next
  case (Cons e xs)
  note D = flistD [OF f j]
  have ge: "good_range a e" using D(5) Cons.prems(1) by auto
  have nx: "lnx a e = first_of xs None" using dll_links(1) [of "lnx a" "lpv a" ys e xs] D(1) Cons.prems(1) by simp
  have "n < 64" if "first_of xs None = Some n" for n
    using D(4) [of n] first_of_in [OF that] Cons.prems(1) by simp
  then have "follow (lnx a e) = first_of xs None" by (simp add: nx follow_bounded)
  moreover have "allocate_scan sz k limit a (first_of xs None) =
    Some (map_option (\<lambda>e. (e, round_up (lo a e) k)) (find (fits sz k limit a) xs))"
    using Cons.IH [of "ys @ [e]"] Cons.prems by simp
  ultimately show ?case
    using allocate_scan_step [OF ge _ p(1,2,3)] Cons.prems(2) by simp
qed

lemma allocate_orders_find:
  assumes f: "flist a F" and js: "\<And>j. j \<in> set js \<Longrightarrow> j < 12" and p: "0 < sz" "k < 64" "0 < limit"
    and g: "\<And>e. listed F e \<Longrightarrow> hi a e + 2 ^ k < usize_limit"
  shows "allocate_orders sz k limit a js =
    Some (Inr (map_option (\<lambda>e. (e, round_up (lo a e) k)) (find (fits sz k limit a) (concat (map F js)))))"
  using js
proof (induction js)
  case (Cons j js)
  have j: "j < 12" using Cons.prems by simp
  note D = flistD [OF f j]
  have s: "allocate_scan sz k limit a (first_of (F j) None) =
    Some (map_option (\<lambda>e. (e, round_up (lo a e) k)) (find (fits sz k limit a) (F j)))"
    by (rule allocate_scan_find [OF f j, of "[]"]) (use g j p in \<open>auto simp: listed_def\<close>)
  have fa: "find P (xs @ ys) = (case find P xs of None \<Rightarrow> find P ys | Some z \<Rightarrow> Some z)" for P xs ys
    by (induction xs) auto
  show ?case
  proof (cases "F j")
    case Nil
    then show ?thesis using Cons D(2,3) j by simp
  next
    case (Cons x xs)
    then have "get_memory_entry x = Inr x" using D(4) [of x] by (simp add: get_memory_entry_def POOL_SIZE_def)
    then show ?thesis
      using Cons.IH Cons.prems s D(2,3) j
      by (cases "find (fits sz k limit a) (F j)") (auto simp: \<open>F j = x # xs\<close> fa split: if_splits)
  qed
qed simp

definition pool_full :: "alloc \<Rightarrow> bool" where
  "pool_full a \<longleftrightarrow> (\<forall>i < 64. me_enabled (pool a i))"

lemma card_pool_full: "alist a L \<Longrightarrow> card (set L) = 64 \<Longrightarrow> pool_full a"
proof -
  assume a: "alist a L" and c: "card (set L) = 64"
  have "set L = {..<64}"
    by (rule card_subset_eq) (use a c in \<open>auto simp: alist_def\<close>)
  with a show "pool_full a" by (auto simp: pool_full_def alist_def)
qed

text \<open>What an allocation promises: on success a region of the size asked for that was free,
  is aligned and below the limit, and nothing else changes; on failure nothing changes, and
  memory is only refused when there is none that would do.\<close>

definition allocated :: "alloc \<Rightarrow> usize \<Rightarrow> nat \<Rightarrow> usize \<Rightarrow> (merror + usize) \<Rightarrow> alloc \<Rightarrow> bool" where
  "allocated a sz align_order limit r a' \<longleftrightarrow>
     (case r of
        Inr x \<Rightarrow> 0 < sz \<and> 2 ^ align_order dvd x \<and> x + sz \<le> limit \<and> {x..<x + sz} \<subseteq> free_set a \<and>
          alloc_inv a' \<and> free_set a' = free_set a - {x..<x + sz}
      | Inl err \<Rightarrow> a' = a \<and>
          (err = InvalidRequest \<and> sz = 0 \<or>
           err = NoMemory \<and> (\<forall>x. 2 ^ align_order dvd x \<longrightarrow> x + sz \<le> limit \<longrightarrow> \<not> {x..<x + sz} \<subseteq> free_set a) \<or>
           err = NoEntry \<and> pool_full a))"

lemma fits_complete:
  assumes rep: "alloc_rep a L F" and x: "0 < sz" "2 ^ k dvd x" "x + sz \<le> limit" "{x..<x + sz} \<subseteq> free_set a"
  shows "\<exists>e \<in> set L. fits sz k limit a e \<and> size_to_page_order sz \<le> ord a e"
proof -
  obtain e where e: "e \<in> set L" "lo a e \<le> x" "x + sz \<le> hi a e + 1"
    using free_region_in_block [OF rep x(1,4)] by auto
  have "sz \<le> bsize a e" using e by (auto simp: bsize_def)
  moreover have "fits sz k limit a e"
    using round_up_least(3) [OF x(2) e(2)] e(3) x(3) by (simp add: fits_def)
  ultimately show ?thesis
    using e(1) size_to_page_order_mono by (auto simp: ord_def)
qed

lemma allocate_choice:
  assumes rep: "alloc_rep a L F" and p: "0 < sz" "align_order < 64" "0 < limit"
    and top: "\<forall>x \<in> free_set a. x + 2 ^ align_order < usize_limit"
  shows "allocate_orders sz align_order limit a [size_to_page_order sz..<12] =
    Some (Inr (map_option (\<lambda>e. (e, round_up (lo a e) align_order))
      (find (fits sz align_order limit a) (concat (map F [size_to_page_order sz..<12])))))"
proof -
  note A = alloc_repD [OF rep]
  have f: "flist a F" using A(3) by (simp add: classed_def)
  have g: "hi a e + 2 ^ align_order < usize_limit" if "listed F e" for e
  proof -
    from that have "e \<in> set L" using A(3) by (auto simp: listed_def classed_def)
    then have "hi a e \<in> free_set a" using A(2,5) by (auto simp: blocks_def sorted_blocks_def good_range_def)
    with top show ?thesis by blast
  qed
  show ?thesis by (rule allocate_orders_find [OF f _ p g]) auto
qed

lemma allocate_with_address_limit_correct:
  assumes inv: "alloc_inv a" and p: "align_order < 64" "0 < limit"
    and top: "\<forall>x \<in> free_set a. x + 2 ^ align_order < usize_limit"
  shows "\<exists>r a'. allocate_with_address_limit sz align_order limit a = Some (r, a') \<and>
    allocated a sz align_order limit r a'"
proof -
  obtain L F where rep: "alloc_rep a L F" using inv by (auto simp: alloc_inv_def)
  note A = alloc_repD [OF rep]
  have cl: "set (F j) = {i \<in> set L. ord a i = j}" if "j < 12" for j
    using A(3) that by (auto simp: classed_def)
  let ?c = "find (fits sz align_order limit a) (concat (map F [size_to_page_order sz..<12]))"
  consider "sz = 0 \<or> free_size a < sz" | (none) "0 < sz" "\<not> free_size a < sz" "?c = None"
    | (some) e where "0 < sz" "\<not> free_size a < sz" "?c = Some e"
    by (cases ?c) auto
  then show ?thesis
  proof cases
    case 1
    have "\<not> {x..<x + sz} \<subseteq> free_set a" if "free_size a < sz" for x
      using that A(4,5) card_mono [OF finite_blocks, of "{x..<x + sz}" a L] by auto
    with 1 show ?thesis
      by (auto simp: allocate_with_address_limit_def allocated_def)
  next
    case none
    have "\<not> {x..<x + sz} \<subseteq> free_set a" if x: "2 ^ align_order dvd x" "x + sz \<le> limit" for x
    proof
      assume "{x..<x + sz} \<subseteq> free_set a"
      from fits_complete [OF rep none(1) x this] obtain e where
        e: "e \<in> set L" "fits sz align_order limit a e" "size_to_page_order sz \<le> ord a e" by blast
      then have "e \<in> set (concat (map F [size_to_page_order sz..<12]))"
        using cl [of "ord a e"] by (auto intro!: bexI [of _ "ord a e"])
      with none(3) e(2) show False by (auto simp: find_None_iff)
    qed
    with none allocate_choice [OF rep none(1) p top] show ?thesis
      by (auto simp: allocate_with_address_limit_def allocated_def NUM_OF_FREE_LIST_def)
  next
    case some
    let ?x = "round_up (lo a e) align_order"
    from some(3) have "e \<in> set (concat (map F [size_to_page_order sz..<12]))"
      and fit: "fits sz align_order limit a e"
      by (auto simp: find_Some_iff set_conv_nth)
    then have e: "e \<in> set L" using cl by auto
    have b: "lo a e \<le> ?x" "?x + sz \<le> hi a e + 1" "?x + sz \<le> limit"
      using fit round_up_least(1) by (auto simp: fits_def)
    have "{?x..<?x + sz} \<subseteq> free_set a" using b e by (auto simp: A(5) blocks_def)
    moreover have "allocate_with_address_limit sz align_order limit a = do {
        (r, a) \<leftarrow> define_used_entry ?x sz e a;
        (case r of Inl err \<Rightarrow> Some (Inl err, a) | Inr _ \<Rightarrow> Some (Inr ?x, a)) }"
      using some allocate_choice [OF rep some(1) p top]
      by (simp add: allocate_with_address_limit_def define_used_memory_def
          define_used_memory_unaligned_def NUM_OF_FREE_LIST_def)
    ultimately show ?thesis
      using take_inside [OF rep e b(1,2) some(1)] card_pool_full [OF A(1)] b(3) some(1) round_up_least(2)
      by (auto simp: takes_def allocated_def)
  qed
qed

end
