(* ===== verification/Memory_Allocator_Free.thy ===== *)
theory Memory_Allocator_Free
  imports Memory_Allocator_Inv
begin

text \<open>
  Giving memory back: a region of used bytes joins the free blocks, is merged with the
  blocks that touch it, and nothing else changes.
\<close>

section \<open>The blocks below and above a region\<close>

definition around :: "alloc \<Rightarrow> usize \<Rightarrow> usize \<Rightarrow> nat list \<Rightarrow> nat list \<Rightarrow> bool" where
  "around a start sz ys zs \<longleftrightarrow> (\<forall>i \<in> set ys. hi a i < start) \<and> (\<forall>i \<in> set zs. start + sz \<le> lo a i)"

lemma around_exists:
  assumes rep: "alloc_rep a L F" and "0 < sz" "{start..<start + sz} \<inter> free_set a = {}"
  shows "\<exists>ys zs. L = ys @ zs \<and> around a start sz ys zs"
proof -
  note A = alloc_repD [OF rep]
  let ?P = "\<lambda>i. lo a i < start"
  have sep: "hi a i < start \<or> start + sz \<le> lo a i" if "i \<in> set L" for i
  proof (rule ccontr)
    assume c: "\<not> ?thesis"
    have "lo a i \<le> hi a i" using A(2) that by (auto simp: sorted_blocks_def good_range_def)
    with c assms(2) have "max (lo a i) start \<in> {lo a i..hi a i} \<inter> {start..<start + sz}" by auto
    with that assms(3) show False unfolding A(5) blocks_def by blast
  qed
  have "hi a i < start" if "i \<in> set (takeWhile ?P L)" for i
    using that sep [of i] set_takeWhileD [OF that] assms(2) by auto
  moreover have "start + sz \<le> lo a i" if i: "i \<in> set (dropWhile ?P L)" for i
  proof (cases "dropWhile ?P L")
    case (Cons z zs)
    have "\<not> ?P z" using hd_dropWhile [of ?P L] Cons by auto
    have "sorted_blocks a (takeWhile ?P L @ z # zs)"
      using A(2) takeWhile_dropWhile_id [of ?P L] Cons by simp
    then have "lo a z \<le> lo a i" using i Cons by (fastforce simp: sorted_blocks_simps good_range_def)
    with \<open>\<not> ?P z\<close> sep [of i] i have "start \<le> lo a i" "start + sz \<le> lo a i \<or> hi a i < start"
      using set_dropWhileD by fastforce+
    moreover have "lo a i \<le> hi a i"
      using A(2) set_dropWhileD [OF i] by (auto simp: sorted_blocks_def good_range_def)
    ultimately show ?thesis by auto
  next
    case Nil
    with i show ?thesis by (simp only: Nil list.set empty_iff)
  qed
  ultimately show ?thesis
    by (intro exI [of _ "takeWhile ?P L"] exI [of _ "dropWhile ?P L"]) (simp add: around_def)
qed

lemma previous_loop_last:
  assumes "alist a (ys1 @ ys2 @ zs)" "\<forall>i \<in> set ys2. lo a i < start \<and> hi a i < start" "\<forall>i \<in> set zs. start \<le> lo a i"
    "first_of (ys2 @ zs) None = Some e"
  shows "previous_loop a start e = Some (last_of None (ys1 @ ys2))"
  using assms
proof (induction ys2 arbitrary: ys1 e)
  case Nil
  then obtain zs' where z: "zs = e # zs'" by (cases zs) auto
  with Nil have "get_prev_entry a e = last_of None ys1" using alist_split(4) [of a ys1 e zs'] by simp
  with Nil z show ?case by (subst previous_loop.simps) auto
next
  case (Cons y ys2)
  then have e: "e = y" by simp
  have al: "alist a (ys1 @ y # (ys2 @ zs))" using Cons.prems(1) by simp
  show ?case
  proof (cases "first_of (ys2 @ zs) None")
    case None
    then have "ys2 = []" "zs = []" by (cases ys2; cases zs; simp)+
    then show ?thesis
      using Cons.prems alist_split(3) [OF al] e by (subst previous_loop.simps) auto
  next
    case (Some t)
    have "previous_loop a start t = Some (last_of None ((ys1 @ [y]) @ ys2))"
      by (rule Cons.IH) (use Cons.prems Some in auto)
    then show ?thesis
      using Cons.prems alist_split(3) [OF al] e Some by (subst previous_loop.simps) auto
  qed
qed

lemma free_anchor_around:
  assumes rep: "alloc_rep a (ys @ zs) F" and ar: "around a start sz ys zs" and ne: "ys @ zs \<noteq> []"
  shows "free_anchor start a = Some (Inr (if ys = [] then hd zs else last ys))"
proof -
  note A = alloc_repD [OF rep]
  obtain e where e: "first_of (ys @ zs) None = Some e" using ne by (cases ys; cases zs) auto
  have e64: "e < 64" using alistD(3) [OF A(1)] first_of_in [OF e] by auto
  have fe: "first_entry a = Some e" using alistD(2) [OF A(1)] e by simp
  have "lo a i \<le> hi a i" if "i \<in> set ys" for i
    using A(2) that by (auto simp: sorted_blocks_def good_range_def)
  then have "\<forall>i \<in> set ys. lo a i < start \<and> hi a i < start"
    using ar unfolding around_def by (meson le_less_trans)
  then have "previous_loop a start e = Some (last_of None ys)"
    using previous_loop_last [of a "[]" ys zs start e] A(1) ar e by (fastforce simp: around_def)
  then have "search_entry_previous_address_mut a start = Some (last_of None ys)"
    using e64 fe by (simp add: search_entry_previous_address_mut_def)
  then show ?thesis
    using e e64 fe by (cases ys; cases zs) (auto simp: free_anchor_def last_of_def get_memory_entry_def POOL_SIZE_def)
qed

section \<open>The new set of blocks\<close>

lemma same_size_chain: "good_range a e \<Longrightarrow> chain_entry_to_free_list e (Some (bsize a e)) a = Some a"
  by (simp add: chain_entry_to_free_list_def good_range_size)

lemma free_size_room:
  assumes rep: "alloc_rep a L F" and d: "{start..<start + sz} \<inter> free_set a = {}" "start + sz < usize_limit"
  shows "uadd (free_size a) sz = Some (free_size a + sz)"
proof -
  note A = alloc_repD [OF rep]
  have "blocks a L \<union> {start..<start + sz} \<subseteq> {..<usize_limit - 1}"
    using d(2) A(2) by (fastforce simp: blocks_def sorted_blocks_def good_range_def)
  then have "card (blocks a L \<union> {start..<start + sz}) \<le> usize_limit - 1"
    using card_mono [of "{..<usize_limit - 1}"] by simp
  moreover have "card (blocks a L \<union> {start..<start + sz}) = free_size a + sz"
    using d(1) A(4,5) by (simp add: card_Un_disjoint inf_commute)
  ultimately show ?thesis by (simp add: uadd_def usize_limit_def)
qed

text \<open>One block grows.\<close>

lemma grow_one_end:
  assumes rep: "alloc_rep a L F" and x: "x \<in> set L"
    and b: "b = upd_entry x (\<lambda>m. m\<lparr>me_start := s, me_end := t\<rparr>) a"
    and sb: "sorted_blocks b L" and bl: "{s..t} = {lo a x..hi a x} \<union> {start..<start + sz}"
    and d: "{start..<start + sz} \<inter> free_set a = {}"
    and c: "lists_only b c" "classed c F' (set L) (ord c)"
  shows "gives a {start..<start + sz} (Some (Inr (), c\<lparr>free_size := free_size a + sz\<rparr>))"
proof (rule gives_end [OF rep])
  note A = alloc_repD [OF rep] and v = lists_only_views [OF c(1)]
  let ?c = "c\<lparr>free_size := free_size a + sz\<rparr>"
  show "alist ?c L" using A(1) v b by (simp add: alist_def)
  show "sorted_blocks ?c L" using sb sorted_blocks_cong [of L c b] v by simp
  show "classed ?c F' (set L) (ord ?c)" using c(2) by simp
  obtain ys zs where L: "L = ys @ x # zs" "distinct L" using x alistD(5) [OF A(1)] by (metis split_list)
  then have "blocks c ys = blocks a ys" "blocks c zs = blocks a zs" "lo c x = s" "hi c x = t"
    using b v(3,4) by (auto intro!: blocks_cong)
  then show "blocks ?c L = blocks a L \<union> {start..<start + sz}"
    using bl by (auto simp: L(1) blocks_simps)
  show "{start..<start + sz} \<inter> blocks a L = {}" using d A(5) by simp
qed simp

lemma grow_one:
  assumes rep: "alloc_rep a L F" and x: "x \<in> set L"
    and b: "b = upd_entry x (\<lambda>m. m\<lparr>me_start := s, me_end := t\<rparr>) a"
    and sb: "sorted_blocks b L" and bl: "{s..t} = {lo a x..hi a x} \<union> {start..<start + sz}"
    and d: "{start..<start + sz} \<inter> free_set a = {}"
  shows "\<exists>c. chain_entry_to_free_list x (Some (bsize a x)) b = Some c \<and> lists_only b c \<and>
      gives a {start..<start + sz} (Some (Inr (), c\<lparr>free_size := free_size a + sz\<rparr>))"
    and "\<exists>c. chain_entry_to_free_list x (Some (bsize a x)) (b\<lparr>free_size := free_size a + sz\<rparr>) = Some c \<and>
      gives a {start..<start + sz} (Some (Inr (), c))"
proof -
  note A = alloc_repD [OF rep] and fin = grow_one_end [OF rep x b sb bl d]
  have good: "good_range b i" if "i \<in> set L" for i using sb that by (simp add: sorted_blocks_def)
  have "\<exists>c F'. chain_entry_to_free_list x (Some (bsize a x)) b = Some c \<and> lists_only b c \<and>
    classed c F' (set L) (ord c)"
    by (rule reshape_entry [OF A(3) x]) (use b good in auto)
  then obtain c F' where c: "chain_entry_to_free_list x (Some (bsize a x)) b = Some c" "lists_only b c"
    "classed c F' (set L) (ord c)" by blast
  from c(1,2) fin [OF c(2,3)]
  show "\<exists>c. chain_entry_to_free_list x (Some (bsize a x)) b = Some c \<and> lists_only b c \<and>
      gives a {start..<start + sz} (Some (Inr (), c\<lparr>free_size := free_size a + sz\<rparr>))"
    by blast
  let ?b = "b\<lparr>free_size := free_size a + sz\<rparr>"
  have "\<exists>c F'. chain_entry_to_free_list x (Some (bsize a x)) ?b = Some c \<and> lists_only ?b c \<and>
    classed c F' (set L) (ord c)"
    by (rule reshape_entry [OF A(3) x]) (use b good in auto)
  then obtain c F' where c: "chain_entry_to_free_list x (Some (bsize a x)) ?b = Some c" "lists_only ?b c"
    "classed c F' (set L) (ord c)" by blast
  have l: "lists_only b (c\<lparr>free_size := free_size b\<rparr>)" using c(2) by (simp add: lists_only_def)
  have "c\<lparr>free_size := free_size a + sz\<rparr> = c" using lists_only_views(7) [OF c(2)] by simp
  with fin [OF l, of F'] c(1,3) show
    "\<exists>c. chain_entry_to_free_list x (Some (bsize a x)) ?b = Some c \<and>
      gives a {start..<start + sz} (Some (Inr (), c))"
    by simp
qed

text \<open>A new block joins.\<close>

lemma add_new:
  assumes rep: "alloc_rep a (ys @ zs) F" and n: "n < 64" "n \<notin> set (ys @ zs)"
    and gap: "\<forall>i \<in> set ys. hi a i + 1 < start" "\<forall>i \<in> set zs. start + sz < lo a i" "0 < sz" "start + sz < usize_limit"
    and b: "nxs b = (case last_of None ys of Some p \<Rightarrow> (nxs a)(p := Some n) | None \<Rightarrow> nxs a)(n := first_of zs None)"
      "pvs b = (case first_of zs None of Some m \<Rightarrow> (pvs a)(m := Some n) | None \<Rightarrow> pvs a)(n := last_of None ys)"
      "ena b = (ena a)(n := True)" "first_entry b = first_of (ys @ n # zs) None"
      "lo b = (lo a)(n := start)" "hi b = (hi a)(n := start + sz - 1)"
      "lnx b = (lnx a)(n := None)" "lpv b = (lpv a)(n := None)"
      "free_list b = free_list a" "free_size b = free_size a + sz"
  shows "\<exists>c. chain_entry_to_free_list n None b = Some c \<and> gives a {start..<start + sz} (Some (Inr (), c))"
proof -
  note A = alloc_repD [OF rep]
  have al: "alist b (ys @ n # zs)" using alist_insert [OF A(1) n(2,1) b(1-4)] .
  have same: "lo b i = lo a i \<and> hi b i = hi a i" if "i \<in> set (ys @ zs)" for i using that n b(5,6) by auto
  have cong: "sorted_blocks b ys = sorted_blocks a ys" "sorted_blocks b zs = sorted_blocks a zs"
    "blocks b ys = blocks a ys" "blocks b zs = blocks a zs"
    using same by (auto intro!: sorted_blocks_cong blocks_cong)
  have gn: "good_range b n" using gap(3,4) b(5,6) by (simp add: good_range_def)
  have sb: "sorted_blocks b (ys @ n # zs)"
    using A(2) gap same gn b(5,6) by (auto simp: sorted_blocks_simps cong)
  have "good_range b i" if "i \<in> set (ys @ zs)" for i using sb that by (auto simp: sorted_blocks_def)
  then have cl: "classed b F (set (ys @ zs)) (ord a)"
    by (intro classed_frame [OF A(3)]) (use b(7-9) n in auto)
  from chain_classed [OF this n(2,1) gn] obtain c F' where
    c: "chain_entry_to_free_list n None b = Some c" "lists_only b c"
    "classed c F' (insert n (set (ys @ zs))) ((ord a)(n := ord b n))" by blast
  have o: "((ord a)(n := ord b n)) i = ord c i" if "i \<in> insert n (set (ys @ zs))" for i
    using that same [of i] n(2) lists_only_sizes(2) [OF c(2)] by (auto simp: ord_def bsize_def)
  have eq: "set (ys @ n # zs) = insert n (set (ys @ zs))" by auto
  have c3: "classed c F' (set (ys @ n # zs)) (ord c)"
    unfolding eq by (rule iffD1 [OF classed_cong c(3)]) (fact o)
  have disj: "{start..<start + sz} \<inter> blocks a (ys @ zs) = {}"
    using gap(1,2) by (fastforce simp: blocks_simps blocks_def)
  have "gives a {start..<start + sz} (Some (Inr (), c))"
  proof (rule gives_end [OF rep _ _ c3 _ _ disj])
    show "alist c (ys @ n # zs)" "sorted_blocks c (ys @ n # zs)"
      by (simp_all only: lists_only_sizes [OF c(2)] al sb)
    show "free_size c = free_size a + sz" using lists_only_views(7) [OF c(2)] b(10) by simp
    show "blocks c (ys @ n # zs) = blocks a (ys @ zs) \<union> {start..<start + sz}"
      using gap(3) by (auto simp: lists_only_sizes(4) [OF c(2)] blocks_simps cong b(5,6))
  qed
  with c(1) show ?thesis by blast
qed

text \<open>Two blocks and the region between them become one.\<close>

lemma merge_lists:
  assumes c: "classed a F S (ord a)" and x: "x \<in> S" and z: "z \<in> S" "z \<noteq> x"
    and r: "lo a x \<le> hi a z" "start \<le> hi a z" "lo a x \<le> t" "hi a z + 1 < usize_limit" "t \<le> hi a z"
    and b: "b = upd_entry z (\<lambda>m. m\<lparr>me_start := start, me_end := hi a z\<rparr>)
      (upd_entry x (\<lambda>m. m\<lparr>me_start := lo a x, me_end := t\<rparr>) a)"
  shows "\<exists>c1 c3 F3. chain_entry_to_free_list z (Some (bsize a z)) b = Some c1 \<and> lists_only b c1 \<and>
    unchain_entry_from_free_list z (upd_entry x (\<lambda>m. m\<lparr>me_start := lo a x, me_end := hi a z\<rparr>) c1) = Some c3 \<and>
    lists_only (upd_entry x (\<lambda>m. m\<lparr>me_start := lo a x, me_end := hi a z\<rparr>) c1) c3 \<and>
    classed c3 F3 (S - {z}) (ord a)"
proof -
  have gb: "good_range b i" if "i \<in> S" for i
    using classed_member [OF c that] r by (auto simp: b good_range_def)
  have cb: "classed b F S (ord a)" by (rule classed_frame [OF c]) (use b gb in auto)
  obtain c1 F1 where c1: "chain_entry_to_free_list z (Some (bsize a z)) b = Some c1" "lists_only b c1"
    "classed c1 F1 S ((ord a)(z := ord b z))"
    using rechain_classed [OF cb z(1), of "bsize a z"] by (auto simp: ord_def)
  let ?c2 = "upd_entry x (\<lambda>m. m\<lparr>me_start := lo a x, me_end := hi a z\<rparr>) c1"
  have lh: "lo c1 = lo b" "hi c1 = hi b" using lists_only_views [OF c1(2)] by auto
  have c2: "classed ?c2 F1 S ((ord a)(z := ord b z))"
    by (rule classed_frame [OF c1(3)]) (use gb r lh in \<open>auto simp: good_range_def\<close>)
  have "((ord a)(z := ord b z)) z = ord ?c2 z" using z(2) lh by (simp add: ord_def bsize_def)
  from unchain_classed [OF c2 z(1) this] obtain c3 F3 where
    c3: "unchain_entry_from_free_list z ?c2 = Some c3" "lists_only ?c2 c3"
    "classed c3 F3 (S - {z}) ((ord a)(z := ord b z))" by blast
  have "classed c3 F3 (S - {z}) (ord a)" by (rule iffD1 [OF classed_cong c3(3)]) simp
  with c1 c3 show ?thesis by blast
qed

lemma merge_blocks:
  assumes sb: "sorted_blocks a (ys @ x # z # zs)" and r: "hi a x + 1 = start" "start + sz = lo a z" "0 < sz"
    and c: "\<And>i. i \<in> set (ys @ zs) \<Longrightarrow> lo c i = lo a i \<and> hi c i = hi a i" "lo c x = lo a x" "hi c x = hi a z"
  shows "sorted_blocks c (ys @ x # zs)"
    "blocks c (ys @ x # zs) = blocks a (ys @ x # z # zs) \<union> {start..<start + sz}"
    "{start..<start + sz} \<inter> blocks a (ys @ x # z # zs) = {}"
proof -
  have g: "lo a x \<le> hi a x" "lo a z \<le> hi a z" "hi a z + 1 < usize_limit"
    using sb by (auto simp: sorted_blocks_simps good_range_def)
  have cong: "sorted_blocks c ys = sorted_blocks a ys" "sorted_blocks c zs = sorted_blocks a zs"
    "blocks c ys = blocks a ys" "blocks c zs = blocks a zs"
    using c(1) by (auto intro!: sorted_blocks_cong blocks_cong)
  show "sorted_blocks c (ys @ x # zs)"
    using sb g r c by (auto simp: sorted_blocks_simps good_range_def cong)
  have "{lo a x..hi a z} = {lo a x..hi a x} \<union> {start..<start + sz} \<union> {lo a z..hi a z}"
    using r g by auto
  then show "blocks c (ys @ x # zs) = blocks a (ys @ x # z # zs) \<union> {start..<start + sz}"
    using c(2,3) by (simp add: blocks_simps cong) blast
  have "sorted_blocks a (ys @ x # (z # zs))" "sorted_blocks a ((ys @ [x]) @ z # zs)" using sb by simp_all
  from sorted_blocks_around(1) [OF this(1)] sorted_blocks_around(2) [OF this(2)] r g
  show "{start..<start + sz} \<inter> blocks a (ys @ x # z # zs) = {}" by (fastforce simp: blocks_simps)
qed

lemma merge_two:
  assumes rep: "alloc_rep a (ys @ x # z # zs) F"
    and r: "hi a x + 1 = start" "start + sz = lo a z" "0 < sz"
    and b: "b = upd_entry z (\<lambda>m. m\<lparr>me_start := start, me_end := hi a z\<rparr>)
      (upd_entry x (\<lambda>m. m\<lparr>me_start := lo a x, me_end := start + sz - 1\<rparr>) a)"
  shows "\<exists>c1 c3 c. chain_entry_to_free_list z (Some (bsize a z)) b = Some c1 \<and> lists_only b c1 \<and>
    unchain_entry_from_free_list z (upd_entry x (\<lambda>m. m\<lparr>me_start := lo a x, me_end := hi a z\<rparr>) c1) = Some c3 \<and>
    free_size (entry_delete z c3) = free_size a \<and>
    chain_entry_to_free_list x (Some (bsize a x)) ((entry_delete z c3)\<lparr>free_size := free_size a + sz\<rparr>) = Some c \<and>
    gives a {start..<start + sz} (Some (Inr (), c))"
proof -
  note A = alloc_repD [OF rep]
  let ?S = "set (ys @ x # z # zs)"
  have d: "x \<noteq> z" "z \<notin> set ys" "z \<notin> set zs" "x \<notin> set ys" "x \<notin> set zs" using alistD(5) [OF A(1)] by auto
  have g: "lo a x \<le> hi a x" "lo a z \<le> hi a z" "hi a z + 1 < usize_limit"
    using A(2) by (auto simp: sorted_blocks_simps good_range_def)
  have rr: "lo a x \<le> hi a z" "start \<le> hi a z" "lo a x \<le> start + sz - 1" "start + sz - 1 \<le> hi a z"
    using r g by auto
  have xS: "x \<in> ?S" "z \<in> ?S" "z \<noteq> x" and sub: "?S - {z} = set (ys @ x # zs)" using d by auto
  obtain c1 c3 F3 where c: "chain_entry_to_free_list z (Some (bsize a z)) b = Some c1" "lists_only b c1"
    "unchain_entry_from_free_list z (upd_entry x (\<lambda>m. m\<lparr>me_start := lo a x, me_end := hi a z\<rparr>) c1) = Some c3"
    "lists_only (upd_entry x (\<lambda>m. m\<lparr>me_start := lo a x, me_end := hi a z\<rparr>) c1) c3"
    "classed c3 F3 (?S - {z}) (ord a)"
    using merge_lists [OF A(3) xS rr(1-3) g(3) rr(4) b] by blast
  note v1 = lists_only_views [OF c(2)] and v3 = lists_only_views [OF c(4)]
  have al: "alist a ((ys @ [x]) @ z # zs)" using A(1) by simp
  have fe: "first_entry c3 = first_of ((ys @ [x]) @ zs) None"
    using alistD(2) [OF al] v1 v3 b by simp
  have vs: "nxs c3 = nxs a" "pvs c3 = pvs a" "ena c3 = ena a" using v1 v3 b by auto
  note del = alist_delete [OF al vs fe]
  define c5 where "c5 = (entry_delete z c3)\<lparr>free_size := free_size a + sz\<rparr>"
  have v5: "lo c5 i = lo a i" "hi c5 i = hi a i" if "i \<in> set (ys @ zs)" for i
    using that v1(3,4) v3(3,4) del(2,3) b d by (auto simp: c5_def)
  have x5: "lo c5 x = lo a x" "hi c5 x = hi a z"
    using v1(3,4) v3(3,4) del(2,3) b d by (auto simp: c5_def)
  note mb = merge_blocks [OF A(2) r, of c5, OF conjI [OF v5] x5]
  have "good_range c5 i" if "i \<in> set (ys @ x # zs)" for i using mb(1) that by (auto simp: sorted_blocks_def)
  then have c5: "classed c5 F3 (set (ys @ x # zs)) (ord a)"
    unfolding sub [symmetric] by (intro classed_frame [OF c(5)]) (use del(4-6) sub in \<open>auto simp: c5_def\<close>)
  obtain c6 F6 where c6: "chain_entry_to_free_list x (Some (bsize a x)) c5 = Some c6" "lists_only c5 c6"
    "classed c6 F6 (set (ys @ x # zs)) ((ord a)(x := ord c5 x))"
    using rechain_classed [OF c5, of x "bsize a x"] by (auto simp: ord_def)
  note l6 = lists_only_sizes [OF c6(2)]
  have cl: "classed c6 F6 (set (ys @ x # zs)) (ord c6)"
    by (rule iffD1 [OF classed_cong c6(3)]) (use v5 d l6(2) in \<open>auto simp: ord_def bsize_def\<close>)
  have "gives a {start..<start + sz} (Some (Inr (), c6))"
  proof (rule gives_end [OF rep _ _ cl _ _ mb(3)])
    show "alist c6 (ys @ x # zs)" using del(1) by (simp add: l6(5) c5_def)
    show "free_size c6 = free_size a + sz" using lists_only_views(7) [OF c6(2)] by (simp add: c5_def)
  qed (simp_all only: l6(4,6) mb(1,2))
  moreover have "free_size (entry_delete z c3) = free_size a" using del(7) v1(7) v3(7) b by simp
  ultimately show ?thesis using c(1-3) c6(1) unfolding c5_def by blast
qed

section \<open>The cases of \<open>define_free_memory\<close>\<close>

definition frees :: "alloc \<Rightarrow> nat set \<Rightarrow> ((merror + unit) \<times> alloc) option \<Rightarrow> bool" where
  "frees a X m \<longleftrightarrow> gives a X m \<or> m = Some (Inl NoEntry, a) \<and> pool_full a"

lemma create_cases:
  assumes "alloc_rep a L F"
  obtains (full) "create_memory_entry a = (Inl NoEntry, a)" "pool_full a"
    | (new) n where "create_memory_entry a = (Inr n, upd_entry n (\<lambda>_. MemoryEntry_new\<lparr>me_enabled := True\<rparr>) a)"
        "n < 64" "n \<notin> set L"
proof -
  note al = alloc_repD(1) [OF assms]
  from create_memory_entry_full [OF al] consider n a1 where "create_memory_entry a = (Inr n, a1)"
    | "create_memory_entry a = (Inl NoEntry, a)" "set L = {..<64}" by blast
  then show thesis
  proof cases
    case 1
    from create_memory_entry_Some [OF al this] 1 new show thesis by blast
  next
    case 2
    with card_pool_full [OF al] full show thesis by simp
  qed
qed

lemma set_range_Some:
  "s \<le> t \<Longrightarrow> set_range e s t a = Some (upd_entry e (\<lambda>m. m\<lparr>me_start := s, me_end := t\<rparr>) a)"
  by (simp add: set_range_def assert_that_def)

lemma chain_views [simp]:
  "nxs (chain_after_me x n a) = (nxs a)(x := Some n)" "pvs (chain_after_me x n a) = (pvs a)(n := Some x)"
  "lnx (chain_after_me x n a) = lnx a" "lpv (chain_after_me x n a) = lpv a" "lo (chain_after_me x n a) = lo a"
  "hi (chain_after_me x n a) = hi a" "ena (chain_after_me x n a) = ena a"
  "free_size (chain_after_me x n a) = free_size a" "free_list (chain_after_me x n a) = free_list a"
  "first_entry (chain_after_me x n a) = first_entry a"
  "good_range (chain_after_me x n a) = good_range a" "bsize (chain_after_me x n a) = bsize a"
  by (simp_all add: chain_after_me_def fun_eq_iff good_range_def bsize_def)

text \<open>Entry \<open>x\<close> precedes the region and is the last one.\<close>

lemma free_at_last_new:
  assumes rep: "alloc_rep a (ys @ [x]) F" and r: "hi a x + 1 < start" "0 < sz" "start + sz < usize_limit" "start + sz = lst + 1"
    and d: "{start..<start + sz} \<inter> free_set a = {}"
    and gap: "\<forall>i \<in> set ys. hi a i + 1 < start"
  shows "frees a {start..<start + sz} (free_at_last start sz lst (bsize a x) False x a)"
  using rep
proof (cases rule: create_cases)
  case full
  then show ?thesis by (simp add: free_at_last_def frees_def)
next
  case (new n)
  have nx: "n \<noteq> x" "x \<noteq> n" using new(3) by auto
  note A = alloc_repD [OF rep] and room = free_size_room [OF rep d r(3)]
  define b where "b = (chain_after_me x n (upd_entry n (\<lambda>m. m\<lparr>me_start := start, me_end := lst\<rparr>)
    (upd_entry n (\<lambda>_. MemoryEntry_new\<lparr>me_enabled := True\<rparr>) a)))\<lparr>free_size := free_size a + sz\<rparr>"
  have "good_range a x" using A(2) by (simp add: sorted_blocks_def)
  then have "chain_entry_to_free_list x (Some (bsize a x)) b = Some b"
    using same_size_chain [of b x] nx by (simp add: b_def bsize_def good_range_def)
  moreover have "\<exists>c. chain_entry_to_free_list n None b = Some c \<and> gives a {start..<start + sz} (Some (Inr (), c))"
  proof (rule add_new [of a "ys @ [x]" "[]" F])
    show "first_entry b = first_of ((ys @ [x]) @ n # []) None"
      using alistD(2) [OF A(1)] by (simp add: b_def)
  qed (use rep new nx r gap in \<open>auto simp: b_def MemoryEntry_new_def fun_eq_iff\<close>)
  ultimately show ?thesis
    using new(1) r nx room
    by (auto simp: free_at_last_def frees_def set_range_Some b_def [symmetric])
qed

text \<open>Entry \<open>x\<close> follows the region and is the only one.\<close>

lemma free_at_only_new:
  assumes rep: "alloc_rep a [x] F" and r: "start + sz < lo a x" "0 < sz" "start + sz = lst + 1"
    and d: "{start..<start + sz} \<inter> free_set a = {}"
  shows "frees a {start..<start + sz} (free_at_last start sz lst (bsize a x) False x a)"
  using rep
proof (cases rule: create_cases)
  case full
  then show ?thesis by (simp add: free_at_last_def frees_def)
next
  case (new n)
  note A = alloc_repD [OF rep]
  have nx: "n \<noteq> x" "x \<noteq> n" and gr: "good_range a x" using new(3) A(2) by (auto simp: sorted_blocks_def)
  have lim: "start + sz < usize_limit" using r gr by (simp add: good_range_def)
  note room = free_size_room [OF rep d lim]
  define b where "b = (chain_after_me n x ((upd_entry n (\<lambda>m. m\<lparr>me_start := start, me_end := lst\<rparr>)
    (upd_entry n (\<lambda>_. MemoryEntry_new\<lparr>me_enabled := True\<rparr>) a))\<lparr>first_entry := Some n\<rparr>))\<lparr>free_size := free_size a + sz\<rparr>"
  have "chain_entry_to_free_list x (Some (bsize a x)) b = Some b"
    using same_size_chain [of b x] gr nx by (simp add: b_def bsize_def good_range_def)
  moreover have "\<exists>c. chain_entry_to_free_list n None b = Some c \<and> gives a {start..<start + sz} (Some (Inr (), c))"
    by (rule add_new [of a "[]" "[x]" F])
      (use rep new nx r lim in \<open>auto simp: b_def MemoryEntry_new_def fun_eq_iff\<close>)
  moreover have "get_prev_entry (upd_entry n (\<lambda>m. m\<lparr>me_start := start, me_end := lst\<rparr>)
    (upd_entry n (\<lambda>_. MemoryEntry_new\<lparr>me_enabled := True\<rparr>) a)) x = None"
    using alist_split(2) [of a "[]" x "[]"] A(1) nx by (simp add: get_prev_entry_def)
  ultimately show ?thesis
    using new(1) r nx room gr
    by (auto simp: free_at_last_def frees_def set_range_Some b_def [symmetric] good_range_def)
qed

text \<open>Entry \<open>x\<close> follows the region, is the first, and another follows it.\<close>

lemma free_before_first_new:
  assumes rep: "alloc_rep a (x # z # zs) F" and r: "start + sz < lo a x" "0 < sz" "start + sz = lst + 1"
    and d: "{start..<start + sz} \<inter> free_set a = {}"
  shows "frees a {start..<start + sz} (free_before_next start sz lst (bsize a x) after False x z a)"
proof -
  note A = alloc_repD [OF rep]
  have g: "good_range a x" "good_range a z" "hi a x + 1 < lo a z" using A(2) by (auto simp: sorted_blocks_simps)
  have lim: "start + sz < usize_limit" using r g by (simp add: good_range_def)
  have c: "uadd lst 1 = Some (start + sz)" "uadd (hi a x) 1 = Some (hi a x + 1)" "lo a z \<noteq> start + sz"
    "lo a z \<noteq> hi a x + 1"
    using r lim g by (auto simp: uadd_def good_range_def)
  show ?thesis
    using rep
  proof (cases rule: create_cases)
    case full
    with c show ?thesis by (simp add: free_before_next_def frees_def)
  next
    case (new n)
    have nx: "n \<noteq> x" "x \<noteq> n" "n \<noteq> z" "n \<notin> set zs" using new(3) by auto
    have xd: "x \<noteq> z" "x \<notin> set zs" using alistD(5) [OF A(1)] by auto
    note room = free_size_room [OF rep d lim]
    define b where "b = (chain_after_me n x ((upd_entry n (\<lambda>m. m\<lparr>me_start := start, me_end := lst\<rparr>)
      (upd_entry n (\<lambda>_. MemoryEntry_new\<lparr>me_enabled := True\<rparr>) a))\<lparr>first_entry := Some n\<rparr>))\<lparr>free_size := free_size a + sz\<rparr>"
    have "chain_entry_to_free_list x (Some (bsize a x)) b = Some b"
      using same_size_chain [of b x] g nx by (simp add: b_def bsize_def good_range_def)
    moreover have "\<exists>c. chain_entry_to_free_list n None b = Some c \<and> gives a {start..<start + sz} (Some (Inr (), c))"
    proof (rule add_new [of a "[]" "x # z # zs" F])
      show "\<forall>i \<in> set (x # z # zs). start + sz < lo a i"
        using A(2) r by (fastforce simp: sorted_blocks_simps good_range_def)
    qed (use rep new nx r lim in \<open>auto simp: b_def MemoryEntry_new_def fun_eq_iff\<close>)
    moreover have "get_prev_entry (upd_entry n (\<lambda>m. m\<lparr>me_start := start, me_end := lst\<rparr>)
      (upd_entry n (\<lambda>_. MemoryEntry_new\<lparr>me_enabled := True\<rparr>) a)) x = None"
      using alist_split(2) [of a "[]" x "z # zs"] A(1) nx by (simp add: get_prev_entry_def)
    ultimately show ?thesis
      using new(1) r nx room c
      by (auto simp: free_before_next_def frees_def set_range_Some b_def [symmetric])
  qed
qed

lemma set_link_free_size [simp]:
  "free_size (set_next_entry n z a) = free_size a" "free_size (set_prev_entry n z a) = free_size a"
  by (simp_all add: set_next_entry_def set_prev_entry_def)

text \<open>The region is between \<open>x\<close> and its successor \<open>z\<close> and touches neither.\<close>

lemma free_between_new:
  assumes rep: "alloc_rep a (ys @ x # z # zs) F" and r: "hi a x + 1 < start" "start + sz < lo a z" "0 < sz" "start + sz = lst + 1"
    and d: "{start..<start + sz} \<inter> free_set a = {}"
  shows "frees a {start..<start + sz} (free_before_next start sz lst (bsize a x) after False x z a)"
proof -
  note A = alloc_repD [OF rep]
  have g: "good_range a x" "good_range a z" "hi a x + 1 < lo a z" using A(2) by (auto simp: sorted_blocks_simps)
  have lim: "start + sz < usize_limit" using r g by (simp add: good_range_def)
  have c: "uadd lst 1 = Some (start + sz)" "uadd (hi a x) 1 = Some (hi a x + 1)" "lo a z \<noteq> start + sz"
    "lo a z \<noteq> hi a x + 1" "\<not> lst < lo a x"
    using r lim g by (auto simp: uadd_def good_range_def)
  show ?thesis
    using rep
  proof (cases rule: create_cases)
    case full
    with c show ?thesis by (simp add: free_before_next_def frees_def)
  next
    case (new n)
    have nx: "n \<noteq> x" "x \<noteq> n" "n \<noteq> z" "z \<noteq> n" "n \<notin> set zs" "n \<notin> set ys" using new(3) by auto
    have xd: "x \<noteq> z" "z \<noteq> x" using alistD(5) [OF A(1)] by auto
    note room = free_size_room [OF rep d lim]
    define b where "b = (chain_after_me x n (set_next_entry n z (set_prev_entry z n
      (upd_entry n (\<lambda>m. m\<lparr>me_start := start, me_end := lst\<rparr>)
        (upd_entry n (\<lambda>_. MemoryEntry_new\<lparr>me_enabled := True\<rparr>) a)))))\<lparr>free_size := free_size a + sz\<rparr>"
    have "chain_entry_to_free_list x (Some (bsize a x)) b = Some b"
      using same_size_chain [of b x] g nx xd
      by (simp add: b_def set_next_entry_def set_prev_entry_def bsize_def good_range_def)
    moreover have "\<exists>c. chain_entry_to_free_list n None b = Some c \<and> gives a {start..<start + sz} (Some (Inr (), c))"
    proof (rule add_new [of a "ys @ [x]" "z # zs" F])
      show "\<forall>i \<in> set (ys @ [x]). hi a i + 1 < start" "\<forall>i \<in> set (z # zs). start + sz < lo a i"
        using A(2) r by (fastforce simp: sorted_blocks_simps good_range_def)+
      show "first_entry b = first_of ((ys @ [x]) @ n # z # zs) None"
        using alistD(2) [OF A(1)] by (simp add: b_def set_next_entry_def set_prev_entry_def)
    qed (use rep new nx xd r lim in \<open>auto simp: b_def set_next_entry_def set_prev_entry_def MemoryEntry_new_def fun_eq_iff\<close>)
    ultimately show ?thesis
      using new(1) r nx room c
      by (auto simp: free_before_next_def frees_def set_range_Some b_def [symmetric])
  qed
qed

text \<open>The region touches the block found; no other block is concerned.\<close>

lemma free_at_last_grown:
  assumes rep: "alloc_rep a L F" and x: "x \<in> set L"
    and b: "b = upd_entry x (\<lambda>m. m\<lparr>me_start := s, me_end := t\<rparr>) a"
    and sb: "sorted_blocks b L" and bl: "{s..t} = {lo a x..hi a x} \<union> {start..<start + sz}"
    and d: "{start..<start + sz} \<inter> free_set a = {}" "start + sz < usize_limit"
  shows "frees a {start..<start + sz} (free_at_last start sz lst (bsize a x) True x b)"
  using grow_one(2) [OF rep x b sb bl d(1)] free_size_room [OF rep d] b
  by (auto simp: free_at_last_def frees_def)

lemma free_before_next_grown:
  assumes rep: "alloc_rep a L F" and x: "x \<in> set L"
    and b: "b = upd_entry x (\<lambda>m. m\<lparr>me_start := s, me_end := t\<rparr>) a"
    and sb: "sorted_blocks b L" and bl: "{s..t} = {lo a x..hi a x} \<union> {start..<start + sz}"
    and d: "{start..<start + sz} \<inter> free_set a = {}" "start + sz < usize_limit"
    and z: "z \<noteq> x" "lo a z \<noteq> start + sz" "lo a z \<noteq> t + 1" "after < lo a z" "start + sz = lst + 1"
  shows "frees a {start..<start + sz} (free_before_next start sz lst (bsize a x) after True x z b)"
proof -
  have "good_range b x" using sb x by (simp add: sorted_blocks_def)
  then have "uadd t 1 = Some (t + 1)" "uadd lst 1 = Some (start + sz)"
    using b d(2) z(5) by (auto simp: good_range_def uadd_def)
  with grow_one(2) [OF rep x b sb bl d(1)] free_size_room [OF rep d] z b show ?thesis
    by (auto simp: free_before_next_def frees_def)
qed

text \<open>It touches only the next block.\<close>

lemma free_next_grown:
  assumes rep: "alloc_rep a L F" and x: "x \<in> set L" "z \<in> set L" "x \<noteq> z"
    and b: "b = upd_entry z (\<lambda>m. m\<lparr>me_start := start, me_end := hi a z\<rparr>) a"
    and sb: "sorted_blocks b L" and d: "{start..<start + sz} \<inter> free_set a = {}" "start + sz < usize_limit"
    and z: "start + sz = lo a z" "hi a x + 1 < start" "start + sz = lst + 1"
  shows "frees a {start..<start + sz} (free_before_next start sz lst (bsize a x) (hi a x + 1) False x z a)"
proof -
  have gr: "good_range a x" "good_range a z" using alloc_repD(2) [OF rep] x by (auto simp: sorted_blocks_def)
  have bl: "{start..hi a z} = {lo a z..hi a z} \<union> {start..<start + sz}" using z gr by (auto simp: good_range_def)
  obtain c where c: "chain_entry_to_free_list z (Some (bsize a z)) b = Some c" "lists_only b c"
    "gives a {start..<start + sz} (Some (Inr (), c\<lparr>free_size := free_size a + sz\<rparr>))"
    using grow_one(1) [OF rep x(2) b sb bl d(1)] by blast
  note v = lists_only_views [OF c(2)]
  have s: "set_range z start (hi a z) a = Some b" using bl gr z b by (simp add: set_range_Some good_range_def)
  have u: "uadd lst 1 = Some (start + sz)" "uadd (hi a x) 1 = Some (hi a x + 1)"
    using d(2) z gr by (auto simp: uadd_def good_range_def)
  have "chain_entry_to_free_list x (Some (bsize a x)) (c\<lparr>free_size := free_size a + sz\<rparr>) = Some (c\<lparr>free_size := free_size a + sz\<rparr>)"
    using same_size_chain [of "c\<lparr>free_size := free_size a + sz\<rparr>" x] x(3) v(3,4) gr(1) b
    by (simp add: bsize_def good_range_def)
  then show ?thesis
    using z c(1,3) s [simplified] u [simplified] v x(3) gr free_size_room [OF rep d] b
    by (auto simp: free_before_next_def frees_def good_range_size)
qed

text \<open>It touches both.\<close>

lemma free_merge:
  assumes rep: "alloc_rep a (ys @ x # z # zs) F"
    and r: "hi a x + 1 = start" "start + sz = lo a z" "0 < sz" "start + sz = lst + 1"
    and d: "{start..<start + sz} \<inter> free_set a = {}"
  shows "frees a {start..<start + sz} (free_before_next start sz lst (bsize a x) start True x z
    (upd_entry x (\<lambda>m. m\<lparr>me_start := lo a x, me_end := lst\<rparr>) a))"
proof -
  note A = alloc_repD [OF rep]
  have xz: "x \<noteq> z" using alistD(5) [OF A(1)] by auto
  have gr: "good_range a x" "good_range a z" using A(2) by (auto simp: sorted_blocks_def)
  define b1 where "b1 = upd_entry x (\<lambda>m. m\<lparr>me_start := lo a x, me_end := lst\<rparr>) a"
  define b where "b = upd_entry z (\<lambda>m. m\<lparr>me_start := start, me_end := hi a z\<rparr>) b1"
  have l: "lst = start + sz - 1" using r(3,4) by simp
  have "b = upd_entry z (\<lambda>m. m\<lparr>me_start := start, me_end := hi a z\<rparr>)
      (upd_entry x (\<lambda>m. m\<lparr>me_start := lo a x, me_end := start + sz - 1\<rparr>) a)"
    by (simp add: b_def b1_def l)
  from merge_two [OF rep r(1-3) this] obtain c1 c3 c where
    c: "chain_entry_to_free_list z (Some (bsize a z)) b = Some c1" "lists_only b c1"
    "unchain_entry_from_free_list z (upd_entry x (\<lambda>m. m\<lparr>me_start := lo a x, me_end := hi a z\<rparr>) c1) = Some c3"
    "free_size (entry_delete z c3) = free_size a"
    "chain_entry_to_free_list x (Some (bsize a x)) ((entry_delete z c3)\<lparr>free_size := free_size a + sz\<rparr>) = Some c"
    "gives a {start..<start + sz} (Some (Inr (), c))"
    by blast
  note v = lists_only_views [OF c(2)]
  have vv: "lo c1 z = start" "hi c1 z = hi a z" "lo c1 x = lo a x" "hi c1 x = lst"
    using v(3,4) xz by (simp_all add: b_def b1_def)
  have lim: "start + sz < usize_limit" using gr r by (simp add: good_range_def)
  have u: "uadd lst 1 = Some (start + sz)" using lim r(4) by (simp add: uadd_def)
  have s: "get_size b1 z = Some (bsize a z)" "set_range z start (hi a z) b1 = Some b"
    "set_range x (lo a x) (max lst (hi a z)) c1 = Some (upd_entry x (\<lambda>m. m\<lparr>me_start := lo a x, me_end := hi a z\<rparr>) c1)"
    using gr r xz good_range_size [OF gr(2)]
    by (auto simp: b_def b1_def set_range_Some good_range_def get_size_def max_def)
  have "lo b1 z = start + sz" "hi b1 z = hi a z" using r(2) xz by (simp_all add: b1_def)
  then have "free_before_next start sz lst (bsize a x) start True x z b1 = Some (Inr (), c)"
    using c(1,3-5) s u [simplified] vv free_size_room [OF rep d lim]
    by (simp add: free_before_next_def)
  with c(6) show ?thesis by (simp add: frees_def b1_def)
qed

section \<open>Freeing\<close>

text \<open>When the entry found is not itself in the region, the recursive calls are not made.\<close>

lemma define_free_memory_step:
  assumes an: "free_anchor start a = Some (Inr x)" and gr: "good_range a x"
    and r: "0 < sz" "start + sz < usize_limit" "start + sz = lst + 1"
    and x: "hi a x < start \<or> lst < lo a x \<and> is_first_entry a x"
    and g: "grow_entry start lst x a = Some (p, b)"
    and n: "get_next_entry b x = n" "\<And>z. n = Some z \<Longrightarrow> start < lo b z"
  shows "define_free_memory start sz a =
    (case n of Some z \<Rightarrow> free_before_next start sz lst (bsize a x) (hi a x + 1) p x z b
     | None \<Rightarrow> free_at_last start sz lst (bsize a x) p x b)"
proof -
  have "get_end_address start sz = Some lst" using get_end_address_Some [OF r(1,2)] r(3) by simp
  moreover have "uadd (hi a x) 1 = Some (hi a x + 1)" using gr by (simp add: uadd_def good_range_def)
  moreover have "\<not> (lo a x \<le> start \<and> lst \<le> hi a x)" "\<not> (start \<le> hi a x \<and> \<not> is_first_entry a x)" "hi a x \<noteq> lst"
    using x r gr by (auto simp: good_range_def)
  ultimately show ?thesis
    using r(1) an g n good_range_size [OF gr]
    by (subst define_free_memory.simps) (auto split: option.split)
qed

text \<open>Extending a block into free space keeps the order.\<close>

lemma extend_up:
  assumes "sorted_blocks a (ys @ x # zs)" "distinct (ys @ x # zs)" "lo a x \<le> t" "t + 1 < usize_limit"
    "\<And>z. first_of zs None = Some z \<Longrightarrow> t + 1 < lo a z"
  shows "sorted_blocks (upd_entry x (\<lambda>m. m\<lparr>me_start := lo a x, me_end := t\<rparr>) a) (ys @ x # zs)"
    (is "sorted_blocks ?b _")
proof -
  have "t + 1 < lo a z" if "z \<in> set zs" for z
    using that assms(1,5) by (cases zs) (fastforce simp: sorted_blocks_simps good_range_def)+
  moreover have "sorted_blocks ?b ys = sorted_blocks a ys" "sorted_blocks ?b zs = sorted_blocks a zs"
    using assms(2) by (auto intro!: sorted_blocks_cong)
  ultimately show ?thesis
    using assms(1-4) by (auto simp: sorted_blocks_simps good_range_def)
qed

lemma extend_down:
  assumes "sorted_blocks a (ys @ x # zs)" "distinct (ys @ x # zs)" "s \<le> hi a x"
    "\<And>i. i \<in> set ys \<Longrightarrow> hi a i + 1 < s"
  shows "sorted_blocks (upd_entry x (\<lambda>m. m\<lparr>me_start := s, me_end := hi a x\<rparr>) a) (ys @ x # zs)"
    (is "sorted_blocks ?b _")
proof -
  have "sorted_blocks ?b ys = sorted_blocks a ys" "sorted_blocks ?b zs = sorted_blocks a zs"
    using assms(2) by (auto intro!: sorted_blocks_cong)
  then show ?thesis
    using assms by (auto simp: sorted_blocks_simps good_range_def)
qed

text \<open>The entry found precedes the region.\<close>

lemma free_after_entry:
  assumes rep: "alloc_rep a (ys @ x # zs) F" and ar: "around a start sz (ys @ [x]) zs"
    and an: "free_anchor start a = Some (Inr x)"
    and r: "0 < sz" "start + sz < usize_limit" "start + sz = lst + 1" "{start..<start + sz} \<inter> free_set a = {}"
  shows "frees a {start..<start + sz} (define_free_memory start sz a)"
proof -
  note A = alloc_repD [OF rep]
  let ?b = "upd_entry x (\<lambda>m. m\<lparr>me_start := lo a x, me_end := lst\<rparr>) a"
  let ?t = "hi a x + 1 = start"
  have gr: "good_range a x" using A(2) by (simp add: sorted_blocks_simps)
  have xs: "hi a x < start" "\<And>z. first_of zs None = Some z \<Longrightarrow> start + sz \<le> lo a z"
    using ar by (auto simp: around_def dest!: first_of_in)
  have d: "x \<notin> set ys" "x \<notin> set zs" using alistD(5) [OF A(1)] by auto
  have gap: "hi a i + 1 < start" if "i \<in> set ys" for i
    using sorted_blocks_around(1) [OF A(2), of "hi a i"] that xs(1) A(2) gr
    by (fastforce simp: blocks_def sorted_blocks_simps sorted_blocks_def good_range_def)
  have u: "uadd (hi a x) 1 = Some (hi a x + 1)" "uadd lst 1 = Some (lst + 1)"
    using gr r by (simp_all add: uadd_def good_range_def)
  have g: "grow_entry start lst x a = Some (?t, if ?t then ?b else a)"
    using u gr xs(1) r(1,3)
    by (auto simp: grow_entry_def set_range_Some good_range_def is_first_entry_def)
  have nx: "get_next_entry (if ?t then ?b else a) x = first_of zs None"
    using alist_split(3) [OF A(1)] by (auto simp: get_next_entry_def)
  have step: "define_free_memory start sz a =
    (case first_of zs None of Some z \<Rightarrow> free_before_next start sz lst (bsize a x) (hi a x + 1) ?t x z (if ?t then ?b else a)
     | None \<Rightarrow> free_at_last start sz lst (bsize a x) ?t x (if ?t then ?b else a))"
  proof (rule define_free_memory_step [OF an gr r(1-3) _ g nx])
    fix z assume z: "first_of zs None = Some z"
    then have "z \<noteq> x" using d first_of_in by metis
    then show "start < lo (if ?t then ?b else a) z" using xs(2) [OF z] r(1) by simp
  qed (use xs(1) in simp)
  have grown: "sorted_blocks ?b (ys @ x # zs)" "{lo a x..lst} = {lo a x..hi a x} \<union> {start..<start + sz}"
    if t: ?t "\<And>z. first_of zs None = Some z \<Longrightarrow> start + sz < lo a z"
    using extend_up [OF A(2) alistD(5) [OF A(1)], of lst] t r gr by (auto simp: good_range_def)
  show ?thesis
  proof (cases zs)
    case Nil
    then show ?thesis
      using step free_at_last_grown [OF rep _ refl grown r(4,2), of lst]
        free_at_last_new [of a ys x F start sz lst] rep xs(1) r gap
      by (cases ?t) auto
  next
    case (Cons z zs')
    have zx: "z \<noteq> x" "x \<noteq> z" using d Cons by auto
    have le: "start + sz \<le> lo a z" using xs(2) Cons by simp
    show ?thesis
    proof (cases ?t; cases "start + sz = lo a z")
      assume t: ?t "start + sz = lo a z"
      then show ?thesis using step Cons free_merge [of a ys x z zs' F start sz lst] rep r by simp
    next
      assume t: ?t "start + sz \<noteq> lo a z"
      then show ?thesis
        using step Cons free_before_next_grown [OF rep _ refl grown r(4,2) zx(1), of "hi a x + 1" lst] le r by simp
    next
      assume t: "\<not> ?t" "start + sz = lo a z"
      let ?c = "upd_entry z (\<lambda>m. m\<lparr>me_start := start, me_end := hi a z\<rparr>) a"
      have "sorted_blocks ?c ((ys @ [x]) @ z # zs')"
        by (rule extend_down) (use A(2) alistD(5) [OF A(1)] Cons t xs(1) gap r(1) in \<open>auto simp: sorted_blocks_simps good_range_def\<close>)
      then have "sorted_blocks ?c (ys @ x # zs)" using Cons by simp
      then show ?thesis
        using step Cons t(1) xs(1) free_next_grown [OF rep _ _ zx(2) refl _ r(4,2) t(2) _ r(3)] by simp
    next
      assume t: "\<not> ?t" "start + sz \<noteq> lo a z"
      then show ?thesis
        using step Cons free_between_new [of a ys x z zs' F start sz lst] rep r xs(1) le by simp
    qed
  qed
qed

text \<open>The entry found is the first and follows the region.\<close>

lemma free_before_entry:
  assumes rep: "alloc_rep a (x # zs) F" and x: "start + sz \<le> lo a x"
    and an: "free_anchor start a = Some (Inr x)"
    and r: "0 < sz" "start + sz = lst + 1" "{start..<start + sz} \<inter> free_set a = {}"
  shows "frees a {start..<start + sz} (define_free_memory start sz a)"
proof -
  note A = alloc_repD [OF rep]
  let ?b = "upd_entry x (\<lambda>m. m\<lparr>me_start := start, me_end := hi a x\<rparr>) a"
  let ?t = "start + sz = lo a x"
  have al: "alist a ([] @ x # zs)" using A(1) by simp
  have gr: "good_range a x" using A(2) by (simp add: sorted_blocks_simps)
  have lim: "start + sz < usize_limit" using x gr by (simp add: good_range_def)
  have d: "x \<notin> set zs" using alistD(5) [OF A(1)] by auto
  have zs: "z \<noteq> x \<and> hi a x + 1 < lo a z" if "first_of zs None = Some z" for z
    using that first_of_in [OF that] A(2) d by (auto simp: sorted_blocks_simps)
  have fst: "is_first_entry a x" "is_first_entry ?b x"
    using alist_split(5) [OF al] by (auto simp: is_first_entry_def)
  have u: "uadd (hi a x) 1 = Some (hi a x + 1)" "uadd lst 1 = Some (lst + 1)"
    using gr r lim by (simp_all add: uadd_def good_range_def)
  have g: "grow_entry start lst x a = Some (?t, if ?t then ?b else a)"
    using u gr x r(1,2) fst(1)
    by (auto simp: grow_entry_def set_range_Some good_range_def)
  have nx: "get_next_entry (if ?t then ?b else a) x = first_of zs None"
    using alist_split(3) [OF al] by (auto simp: get_next_entry_def)
  have step: "define_free_memory start sz a =
    (case first_of zs None of Some z \<Rightarrow> free_before_next start sz lst (bsize a x) (hi a x + 1) ?t x z (if ?t then ?b else a)
     | None \<Rightarrow> free_at_last start sz lst (bsize a x) ?t x (if ?t then ?b else a))"
  proof (rule define_free_memory_step [OF an gr r(1) lim r(2) _ g nx])
    fix z assume z: "first_of zs None = Some z"
    then show "start < lo (if ?t then ?b else a) z" using zs [OF z] x gr by (simp add: good_range_def)
  qed (use x fst r in simp)
  have sb: "sorted_blocks ?b (x # zs)"
    using extend_down [of a "[]" x zs start] A(2) alistD(5) [OF A(1)] x gr by (simp add: good_range_def)
  have bl: "{start..hi a x} = {lo a x..hi a x} \<union> {start..<start + sz}" if ?t
    using that gr by (auto simp: good_range_def)
  show ?thesis
  proof (cases zs)
    case Nil
    then show ?thesis
      using step free_at_last_grown [OF rep _ refl sb bl r(3) lim, of lst]
        free_at_only_new [of a x F start sz lst] rep x r
      by (cases ?t) auto
  next
    case (Cons z zs')
    with zs have z: "z \<noteq> x" "hi a x + 1 < lo a z" by auto
    then have "lo a z \<noteq> start + sz" using x gr by (auto simp: good_range_def)
    then show ?thesis
      using step Cons z free_before_next_grown [OF rep _ refl sb bl r(3) lim z(1), of "hi a x + 1" lst]
        free_before_first_new [of a x z zs' F start sz lst "hi a x + 1"] rep x r
      by (cases ?t) auto
  qed
qed

lemma define_free_memory_correct:
  assumes rep: "alloc_rep a L F" and ne: "L \<noteq> []"
    and r: "0 < sz" "start + sz < usize_limit" "{start..<start + sz} \<inter> free_set a = {}"
  shows "frees a {start..<start + sz} (define_free_memory start sz a)"
proof -
  obtain ys zs where L: "L = ys @ zs" and ar: "around a start sz ys zs"
    using around_exists [OF rep r(1,3)] by blast
  obtain lst where lst: "start + sz = lst + 1" using r(1) by (metis add.commute add_Suc_right not0_implies_Suc not_gr0 plus_1_eq_Suc)
  note an = free_anchor_around [OF rep [unfolded L] ar ne [unfolded L]]
  show ?thesis
  proof (cases ys rule: rev_cases)
    case Nil
    then obtain x zs' where zs: "zs = x # zs'" using L ne by (cases zs) auto
    show ?thesis
      using free_before_entry [of a x zs' F start sz lst] rep L Nil zs ar an r lst by (simp add: around_def)
  next
    case (snoc ys' x)
    then show ?thesis
      using free_after_entry [of a ys' x zs F start sz lst] rep L ar an r lst by simp
  qed
qed

lemma alloc_rep_empty: "alloc_rep a L F \<Longrightarrow> free_size a = 0 \<longleftrightarrow> L = []"
  using alloc_repD(2,4) by (fastforce simp: blocks_def sorted_blocks_def good_range_def)

text \<open>The first block.\<close>

lemma free_into_empty:
  assumes rep: "alloc_rep a [] F" and r: "0 < sz" "start + sz < usize_limit"
  shows "frees a {start..<start + sz} (free start sz a)"
  using rep
proof (cases rule: create_cases)
  case full
  then show ?thesis using alloc_rep_empty [OF rep] by (simp add: free_def frees_def)
next
  case (new n)
  note A = alloc_repD [OF rep]
  have fs: "free_size a = 0" using alloc_rep_empty [OF rep] by simp
  define b where "b = upd_entry n (\<lambda>m. m\<lparr>me_start := start, me_end := start + sz - 1\<rparr>)
    (upd_entry n (\<lambda>_. MemoryEntry_new\<lparr>me_enabled := True\<rparr>) a)"
  have cl: "classed b F {} (ord a)"
    by (rule classed_frame) (use A(3) in \<open>auto simp: b_def MemoryEntry_new_def\<close>)
  have gr: "good_range b n" using r by (simp add: b_def good_range_def)
  obtain c F' where c: "chain_entry_to_free_list n None b = Some c" "lists_only b c"
    "classed c F' {n} ((ord a)(n := ord b n))"
    using chain_classed [OF cl _ new(2) gr] by auto
  note v = lists_only_views [OF c(2)] and l = lists_only_sizes [OF c(2)]
  let ?c = "c\<lparr>first_entry := Some n, free_size := sz\<rparr>"
  have o: "ord (c\<lparr>first_entry := Some n\<rparr>) = ord c" "good_range (c\<lparr>first_entry := Some n\<rparr>) = good_range c"
    by (simp_all add: fun_eq_iff ord_def bsize_def good_range_def)
  have cc: "classed c F' {n} (ord ?c)"
    by (rule iffD1 [OF classed_cong c(3)]) (simp add: o l)
  have "gives a {start..<start + sz} (Some (Inr (), ?c))"
  proof (rule gives_end [OF rep, of _ "[n]"])
    show "alist ?c [n]"
      using v new A(1) by (auto simp: alist_def b_def MemoryEntry_new_def dll_def)
    show "sorted_blocks ?c [n]" using gr l(3) o(2) by (simp add: sorted_blocks_simps)
    show "classed ?c F' (set [n]) (ord ?c)"
      using classed_frame [OF cc, of ?c] classed_member [OF cc, of n] o(2) by simp
  qed (use fs r v in \<open>auto simp: blocks_simps b_def\<close>)
  then show ?thesis
    using fs new(1) c(1) r get_end_address_Some [OF r] by (simp add: free_def frees_def set_range_Some b_def)
qed

lemma free_correct:
  assumes inv: "alloc_inv a" and r: "0 < sz" "start + sz < usize_limit" "{start..<start + sz} \<inter> free_set a = {}"
  shows "frees a {start..<start + sz} (free start sz a)"
proof -
  obtain L F where rep: "alloc_rep a L F" using inv by (auto simp: alloc_inv_def)
  show ?thesis
    using define_free_memory_correct [OF rep _ r] free_into_empty [of a F sz start] rep r alloc_rep_empty [OF rep]
    by (cases "L = []") (auto simp: free_def)
qed

end
