(* ===== verification/Memory_Interface.thy ===== *)
theory Memory_Interface
  imports Memory_Allocator_Free
begin

text \<open>
  The clients of the allocator in \<^verbatim>\<open>main.rs\<close>: pages, pages a device can reach, the global
  heap of the language, the registration of RAM at boot, and the size of guest RAM.  The
  properties of the allocator are stated here, over these entry points.
\<close>

section \<open>Entry points\<close>

text \<open>\<open>number_of_pages << PAGE_SHIFT\<close>: bits shifted out are lost, there is no overflow check.\<close>

definition pages_to_bytes :: "usize \<Rightarrow> usize" where
  "pages_to_bytes number_of_pages = number_of_pages * 2 ^ PAGE_SHIFT mod usize_limit"

definition allocate_pages :: "usize \<Rightarrow> nat \<Rightarrow> alloc \<Rightarrow> ((merror + usize) \<times> alloc) option" where
  "allocate_pages number_of_pages align a = allocate (pages_to_bytes number_of_pages) align a"

definition DMA_ADDRESS_LIMIT :: usize where
  "DMA_ADDRESS_LIMIT = 2 ^ 32"

definition allocate_dma_pages :: "usize \<Rightarrow> nat \<Rightarrow> alloc \<Rightarrow> ((merror + usize) \<times> alloc) option" where
  "allocate_dma_pages number_of_pages align a =
     allocate_below (pages_to_bytes number_of_pages) align DMA_ADDRESS_LIMIT a"

definition free_pages :: "usize \<Rightarrow> usize \<Rightarrow> alloc \<Rightarrow> alloc option" where
  "free_pages address number_of_pages a = do {
     (r, a) \<leftarrow> free address (pages_to_bytes number_of_pages) a;
     Some a }"

text \<open>\<open>usize::trailing_zeros\<close>\<close>

function trailing_zeros :: "nat \<Rightarrow> nat" where
  "trailing_zeros n = (if n = 0 then 64 else if odd n then 0 else trailing_zeros (n div 2) + 1)"
  by pat_completeness auto

termination trailing_zeros
  by (relation "measure (\<lambda>n. n)") (auto elim: evenE)

declare trailing_zeros.simps [simp del]

text \<open>The global allocator; the null pointer is \<open>None\<close>.\<close>

definition global_alloc :: "usize \<Rightarrow> usize \<Rightarrow> alloc \<Rightarrow> (usize option \<times> alloc) option" where
  "global_alloc layout_size layout_align a = do {
     (r, a) \<leftarrow> allocate layout_size (trailing_zeros layout_align) a;
     Some (case r of Inr address \<Rightarrow> Some address | Inl e \<Rightarrow> None, a) }"

definition global_dealloc :: "usize \<Rightarrow> usize \<Rightarrow> alloc \<Rightarrow> alloc option" where
  "global_dealloc p layout_size a = do {
     (r, a) \<leftarrow> free p layout_size a;
     Some a }"

section \<open>Boot\<close>

definition expect_ok :: "((merror + unit) \<times> alloc) option \<Rightarrow> alloc option" where
  "expect_ok m = do { (r, a) \<leftarrow> m; (case r of Inr _ \<Rightarrow> Some a | Inl _ \<Rightarrow> None) }"

text \<open>The banks are the \<open>reg\<close> entries of the memory nodes of the device tree, in order; the
  segments are the physical address and memory size of the loadable program headers.\<close>

definition register_bank :: "usize \<times> usize \<Rightarrow> usize \<times> alloc \<Rightarrow> (usize \<times> alloc) option" where
  "register_bank bank st =
     (if snd bank = 0 then Some st
      else do {
        shown \<leftarrow> uadd (fst bank) (snd bank);
        a \<leftarrow> expect_ok (free (fst bank) (snd bank) (snd st));
        total_ram \<leftarrow> uadd (fst st) (snd bank);
        Some (total_ram, a) })"

definition reserve_region :: "usize \<times> usize \<Rightarrow> alloc \<Rightarrow> alloc option" where
  "reserve_region region a = do {
     shown \<leftarrow> uadd (fst region) (snd region);
     expect_ok (reserve_memory (fst region) (snd region) 0 a) }"

definition STACK_SIZE :: usize where "STACK_SIZE = 65536"
definition PAGE_SIZE :: usize where "PAGE_SIZE = 2 ^ PAGE_SHIFT"

definition stack_region :: "usize \<Rightarrow> (usize \<times> usize) option" where
  "stack_region stack_pointer = do {
     s \<leftarrow> usub stack_pointer 1;
     stack_end \<leftarrow> uadd (clear_low s PAGE_SIZE) PAGE_SIZE;
     stack_start \<leftarrow> usub stack_end STACK_SIZE;
     Some (stack_start, STACK_SIZE) }"

definition setup_memory ::
  "(usize \<times> usize) list \<Rightarrow> usize \<times> usize \<Rightarrow> (usize \<times> usize) list \<Rightarrow> usize \<Rightarrow> alloc \<Rightarrow> (usize \<times> alloc) option" where
  "setup_memory banks dtb segments stack_pointer a = do {
     (total_ram, a) \<leftarrow> for_each banks register_bank (0, a);
     a \<leftarrow> reserve_region dtb a;
     a \<leftarrow> for_each segments reserve_region a;
     stack \<leftarrow> stack_region stack_pointer;
     a \<leftarrow> expect_ok (reserve_memory (fst stack) (snd stack) 0 a);
     Some (total_ram, a) }"

text \<open>The RAM given to each guest.\<close>

definition HYPERVISOR_RESERVE_SIZE :: usize where "HYPERVISOR_RESERVE_SIZE = 0x10000000"
definition MIN_GUEST_RAM_SIZE :: usize where "MIN_GUEST_RAM_SIZE = 0x8000000"
definition GUEST_RAM_ALIGN :: usize where "GUEST_RAM_ALIGN = 0x200000"

text \<open>\<open>disk_exists n\<close> is whether the volume has a file DISK\<open>n\<close>.\<close>

definition init_guest_ram_size :: "(nat \<Rightarrow> bool) \<Rightarrow> usize \<Rightarrow> usize" where
  "init_guest_ram_size disk_exists total_ram =
     (let number_of_guests = max (length (takeWhile disk_exists [0..<10])) 1
      in max ((total_ram - HYPERVISOR_RESERVE_SIZE) div number_of_guests div GUEST_RAM_ALIGN * GUEST_RAM_ALIGN)
           MIN_GUEST_RAM_SIZE)"

definition get_guest_ram_size :: "usize \<Rightarrow> usize" where
  "get_guest_ram_size stored = (if stored = 0 then 0x10000000 else stored)"

section \<open>Clients\<close>

text \<open>A sequence of requests of a client that releases only what it holds.\<close>

datatype heap_op = Alloc usize usize | Dealloc nat

fun client_run ::
  "(usize \<Rightarrow> usize \<Rightarrow> 's \<Rightarrow> (usize option \<times> 's) option) \<Rightarrow> (usize \<Rightarrow> usize \<Rightarrow> 's \<Rightarrow> 's option) \<Rightarrow>
   heap_op list \<Rightarrow> (usize \<times> usize) list \<Rightarrow> 's \<Rightarrow> ((usize \<times> usize) list \<times> 's) option" where
  "client_run get put [] live s = Some (live, s)"
| "client_run get put (Alloc n k # ops) live s = do {
     (r, s) \<leftarrow> get n k s;
     client_run get put ops (case r of Some x \<Rightarrow> (x, n) # live | None \<Rightarrow> live) s }"
| "client_run get put (Dealloc i # ops) live s =
     (if i < length live then do {
        s \<leftarrow> put (fst (live ! i)) (snd (live ! i)) s;
        client_run get put ops (take i live @ drop (Suc i) live) s }
      else client_run get put ops live s)"

definition region :: "usize \<times> usize \<Rightarrow> nat set" where
  "region r = {fst r..<fst r + snd r}"

text \<open>What the client holds: regions inside \<open>U\<close>, apart from each other and from \<open>X\<close>.\<close>

definition held :: "nat set \<Rightarrow> nat set \<Rightarrow> (usize \<times> usize) list \<Rightarrow> bool" where
  "held U X live \<longleftrightarrow> X \<subseteq> U \<and> (\<forall>r \<in> set live. 0 < snd r \<and> region r \<subseteq> U \<and> region r \<inter> X = {}) \<and>
     sorted_wrt (\<lambda>r q. region r \<inter> region q = {}) live"

text \<open>The contract: what an allocator promises its clients, for requests that satisfy \<open>may\<close>.\<close>

locale region_allocator =
  fixes ok :: "'s \<Rightarrow> bool" and content :: "'s \<Rightarrow> nat set" and bound :: "nat"
    and may :: "usize \<Rightarrow> usize \<Rightarrow> bool"
    and get :: "usize \<Rightarrow> usize \<Rightarrow> 's \<Rightarrow> (usize option \<times> 's) option"
    and put :: "usize \<Rightarrow> usize \<Rightarrow> 's \<Rightarrow> 's option"
  assumes content_bound: "ok s \<Longrightarrow> content s \<subseteq> {..<bound}"
    and get_law: "ok s \<Longrightarrow> may n k \<Longrightarrow> \<exists>r s'. get n k s = Some (r, s') \<and> ok s' \<and>
      (case r of None \<Rightarrow> content s' = content s
       | Some x \<Rightarrow> 0 < n \<and> {x..<x + n} \<subseteq> content s \<and> content s' = content s - {x..<x + n})"
    and put_law: "ok s \<Longrightarrow> 0 < n \<Longrightarrow> x + n \<le> bound \<Longrightarrow> {x..<x + n} \<inter> content s = {} \<Longrightarrow>
      \<exists>s'. put x n s = Some s' \<and> ok s' \<and> (content s' = content s \<union> {x..<x + n} \<or> content s' = content s)"
begin

lemma held_get:
  assumes "held U X live" "0 < n" "{x..<x + n} \<subseteq> X"
  shows "held U (X - {x..<x + n}) ((x, n) # live)"
proof -
  define R where "R = {x..<x + n}"
  have "region (x, n) = R" "R \<subseteq> X" using assms(3) by (simp_all add: region_def R_def)
  with assms(1,2) show ?thesis unfolding held_def R_def [symmetric] by (simp, blast)
qed

lemma held_put:
  assumes "held U X (ys @ r # zs)" "Y = X \<union> region r \<or> Y = X"
  shows "held U Y (ys @ zs)"
  using assms unfolding held_def sorted_wrt_append by (auto 0 3)

lemma client_holds:
  assumes "ok s" "held U (content s) live" "U \<subseteq> {..<bound}" "\<forall>n k. Alloc n k \<in> set ops \<longrightarrow> may n k"
  shows "\<exists>live' s'. client_run get put ops live s = Some (live', s') \<and> ok s' \<and> held U (content s') live'"
  using assms(1,2,4)
proof (induction ops arbitrary: live s)
  case (Cons op ops)
  have IH: "\<exists>live' s'. client_run get put ops live s = Some (live', s') \<and> ok s' \<and> held U (content s') live'"
    if "ok s" "held U (content s) live" for live s
    using Cons.IH [OF that] Cons.prems(3) by simp
  show ?case
  proof (cases op)
    case (Alloc n k)
    then have "may n k" using Cons.prems(3) by simp
    from get_law [OF Cons.prems(1) this] obtain r s' where
      g: "get n k s = Some (r, s')" "ok s'" "case r of None \<Rightarrow> content s' = content s
        | Some x \<Rightarrow> 0 < n \<and> {x..<x + n} \<subseteq> content s \<and> content s' = content s - {x..<x + n}" by blast
    have "held U (content s') (case r of Some x \<Rightarrow> (x, n) # live | None \<Rightarrow> live)"
      using g(3) Cons.prems(2) held_get by (cases r) simp_all
    from IH [OF g(2) this] show ?thesis using g(1) Alloc by simp
  next
    case (Dealloc i)
    show ?thesis
    proof (cases "i < length live")
      case True
      let ?r = "live ! i"
      have live: "live = take i live @ ?r # drop (Suc i) live" using id_take_nth_drop [OF True] .
      have r: "0 < snd ?r" "region ?r \<subseteq> U" "region ?r \<inter> content s = {}"
        using Cons.prems(2) nth_mem [OF True] by (auto simp: held_def)
      have "fst ?r + snd ?r - 1 \<in> {..<bound}"
        using r(1,2) assms(3) by (intro subsetD [OF subset_trans [OF r(2) assms(3)]]) (auto simp: region_def)
      then have "fst ?r + snd ?r \<le> bound" using r(1) by auto
      from put_law [OF Cons.prems(1) r(1) this] r(3) obtain s' where
        p: "put (fst ?r) (snd ?r) s = Some s'" "ok s'"
        "content s' = content s \<union> region ?r \<or> content s' = content s"
        by (auto simp: region_def)
      have "held U (content s') (take i live @ drop (Suc i) live)"
        using held_put [OF _ p(3)] Cons.prems(2) live by metis
      from IH [OF p(2) this] show ?thesis using p(1) Dealloc True by simp
    next
      case False
      then show ?thesis using IH [OF Cons.prems(1,2)] Dealloc by simp
    qed
  qed
qed simp

end

section \<open>The allocator keeps the contract\<close>

lemma trailing_zeros_power2: "trailing_zeros (2 ^ k) = k"
proof (induction k)
  case 0
  show ?case by (simp add: trailing_zeros.simps [of "Suc 0"])
next
  case (Suc k)
  then show ?case by (simp add: trailing_zeros.simps [of "2 * 2 ^ k"])
qed

definition low_inv :: "alloc \<Rightarrow> bool" where
  "low_inv a \<longleftrightarrow> alloc_inv a \<and> free_set a \<subseteq> {..<2 ^ 63}"

lemma low_inv_top: "low_inv a \<Longrightarrow> k < 64 \<Longrightarrow> \<forall>x \<in> free_set a. x + 2 ^ k < usize_limit"
proof
  fix x assume "low_inv a" "k < 64" "x \<in> free_set a"
  then have "x < 2 ^ 63" by (auto simp: low_inv_def)
  moreover have "(2 :: nat) ^ k \<le> 2 ^ 63" using \<open>k < 64\<close> by (intro power_increasing) auto
  ultimately show "x + 2 ^ k < usize_limit" by (simp add: usize_limit_def)
qed

lemma allocate_below_keeps:
  assumes "low_inv a" "k < 64" "0 < limit"
  shows "\<exists>r a'. allocate_with_address_limit n k limit a = Some (r, a') \<and> allocated a n k limit r a' \<and> low_inv a'"
proof -
  have inv: "alloc_inv a" using assms(1) by (simp add: low_inv_def)
  obtain r a' where "allocate_with_address_limit n k limit a = Some (r, a')" "allocated a n k limit r a'"
    using allocate_with_address_limit_correct [OF inv assms(2,3) low_inv_top [OF assms(1,2)]] by blast
  moreover from this(2) assms(1) have "low_inv a'"
    by (auto simp: allocated_def low_inv_def split: sum.splits)
  ultimately show ?thesis by blast
qed

lemma free_keeps:
  assumes a: "low_inv a" and r: "0 < n" "x + n \<le> 2 ^ 63" "{x..<x + n} \<inter> free_set a = {}"
  shows "\<exists>r a'. free x n a = Some (r, a') \<and> low_inv a' \<and>
    (r = Inr () \<and> free_set a' = free_set a \<union> {x..<x + n} \<or> r = Inl NoEntry \<and> a' = a \<and> pool_full a)"
proof -
  have "alloc_inv a" "x + n < usize_limit" using a r(2) by (simp_all add: low_inv_def usize_limit_def)
  from free_correct [OF this(1) r(1) this(2) r(3)] show ?thesis
    using a r(2) by (auto simp: frees_def gives_def low_inv_def)
qed

interpretation heap: region_allocator low_inv free_set "2 ^ 63" "\<lambda>n k. \<exists>j < 64. k = 2 ^ j" global_alloc global_dealloc
proof
  fix a :: alloc and n k :: nat
  show "low_inv a \<Longrightarrow> free_set a \<subseteq> {..<2 ^ 63}" by (simp add: low_inv_def)
  assume a: "low_inv a" and k: "\<exists>j < 64. k = 2 ^ j"
  then obtain j where j: "j < 64" "trailing_zeros k = j" by (auto simp: trailing_zeros_power2)
  have "0 < usize_limit - 1" by (simp add: usize_limit_def)
  from allocate_below_keeps [OF a j(1) this, of n] obtain r a' where
    "allocate n j a = Some (r, a')" "allocated a n j (usize_limit - 1) r a'" "low_inv a'"
    by (auto simp: allocate_def)
  then show "\<exists>r a'. global_alloc n k a = Some (r, a') \<and> low_inv a' \<and>
      (case r of None \<Rightarrow> free_set a' = free_set a
       | Some x \<Rightarrow> 0 < n \<and> {x..<x + n} \<subseteq> free_set a \<and> free_set a' = free_set a - {x..<x + n})"
    using j(2) by (cases r) (auto simp: global_alloc_def allocated_def)
next
  fix a :: alloc and n x :: nat
  assume "low_inv a" "0 < n" "x + n \<le> 2 ^ 63" "{x..<x + n} \<inter> free_set a = {}"
  from free_keeps [OF this] show "\<exists>a'. global_dealloc x n a = Some a' \<and> low_inv a' \<and>
      (free_set a' = free_set a \<union> {x..<x + n} \<or> free_set a' = free_set a)"
    by (auto simp: global_dealloc_def)
qed

lemma MemoryAllocator_new_rep: "alloc_rep MemoryAllocator_new [] (\<lambda>_. [])"
  by (auto simp: alloc_rep_def alist_def flist_def listed_def sorted_blocks_def blocks_def
      MemoryAllocator_new_def MemoryEntry_new_def NUM_OF_FREE_LIST_def nxs_def pvs_def lnx_def lpv_def ena_def
      simp del: pool_view)

lemma MemoryAllocator_new_low: "low_inv MemoryAllocator_new" "free_set MemoryAllocator_new = {}"
  using MemoryAllocator_new_rep alloc_repD(5) [OF MemoryAllocator_new_rep]
  by (auto simp: low_inv_def alloc_inv_def blocks_def)

section \<open>Properties\<close>

lemma find_block:
  assumes rep: "alloc_rep a L F"
  shows "find (\<lambda>i. lo a i \<le> x \<and> x \<le> hi a i) L = None \<longleftrightarrow> x \<notin> free_set a"
    "find (\<lambda>i. lo a i \<le> x \<and> x \<le> hi a i) L = Some e \<Longrightarrow> e \<in> set L \<and> lo a e \<le> x \<and> x \<le> hi a e"
  using alloc_repD(5) [OF rep] by (auto simp: find_None_iff blocks_def find_Some_iff)

lemma block_end_used:
  assumes rep: "alloc_rep a L F" and e: "e \<in> set L"
  shows "hi a e + 1 \<notin> free_set a"
proof -
  obtain ys zs where L: "L = ys @ e # zs" "sorted_blocks a (ys @ e # zs)"
    using alloc_repE [OF rep e] by metis
  then show ?thesis
    using sorted_blocks_around(1,2) [OF L(2), of "hi a e + 1"] sorted_blocks_around(3) [OF L(2)]
    by (auto simp: alloc_repD(5) [OF rep] blocks_simps good_range_def)
qed

definition reserved :: "alloc \<Rightarrow> usize \<Rightarrow> usize \<Rightarrow> (merror + unit) \<Rightarrow> alloc \<Rightarrow> bool" where
  "reserved a start sz r a' \<longleftrightarrow>
     (case r of
        Inr _ \<Rightarrow> alloc_inv a' \<and>
          (\<exists>n. 0 < n \<and> n \<le> sz \<and> {start..<start + n} \<subseteq> free_set a \<and>
             (n < sz \<longrightarrow> start + n \<notin> free_set a) \<and> free_set a' = free_set a - {start..<start + n})
      | Inl err \<Rightarrow> a' = a \<and>
          (err = NoMemory \<and> card (free_set a) < sz \<or> err = InvalidRequest \<and> start \<notin> free_set a \<or>
           err = NoEntry \<and> pool_full a))"

lemma reserve_memory_correct:
  assumes inv: "alloc_inv a" and r: "0 < sz" "start + sz < usize_limit"
  shows "\<exists>r a'. reserve_memory start sz 0 a = Some (r, a') \<and> reserved a start sz r a'"
proof -
  obtain L F where rep: "alloc_rep a L F" using inv by (auto simp: alloc_inv_def)
  note A = alloc_repD [OF rep]
  let ?f = "find (\<lambda>i. lo a i \<le> start \<and> start \<le> hi a i) L"
  consider "free_size a < sz" | "\<not> free_size a < sz" "?f = None" | e where "\<not> free_size a < sz" "?f = Some e"
    by (cases ?f) auto
  then show ?thesis
  proof cases
    case 1
    then show ?thesis using r A(4,5) by (auto simp: reserve_memory_def define_used_memory_def reserved_def)
  next
    case 2
    then show ?thesis
      using r search_containing_find [OF rep] find_block(1) [OF rep, of start]
      by (auto simp: reserve_memory_def define_used_memory_def define_used_memory_unaligned_def reserved_def)
  next
    case 3
    define n where "n = min sz (hi a e + 1 - start)"
    have e: "e \<in> set L" "lo a e \<le> start" "start \<le> hi a e" using find_block(2) [OF rep 3(2)] by auto
    have n: "0 < n" "start + n \<le> hi a e + 1" "n \<le> sz" "n < sz \<Longrightarrow> start + n = hi a e + 1"
      using r e by (auto simp: n_def)
    have run: "reserve_memory start sz 0 a = define_used_entry start n e a"
      using r 3 search_containing_find [OF rep] define_used_entry_clip [OF e(3) _ r(2)]
      by (auto simp: reserve_memory_def define_used_memory_def define_used_memory_unaligned_def n_def min_def)
    have "{start..<start + n} \<subseteq> free_set a" using n(2) e by (auto simp: A(5) blocks_def)
    moreover have "n < sz \<longrightarrow> start + n \<notin> free_set a" using n(4) block_end_used [OF rep e(1)] by auto
    ultimately show ?thesis
      using run take_inside [OF rep e(1,2) n(2,1)] n(1,3) card_pool_full [OF A(1)]
      by (auto simp: takes_def reserved_def)
  qed
qed

text \<open>The pool is only full when free memory is in 64 pieces.\<close>

definition pieces :: "nat set \<Rightarrow> nat set" where
  "pieces X = {x \<in> X. x = 0 \<or> x - 1 \<notin> X}"

lemma pieces_blocks:
  assumes rep: "alloc_rep a L F"
  shows "lo a ` set L \<subseteq> pieces (free_set a)" "inj_on (lo a) (set L)"
proof -
  note A = alloc_repD [OF rep]
  show "lo a ` set L \<subseteq> pieces (free_set a)"
  proof
    fix x assume "x \<in> lo a ` set L"
    then obtain e where e: "e \<in> set L" "x = lo a e" by auto
    obtain ys zs where L: "L = ys @ e # zs" "sorted_blocks a (ys @ e # zs)"
      using alloc_repE [OF rep e(1)] by metis
    note R = sorted_blocks_around [OF L(2)]
    have "x - 1 \<notin> free_set a" if "0 < x"
    proof
      assume "x - 1 \<in> free_set a"
      then consider "x - 1 \<in> blocks a ys" | "x - 1 \<in> {lo a e..hi a e}" | "x - 1 \<in> blocks a zs"
        by (auto simp: A(5) L(1) blocks_simps)
      then show False
        by cases (use R(1,2) [of "x - 1"] R(3) e(2) that in \<open>auto simp: good_range_def\<close>)
    qed
    moreover have "x \<in> free_set a" using e R(3) by (auto simp: A(5) blocks_def good_range_def)
    ultimately show "x \<in> pieces (free_set a)" by (auto simp: pieces_def)
  qed
  show "inj_on (lo a) (set L)"
  proof (rule inj_onI, rule ccontr)
    fix e g assume e: "e \<in> set L" "g \<in> set L" "lo a e = lo a g" "e \<noteq> g"
    obtain ys zs where L: "L = ys @ e # zs" "sorted_blocks a (ys @ e # zs)"
      using alloc_repE [OF rep e(1)] by metis
    then have "lo a g \<in> blocks a ys \<or> lo a g \<in> blocks a zs"
      using e A(2) by (auto simp: blocks_def sorted_blocks_def good_range_def)
    then show False using sorted_blocks_around(1,2) [OF L(2), of "lo a g"] e(3) sorted_blocks_around(3) [OF L(2)]
      by (auto simp: good_range_def)
  qed
qed


lemma pool_full_pieces:
  assumes inv: "alloc_inv a" and full: "pool_full a"
  shows "64 \<le> card (pieces (free_set a))"
proof -
  obtain L F where rep: "alloc_rep a L F" using inv by (auto simp: alloc_inv_def)
  note A = alloc_repD [OF rep]
  have "set L = {..<64}" using full A(1) by (auto simp: pool_full_def alist_def)
  then have "card (lo a ` set L) = 64" using card_image [OF pieces_blocks(2) [OF rep]] by simp
  moreover have "finite (pieces (free_set a))" by (simp add: A(5) pieces_def)
  ultimately show ?thesis using card_mono [OF _ pieces_blocks(1) [OF rep]] by simp
qed

lemma pieces_step:
  assumes "finite X"
  shows "card (pieces (X \<union> {s..<s + n})) \<le> card (pieces X) + 1" "card (pieces (X - {s..<s + n})) \<le> card (pieces X) + 1"
proof -
  have f: "finite (pieces X)" using assms by (simp add: pieces_def)
  have "pieces (X \<union> {s..<s + n}) \<subseteq> insert s (pieces X)"
    by (auto simp: pieces_def)
  from card_mono [OF _ this] f show "card (pieces (X \<union> {s..<s + n})) \<le> card (pieces X) + 1"
    by (simp add: card_insert_if split: if_splits)
  have "pieces (X - {s..<s + n}) \<subseteq> insert (s + n) (pieces X)"
  proof
    fix x assume "x \<in> pieces (X - {s..<s + n})"
    then have x: "x \<in> X" "x < s \<or> s + n \<le> x" "x = 0 \<or> x - 1 \<notin> X \<or> s \<le> x - 1 \<and> x - 1 < s + n"
      by (auto simp: pieces_def)
    then show "x \<in> insert (s + n) (pieces X)" by (auto simp: pieces_def)
  qed
  from card_mono [OF _ this] f show "card (pieces (X - {s..<s + n})) \<le> card (pieces X) + 1"
    by (simp add: card_insert_if split: if_splits)
qed

lemma low_inv_finite: "low_inv a \<Longrightarrow> finite (free_set a)"
  unfolding low_inv_def by (meson finite_lessThan finite_subset)

lemma bank_step:
  assumes a: "low_inv a" and b: "fst b + snd b \<le> 2 ^ 63" "region b \<inter> free_set a = {}"
    and p: "card (pieces (free_set a)) < 64" and t: "t = card (free_set a)"
  shows "\<exists>a'. register_bank b (t, a) = Some (t + snd b, a') \<and> low_inv a' \<and> free_set a' = free_set a \<union> region b \<and>
    t + snd b = card (free_set a') \<and> card (pieces (free_set a')) \<le> card (pieces (free_set a)) + 1"
proof (cases "snd b = 0")
  case False
  have nf: "\<not> pool_full a" using pool_full_pieces [of a] a p by (auto simp: low_inv_def)
  obtain a' where a': "free (fst b) (snd b) a = Some (Inr (), a')" "low_inv a'" "free_set a' = free_set a \<union> region b"
    using free_keeps [OF a, of "snd b" "fst b"] b False nf by (auto simp: region_def)
  have c: "t + snd b = card (free_set a')"
    using t a'(3) b(2) low_inv_finite [OF a] by (simp add: card_Un_disjoint Int_commute region_def)
  also have "\<dots> \<le> 2 ^ 63"
    using card_mono [of "{..<2 ^ 63}" "free_set a'"] a'(2) by (simp add: low_inv_def)
  finally have "uadd t (snd b) = Some (t + snd b)" "uadd (fst b) (snd b) = Some (fst b + snd b)"
    using b(1) by (simp_all add: uadd_def usize_limit_def)
  with a' c False pieces_step(1) [OF low_inv_finite [OF a], of "fst b" "snd b"] show ?thesis
    by (simp add: register_bank_def expect_ok_def region_def)
qed (use assms in \<open>auto simp: register_bank_def region_def\<close>)

lemma register_banks:
  assumes "low_inv a" "\<forall>b \<in> set banks. fst b + snd b \<le> 2 ^ 63 \<and> region b \<inter> free_set a = {}"
    "sorted_wrt (\<lambda>b c. region b \<inter> region c = {}) banks"
    "card (pieces (free_set a)) + length banks \<le> 64" "t = card (free_set a)"
  shows "\<exists>a'. for_each banks register_bank (t, a) = Some (t + sum_list (map snd banks), a') \<and> low_inv a' \<and>
    free_set a' = free_set a \<union> (\<Union>b \<in> set banks. region b) \<and>
    card (pieces (free_set a')) \<le> card (pieces (free_set a)) + length banks"
  using assms
proof (induction banks arbitrary: t a)
  case (Cons b banks)
  obtain a1 where a1: "register_bank b (t, a) = Some (t + snd b, a1)" "low_inv a1"
    "free_set a1 = free_set a \<union> region b" "t + snd b = card (free_set a1)"
    "card (pieces (free_set a1)) \<le> card (pieces (free_set a)) + 1"
    using bank_step [OF Cons.prems(1), of b t] Cons.prems by auto
  have "\<forall>c \<in> set banks. fst c + snd c \<le> 2 ^ 63 \<and> region c \<inter> free_set a1 = {}"
    using Cons.prems(2,3) by (auto simp: a1(3))
  with Cons.IH [OF a1(2) this _ _ a1(4)] Cons.prems(3,4) a1(5) obtain a' where a':
    "for_each banks register_bank (t + snd b, a1) = Some (t + snd b + sum_list (map snd banks), a')" "low_inv a'"
    "free_set a' = free_set a1 \<union> (\<Union>b \<in> set banks. region b)"
    "card (pieces (free_set a')) \<le> card (pieces (free_set a1)) + length banks"
    by auto
  have "free_set a' = free_set a \<union> (\<Union>c \<in> set (b # banks). region c)" using a'(3) a1(3) by auto
  with a' a1(1,5) show ?case by (simp add: add.assoc)
qed simp

lemma reserve_exactly:
  assumes a: "low_inv a" and r: "0 < snd r" "region r \<subseteq> free_set a" and p: "card (pieces (free_set a)) < 64"
  shows "\<exists>a'. expect_ok (reserve_memory (fst r) (snd r) 0 a) = Some a' \<and> reserve_region r a = Some a' \<and>
    low_inv a' \<and> free_set a' = free_set a - region r \<and>
    card (pieces (free_set a')) \<le> card (pieces (free_set a)) + 1"
proof -
  have nf: "\<not> pool_full a" using pool_full_pieces [of a] a p by (auto simp: low_inv_def)
  have "region r \<subseteq> {..<2 ^ 63}" using a r(2) unfolding low_inv_def by blast
  moreover have "fst r + snd r - 1 \<in> region r" "fst r \<in> region r" using r(1) by (simp_all add: region_def)
  ultimately have "fst r + snd r - 1 < 2 ^ 63" and st: "fst r \<in> free_set a" using r(2) by blast+
  then have lim: "fst r + snd r < usize_limit" by (simp add: usize_limit_def)
  have big: "snd r \<le> card (free_set a)"
    using card_mono [OF low_inv_finite [OF a] r(2)] by (simp add: region_def)
  obtain q a' where q: "reserve_memory (fst r) (snd r) 0 a = Some (q, a')" "reserved a (fst r) (snd r) q a'"
    using reserve_memory_correct [OF _ r(1) lim, of a] a by (auto simp: low_inv_def)
  then have ok: "q = Inr ()" using st big nf by (auto simp: reserved_def split: sum.splits)
  with q(2) obtain n where n: "alloc_inv a'" "n \<le> snd r" "n < snd r \<longrightarrow> fst r + n \<notin> free_set a"
    "free_set a' = free_set a - {fst r..<fst r + n}" by (auto simp: reserved_def)
  have "n = snd r"
  proof (rule ccontr)
    assume "n \<noteq> snd r"
    with n(2) have "fst r + n \<in> region r" "n < snd r" by (auto simp: region_def)
    with n(3) r(2) show False by blast
  qed
  then have fs: "free_set a' = free_set a - region r" using n(4) by (simp add: region_def)
  moreover have "uadd (fst r) (snd r) = Some (fst r + snd r)" using lim by (simp add: uadd_def)
  ultimately show ?thesis
    using q(1) ok n(1) a pieces_step(2) [OF low_inv_finite [OF a], of "fst r" "snd r"]
    by (auto simp: reserve_region_def expect_ok_def low_inv_def region_def)
qed

lemma reserve_segments:
  assumes "low_inv a" "\<forall>r \<in> set rs. 0 < snd r \<and> region r \<subseteq> free_set a"
    "sorted_wrt (\<lambda>b c. region b \<inter> region c = {}) rs" "card (pieces (free_set a)) + length rs \<le> 64"
  shows "\<exists>a'. for_each rs reserve_region a = Some a' \<and> low_inv a' \<and> free_set a' = free_set a - (\<Union>r \<in> set rs. region r) \<and>
    card (pieces (free_set a')) \<le> card (pieces (free_set a)) + length rs"
  using assms
proof (induction rs arbitrary: a)
  case (Cons r rs)
  obtain a1 where a1: "reserve_region r a = Some a1" "low_inv a1" "free_set a1 = free_set a - region r"
    "card (pieces (free_set a1)) \<le> card (pieces (free_set a)) + 1"
    using reserve_exactly [OF Cons.prems(1), of r] Cons.prems(2,4) by auto
  then have "\<forall>q \<in> set rs. 0 < snd q \<and> region q \<subseteq> free_set a1" using Cons.prems(2,3) by auto
  with Cons.IH [OF a1(2) this] Cons.prems(3,4) a1(4) obtain a' where a':
    "for_each rs reserve_region a1 = Some a'" "low_inv a'" "free_set a' = free_set a1 - (\<Union>r \<in> set rs. region r)"
    "card (pieces (free_set a')) \<le> card (pieces (free_set a1)) + length rs"
    by auto
  have "free_set a' = free_set a - (\<Union>q \<in> set (r # rs). region q)" using a'(3) a1(3) by auto
  with a' a1(1,4) show ?case by simp
qed simp


lemma stack_region_example: "stack_region 393216 = Some (327680, 65536)"
  using clear_low_power2 [of 393215 12]
  by (simp add: stack_region_def usub_def uadd_def PAGE_SIZE_def PAGE_SHIFT_def STACK_SIZE_def usize_limit_def)


text \<open>C14.  Memory is never handed out twice.  Whatever sequence of requests the hypervisor makes
  of the global heap, releasing only what it holds, no request panics, the regions it holds
  at the end were free at the start, are apart from each other and from the memory
  that is still free, and the allocator is still consistent.\<close>

theorem heap_never_overlaps:
  assumes "alloc_inv a" "free_set a \<subseteq> {..<2 ^ 63}" "\<forall>n k. Alloc n k \<in> set ops \<longrightarrow> (\<exists>j < 64. k = 2 ^ j)"
  shows "\<exists>live a'. client_run global_alloc global_dealloc ops [] a = Some (live, a') \<and> alloc_inv a' \<and>
    held (free_set a) (free_set a') live"
  using heap.client_holds [of a "free_set a" "[]" ops] assms by (auto simp: low_inv_def held_def)

lemma one_bank: "\<exists>a. low_inv a \<and> free_set a = {4096..<12288} \<and> \<not> pool_full a"
proof -
  have "pieces {} = {}" by (simp add: pieces_def)
  then obtain a where a: "low_inv a" "free_set a = {4096..<12288}" "card (pieces (free_set a)) \<le> 1"
    using bank_step [OF MemoryAllocator_new_low(1), of "(4096, 8192)" 0] MemoryAllocator_new_low(2)
    by (auto simp: region_def)
  with pool_full_pieces [of a] show ?thesis by (auto simp: low_inv_def)
qed

theorem heap_never_overlaps_witness:
  "\<exists>a live a'. free_set a = {4096..<12288} \<and>
    client_run global_alloc global_dealloc [Alloc 16 16, Alloc 4096 4096, Dealloc 0] [] a = Some (live, a') \<and>
    held (free_set a) (free_set a') live"
proof -
  obtain a where a: "low_inv a" "free_set a = {4096..<12288}" using one_bank by blast
  have "\<exists>j < 64. (16 :: nat) = 2 ^ j" "\<exists>j < 64. (4096 :: nat) = 2 ^ j"
    by (intro exI [of _ 4], simp) (intro exI [of _ 12], simp)
  then show ?thesis
    using heap_never_overlaps [of a "[Alloc 16 16, Alloc 4096 4096, Dealloc 0]"] a
    by (auto simp: low_inv_def)
qed

text \<open>C16.  Pages for devices.  A request for pages that hardware can reach returns without a
  panic.  On success the pages are aligned as asked, lie below 4 GiB, were free, and are no
  longer, and no other byte changes hands.  On failure the allocator is as before, and
  \<open>NoMemory\<close> means that there is no such region of that size and alignment below 4 GiB.\<close>

theorem allocate_dma_pages_correct:
  assumes "alloc_inv a" "free_set a \<subseteq> {..<2 ^ 63}" "align < 64"
  shows "\<exists>r a'. allocate_dma_pages number_of_pages align a = Some (r, a') \<and>
    (let n = pages_to_bytes number_of_pages in
     case r of
       Inr x \<Rightarrow> 2 ^ align dvd x \<and> x + n \<le> 2 ^ 32 \<and> {x..<x + n} \<subseteq> free_set a \<and>
         alloc_inv a' \<and> free_set a' = free_set a - {x..<x + n}
     | Inl e \<Rightarrow> a' = a \<and>
         (e = NoMemory \<longrightarrow> (\<forall>x. 2 ^ align dvd x \<longrightarrow> x + n \<le> 2 ^ 32 \<longrightarrow> \<not> {x..<x + n} \<subseteq> free_set a)))"
proof -
  have "low_inv a" "0 < DMA_ADDRESS_LIMIT" using assms by (simp_all add: low_inv_def DMA_ADDRESS_LIMIT_def)
  then obtain r a' where r: "allocate_dma_pages number_of_pages align a = Some (r, a')"
    "allocated a (pages_to_bytes number_of_pages) align (2 ^ 32) r a'"
    using allocate_below_keeps [OF _ assms(3), of a DMA_ADDRESS_LIMIT "pages_to_bytes number_of_pages"]
    unfolding allocate_dma_pages_def allocate_below_def DMA_ADDRESS_LIMIT_def by blast
  show ?thesis
  proof (cases r)
    case (Inl e)
    with r(2) have "a' = a \<and> (e = NoMemory \<longrightarrow> (\<forall>x. 2 ^ align dvd x \<longrightarrow> x + pages_to_bytes number_of_pages \<le> 2 ^ 32 \<longrightarrow>
        \<not> {x..<x + pages_to_bytes number_of_pages} \<subseteq> free_set a))"
      unfolding allocated_def by (cases e) simp_all
    then show ?thesis
      by (intro exI [of _ r] exI [of _ a'] conjI) (rule r(1), unfold Inl Let_def sum.case)
  qed (use r in \<open>simp add: allocated_def\<close>)
qed

theorem allocate_dma_pages_correct_witness:
  "\<exists>a r a'. free_set a = {4096..<12288} \<and> allocate_dma_pages 1 12 a = Some (r, a') \<and>
    (\<forall>x. r = Inr x \<longrightarrow> 4096 dvd x \<and> {x..<x + 4096} \<subseteq> {4096..<12288})"
proof -
  obtain a where a: "low_inv a" "free_set a = {4096..<12288}" using one_bank by blast
  then obtain r a' where "allocate_dma_pages 1 12 a = Some (r, a')"
    "let n = pages_to_bytes 1 in case r of
       Inr x \<Rightarrow> 2 ^ 12 dvd x \<and> x + n \<le> 2 ^ 32 \<and> {x..<x + n} \<subseteq> free_set a \<and>
         alloc_inv a' \<and> free_set a' = free_set a - {x..<x + n}
     | Inl e \<Rightarrow> a' = a \<and>
         (e = NoMemory \<longrightarrow> (\<forall>x. 2 ^ 12 dvd x \<longrightarrow> x + n \<le> 2 ^ 32 \<longrightarrow> \<not> {x..<x + n} \<subseteq> free_set a))"
    using allocate_dma_pages_correct [of a 12 1] by (auto simp: low_inv_def)
  with a(2) show ?thesis
    by (intro exI [of _ a] exI [of _ r] exI [of _ a'])
      (auto simp: pages_to_bytes_def PAGE_SHIFT_def usize_limit_def split: sum.splits)
qed

text \<open>C17.  Freeing refines adding to the set of free bytes.  Giving back a region of which no byte
  is free returns without a panic; afterwards the free bytes are exactly the earlier ones and
  the region, merged with its neighbours into an allocator that is consistent again, unless
  all 64 entries of the pool are in use and the region touches no free block, in which case
  nothing changes.\<close>

theorem free_refines_union:
  assumes "alloc_inv a" "0 < sz" "start + sz < usize_limit" "{start..<start + sz} \<inter> free_set a = {}"
  shows "\<exists>r a'. free start sz a = Some (r, a') \<and>
    (r = Inr () \<and> alloc_inv a' \<and> free_set a' = free_set a \<union> {start..<start + sz} \<or>
     r = Inl NoEntry \<and> a' = a \<and> (\<forall>i < 64. me_enabled (pool a i)))"
  using free_correct [OF assms] by (auto simp: frees_def gives_def pool_full_def)

theorem free_refines_union_witness:
  "\<exists>r a'. free 4096 8192 MemoryAllocator_new = Some (r, a') \<and> r = Inr () \<and> free_set a' = {4096..<12288}"
proof -
  have "\<not> me_enabled (pool MemoryAllocator_new 0)"
    by (simp add: MemoryAllocator_new_def MemoryEntry_new_def del: pool_view)
  then have "\<not> (\<forall>i < 64. me_enabled (pool MemoryAllocator_new i))" by (metis zero_less_numeral)
  then show ?thesis
    using free_refines_union [of MemoryAllocator_new 8192 4096] MemoryAllocator_new_low
    by (auto simp: low_inv_def usize_limit_def)
qed

text \<open>Allocating and freeing is the identity on free memory.  If a request succeeds and the
  region is given back, the free bytes are the original ones again, or the pool of entries
  is exhausted and only the region is lost.\<close>

lemma allocate_free_roundtrip:
  assumes "alloc_inv a" "free_set a \<subseteq> {..<2 ^ 63}" "align_order < 64"
    and "allocate sz align_order a = Some (Inr x, a')"
  shows "\<exists>r a''. free x sz a' = Some (r, a'') \<and> alloc_inv a'' \<and>
    (r = Inr () \<and> free_set a'' = free_set a \<or> r = Inl NoEntry \<and> free_set a'' = free_set a - {x..<x + sz})"
proof -
  have l: "low_inv a" "0 < usize_limit - 1" using assms(1,2) by (simp_all add: low_inv_def usize_limit_def)
  have c: "0 < sz" "{x..<x + sz} \<subseteq> free_set a" "free_set a' = free_set a - {x..<x + sz}" and l': "low_inv a'"
    using allocate_below_keeps [OF l(1) assms(3) l(2), of sz] assms(4) by (auto simp: allocate_def allocated_def)
  have "x + sz - 1 \<in> {x..<x + sz}" using c(1) by simp
  then have "x + sz - 1 < 2 ^ 63" using c(2) assms(2) by blast
  then have le: "x + sz \<le> 2 ^ 63" using c(1) by simp
  have "{x..<x + sz} \<inter> free_set a' = {}" "free_set a' \<union> {x..<x + sz} = free_set a" using c(2,3) by blast+
  then show ?thesis using free_keeps [OF l' c(1) le] c(3) by (auto simp: low_inv_def)
qed

text \<open>C18.  What a reservation removes.  It returns without a panic; on success exactly the longest
  free run that begins at the start of the request and is not longer than it leaves the
  free memory.  In particular a request that continues into a further free block
  leaves that block alone, although its bytes were asked for.  A failure changes nothing.\<close>

theorem reserve_memory_exact:
  assumes "alloc_inv a" "0 < sz" "start + sz < usize_limit"
  shows "\<exists>r a'. reserve_memory start sz 0 a = Some (r, a') \<and>
    (case r of
       Inr _ \<Rightarrow> alloc_inv a' \<and>
         (\<exists>n. 0 < n \<and> n \<le> sz \<and> {start..<start + n} \<subseteq> free_set a \<and>
            (n < sz \<longrightarrow> start + n \<notin> free_set a) \<and> free_set a' = free_set a - {start..<start + n})
     | Inl err \<Rightarrow> a' = a \<and>
         (err = NoMemory \<and> card (free_set a) < sz \<or> err = InvalidRequest \<and> start \<notin> free_set a \<or>
          err = NoEntry \<and> pool_full a))"
  using reserve_memory_correct [OF assms] unfolding reserved_def .

theorem reserve_memory_exact_witness:
  "\<exists>a a'. free_set a = {0..<10} \<union> {20..<30} \<and> reserve_memory 5 20 0 a = Some (Inr (), a') \<and>
    free_set a' = {0..<5} \<union> {20..<30}"
proof -
  have "pieces {} = {}" by (simp add: pieces_def)
  then obtain a where a: "low_inv a" "free_set a = {0..<10} \<union> {20..<30}" "card (pieces (free_set a)) \<le> 2"
    using register_banks [OF MemoryAllocator_new_low(1), of "[(0, 10), (20, 10)]" 0] MemoryAllocator_new_low(2)
    by (auto simp: region_def Un_assoc)
  have nf: "\<not> pool_full a" using pool_full_pieces [of a] a by (auto simp: low_inv_def)
  have c: "card (free_set a) = 20" unfolding a(2) by (subst card_Un_disjoint) auto
  have s: "5 \<in> free_set a" "10 \<notin> free_set a" unfolding a(2) by auto
  obtain r a' where r: "reserve_memory 5 20 0 a = Some (r, a')"
    "case r of
       Inr _ \<Rightarrow> alloc_inv a' \<and>
         (\<exists>n. 0 < n \<and> n \<le> 20 \<and> {5..<5 + n} \<subseteq> free_set a \<and>
            (n < 20 \<longrightarrow> 5 + n \<notin> free_set a) \<and> free_set a' = free_set a - {5..<5 + n})
     | Inl err \<Rightarrow> a' = a \<and>
         (err = NoMemory \<and> card (free_set a) < 20 \<or> err = InvalidRequest \<and> 5 \<notin> free_set a \<or>
          err = NoEntry \<and> pool_full a)"
    using reserve_memory_exact [of a 20 5] a(1) by (auto simp: low_inv_def usize_limit_def)
  then obtain n where n: "r = Inr ()" "0 < n" "{5..<5 + n} \<subseteq> free_set a" "n < 20 \<longrightarrow> 5 + n \<notin> free_set a"
    "free_set a' = free_set a - {5..<5 + n}"
    using c s(1) nf by (auto split: sum.splits)
  have "n = 5"
  proof (rule ccontr)
    assume "n \<noteq> 5"
    then consider "n < 5" | "5 < n" by linarith
    then show False
    proof cases
      case 1
      with n(4) show False unfolding a(2) by auto
    next
      case 2
      then have "10 \<in> {5..<5 + n}" by simp
      with n(3) s(2) show False by blast
    qed
  qed
  with n(1,5) r(1) a(2) show ?thesis by (intro exI [of _ a] exI [of _ a']) auto
qed


end
