(* ===== verification/Paging.thy ===== *)
theory Paging
  imports Memory_Interface
begin

text \<open>
  Stage-2 translation tables: \<^verbatim>\<open>paging.rs\<close>.

  A table is an array of 64-bit descriptors in memory; memory is a function from the address of
  a descriptor to its value.  New tables come from the allocator model.  The levels of the
  architecture, 0 to 3, are numbered here from the leaves: depth 0 is level 3 (pages), depth 3
  is level 0, so that the recursion of \<open>_map_address_stage2\<close> is structural.

  What the tables mean is defined by the walk the hardware makes, \<open>walk\<close>; it is the
  specification against which the code that fills the tables is proved.
\<close>

section \<open>Descriptors\<close>

datatype Shareability = NonShareable | OuterShareable | InnerShareable

definition shareability_bits :: "Shareability \<Rightarrow> u64" where
  "shareability_bits s = (case s of NonShareable \<Rightarrow> 0 | OuterShareable \<Rightarrow> 2 | InnerShareable \<Rightarrow> 3)"

definition TABLE_ADDRESS_MASK :: u64 where
  "TABLE_ADDRESS_MASK = (push_bit 50 1 - 1) AND NOT (of_nat PAGE_SIZE - 1)"
definition OUTPUT_ADDRESS_MASK :: u64 where
  "OUTPUT_ADDRESS_MASK = (push_bit 50 1 - 1) AND NOT (of_nat PAGE_SIZE - 1)"
definition AF :: u64 where "AF = push_bit 10 1"
definition SH_OFFSET :: nat where "SH_OFFSET = 8"
definition SH :: u64 where "SH = push_bit SH_OFFSET 3"
definition S2AP_OFFSET :: nat where "S2AP_OFFSET = 6"
definition S2AP :: u64 where "S2AP = push_bit S2AP_OFFSET 3"
definition ATTR_INDEX :: u64 where "ATTR_INDEX = push_bit 2 15"
definition ATTR_WRITE_BACK :: u64 where "ATTR_WRITE_BACK = push_bit 2 15"

definition descriptor_init :: u64 where
  "descriptor_init = 0"

definition validate_as_page_descriptor :: "u64 \<Rightarrow> u64" where
  "validate_as_page_descriptor d = d OR 3"

definition validate_as_table_descriptor :: "u64 \<Rightarrow> u64" where
  "validate_as_table_descriptor d = d OR 3"

definition validate_as_block_descriptor :: "u64 \<Rightarrow> u64" where
  "validate_as_block_descriptor d = d OR 1"

definition is_table_descriptor :: "u64 \<Rightarrow> bool" where
  "is_table_descriptor d \<longleftrightarrow> d AND 3 = 3"

definition get_next_level_table_address :: "u64 \<Rightarrow> usize" where
  "get_next_level_table_address d = unat (d AND TABLE_ADDRESS_MASK)"

definition set_output_address :: "usize \<Rightarrow> u64 \<Rightarrow> u64" where
  "set_output_address output_address d = (d AND NOT OUTPUT_ADDRESS_MASK) OR of_nat output_address OR AF"

definition set_shareability :: "Shareability \<Rightarrow> u64 \<Rightarrow> u64" where
  "set_shareability s d = (d AND NOT SH) OR push_bit SH_OFFSET (shareability_bits s)"

definition set_permission :: "u64 \<Rightarrow> u64 \<Rightarrow> u64" where
  "set_permission permission d = (d AND NOT S2AP) OR push_bit S2AP_OFFSET permission"

definition set_memory_attribute_write_back :: "u64 \<Rightarrow> u64" where
  "set_memory_attribute_write_back d = (d AND NOT ATTR_INDEX) OR ATTR_WRITE_BACK"

definition set_memory_attribute_device :: "u64 \<Rightarrow> u64" where
  "set_memory_attribute_device d = d AND NOT ATTR_INDEX"

text \<open>The descriptor of a page or a block, before it is made valid.\<close>

definition leaf_descriptor :: "usize \<Rightarrow> u64 \<Rightarrow> bool \<Rightarrow> u64" where
  "leaf_descriptor physical_address permission is_device =
     (let d = set_permission permission (set_output_address physical_address descriptor_init);
          d = (if is_device then set_memory_attribute_device d else set_memory_attribute_write_back d)
      in set_shareability InnerShareable d)"

section \<open>Filling the tables\<close>

type_synonym dmem = "nat \<Rightarrow> u64"

record mapst =
  mp_pa :: usize
  mp_ipa :: usize
  mp_rem :: usize
  mp_mem :: dmem
  mp_heap :: alloc

definition desc_at :: "usize \<Rightarrow> nat \<Rightarrow> usize" where
  "desc_at table index = table + 8 * index"

definition write_desc :: "usize \<Rightarrow> nat \<Rightarrow> u64 \<Rightarrow> mapst \<Rightarrow> mapst" where
  "write_desc table index d st = st\<lparr>mp_mem := (mp_mem st)(desc_at table index := d)\<rparr>"

text \<open>\<open>for d in from_raw_parts_mut(table, n) { d.init() }\<close>\<close>

definition clear_table :: "usize \<Rightarrow> nat \<Rightarrow> dmem \<Rightarrow> dmem" where
  "clear_table table n m = (\<lambda>p. if table \<le> p \<and> p < table + 8 * n then descriptor_init else m p)"

definition advance :: "usize \<Rightarrow> mapst \<Rightarrow> mapst option" where
  "advance n st = do {
     pa \<leftarrow> uadd (mp_pa st) n;
     ipa \<leftarrow> uadd (mp_ipa st) n;
     r \<leftarrow> usub (mp_rem st) n;
     Some (st\<lparr>mp_pa := pa, mp_ipa := ipa, mp_rem := r\<rparr>) }"

fun map_pages :: "usize \<Rightarrow> u64 \<Rightarrow> bool \<Rightarrow> nat list \<Rightarrow> mapst \<Rightarrow> mapst option" where
  "map_pages table permission is_device [] st = Some st"
| "map_pages table permission is_device (i # is) st = do {
     st \<leftarrow> advance PAGE_SIZE
            (write_desc table i
              (validate_as_page_descriptor (leaf_descriptor (mp_pa st) permission is_device)) st);
     if mp_rem st = 0 then Some st else map_pages table permission is_device is st }"

text \<open>The table a descriptor refers to, made if there is none.\<close>

definition next_table :: "usize \<Rightarrow> nat \<Rightarrow> mapst \<Rightarrow> ((unit + usize) \<times> mapst) option" where
  "next_table table i st =
     (let d = mp_mem st (desc_at table i)
      in if is_table_descriptor d then Some (Inr (get_next_level_table_address d), st)
         else do {
           (r, a) \<leftarrow> allocate_pages 1 12 (mp_heap st);
           let st = st\<lparr>mp_heap := a\<rparr>;
           (case r of
              Inl e \<Rightarrow> Some (Inl (), st)
            | Inr new_table \<Rightarrow>
                let st = st\<lparr>mp_mem := clear_table new_table 512 (mp_mem st)\<rparr>
                in Some (Inr new_table,
                     write_desc table i
                       (validate_as_table_descriptor (set_output_address new_table descriptor_init)) st)) })"

definition block_shift :: "nat \<Rightarrow> nat" where
  "block_shift depth = 12 + 9 * depth"

text \<open>The loop over the descriptors of a table at levels 0 to 2; \<open>sub\<close> is the call for the level
  below.  The result is \<open>Err\<close> or \<open>Ok\<close> with the new state.\<close>

fun map_descriptors ::
  "(usize \<Rightarrow> mapst \<Rightarrow> ((unit + unit) \<times> mapst) option) \<Rightarrow> nat \<Rightarrow> usize \<Rightarrow> u64 \<Rightarrow> bool \<Rightarrow> nat list \<Rightarrow> mapst \<Rightarrow>
   ((unit + unit) \<times> mapst) option" where
  "map_descriptors sub depth table permission is_device [] st = Some (Inr (), st)"
| "map_descriptors sub depth table permission is_device (i # is) st =
     (let block_size = 2 ^ block_shift depth
      in if depth \<le> 2 \<and> block_size \<le> mp_rem st \<and> mp_pa st AND (block_size - 1) = 0 \<and>
            mp_ipa st AND (block_size - 1) = 0
         then do {
           st \<leftarrow> advance block_size
                  (write_desc table i
                    (validate_as_block_descriptor (leaf_descriptor (mp_pa st) permission is_device)) st);
           if mp_rem st = 0 then Some (Inr (), st)
           else map_descriptors sub depth table permission is_device is st }
         else do {
           (r, st) \<leftarrow> next_table table i st;
           (case r of
              Inl e \<Rightarrow> Some (Inl (), st)
            | Inr next_level_table_address \<Rightarrow> do {
                (r, st) \<leftarrow> sub next_level_table_address st;
                (case r of
                   Inl e \<Rightarrow> Some (Inl (), st)
                 | Inr _ \<Rightarrow>
                     if mp_rem st = 0 then Some (Inr (), st)
                     else map_descriptors sub depth table permission is_device is st) }) })"

definition first_index :: "nat \<Rightarrow> nat \<Rightarrow> mapst \<Rightarrow> nat" where
  "first_index depth num_of_descriptors st =
     drop_bit (block_shift depth) (mp_ipa st) AND (num_of_descriptors - 1)"

fun map_table :: "nat \<Rightarrow> nat \<Rightarrow> u64 \<Rightarrow> bool \<Rightarrow> usize \<Rightarrow> mapst \<Rightarrow> ((unit + unit) \<times> mapst) option" where
  "map_table 0 n permission is_device table st = do {
     st \<leftarrow> map_pages table permission is_device [first_index 0 n st..<n] st;
     Some (Inr (), st) }"
| "map_table (Suc d) n permission is_device table st =
     map_descriptors (map_table d 512 permission is_device) (Suc d) table permission is_device
       [first_index (Suc d) n st..<n] st"

section \<open>The registers and the entry points\<close>

definition ID_AA64MMFR0_EL1_PARANGE :: u64 where "ID_AA64MMFR0_EL1_PARANGE = 15"
definition VTTBR_BADDR :: u64 where "VTTBR_BADDR = (push_bit 47 1 - 1) AND NOT 1"
definition VTTBR_VMID_BITS_OFFSET :: nat where "VTTBR_VMID_BITS_OFFSET = 48"
definition VTTBR_VMID :: u64 where "VTTBR_VMID = push_bit VTTBR_VMID_BITS_OFFSET 0xFF"
definition VTCR_EL2_RES1 :: u64 where "VTCR_EL2_RES1 = push_bit 31 1"
definition VTCR_EL2_PS_BITS_OFFSET :: nat where "VTCR_EL2_PS_BITS_OFFSET = 16"
definition VTCR_EL2_TG0_BITS_OFFSET :: nat where "VTCR_EL2_TG0_BITS_OFFSET = 14"
definition VTCR_EL2_SH0_BITS_OFFSET :: nat where "VTCR_EL2_SH0_BITS_OFFSET = 12"
definition VTCR_EL2_ORGN0_BITS_OFFSET :: nat where "VTCR_EL2_ORGN0_BITS_OFFSET = 10"
definition VTCR_EL2_IRGN0_BITS_OFFSET :: nat where "VTCR_EL2_IRGN0_BITS_OFFSET = 8"
definition VTCR_EL2_SL0_BITS_OFFSET :: nat where "VTCR_EL2_SL0_BITS_OFFSET = 6"
definition VTCR_EL2_SL0 :: u64 where "VTCR_EL2_SL0 = push_bit VTCR_EL2_SL0_BITS_OFFSET 3"
definition VTCR_EL2_T0SZ_BITS_OFFSET :: nat where "VTCR_EL2_T0SZ_BITS_OFFSET = 0"
definition VTCR_EL2_T0SZ :: u64 where "VTCR_EL2_T0SZ = push_bit VTCR_EL2_T0SZ_BITS_OFFSET 63"

record stage2 =
  s2_mem :: dmem
  s2_heap :: alloc
  vtcr_el2 :: u64
  vttbr_el2 :: u64
  tlb_flushes :: nat

text \<open>\<open>43 - ((3 - first_level) as u8) * 9\<close>, with the first level as a depth\<close>

definition number_of_concatenated_page_tables :: "nat \<Rightarrow> nat \<Rightarrow> nat" where
  "number_of_concatenated_page_tables t0sz depth =
     (if t0sz > 43 - depth * 9 then 1 else 2 ^ (43 - depth * 9 - t0sz))"

text \<open>T0SZ and the depth of the initial lookup for a physical address range.\<close>

definition geometry :: "u64 \<Rightarrow> nat \<times> nat" where
  "geometry ps =
     (if ps = 0 then (32, 2) else if ps = 1 then (28, 2) else if ps = 2 then (24, 2)
      else if ps = 3 then (22, 2) else if ps = 4 then (20, 3) else if ps = 5 then (16, 3) else (16, 3))"

definition vtcr_value :: "u64 \<Rightarrow> u64" where
  "vtcr_value ps =
     (let (t0sz, depth) = geometry ps;
          sl0 = (if depth = 2 then 1 else 2)
      in VTCR_EL2_RES1 OR push_bit VTCR_EL2_PS_BITS_OFFSET ps OR push_bit VTCR_EL2_TG0_BITS_OFFSET 0
         OR push_bit VTCR_EL2_SH0_BITS_OFFSET 3 OR push_bit VTCR_EL2_ORGN0_BITS_OFFSET 3
         OR push_bit VTCR_EL2_IRGN0_BITS_OFFSET 3 OR push_bit VTCR_EL2_SL0_BITS_OFFSET sl0
         OR push_bit VTCR_EL2_T0SZ_BITS_OFFSET (of_nat t0sz))"

definition set_vtcr_el2_for_this_pcpu :: "u64 \<Rightarrow> stage2 \<Rightarrow> stage2" where
  "set_vtcr_el2_for_this_pcpu id_aa64mmfr0_el1 s =
     s\<lparr>vtcr_el2 := vtcr_value (id_aa64mmfr0_el1 AND ID_AA64MMFR0_EL1_PARANGE)\<rparr>"

definition create_stage2_translation_table :: "u64 \<Rightarrow> stage2 \<Rightarrow> (usize \<times> stage2) option" where
  "create_stage2_translation_table id_aa64mmfr0_el1 s = do {
     let (t0sz, depth) = geometry (id_aa64mmfr0_el1 AND ID_AA64MMFR0_EL1_PARANGE);
     let number_of_tables = number_of_concatenated_page_tables t0sz depth;
     (r, a) \<leftarrow> allocate_pages number_of_tables (12 + number_of_tables - 1) (s2_heap s);
     (case r of
        Inl e \<Rightarrow> None
      | Inr table \<Rightarrow> Some (table, set_vtcr_el2_for_this_pcpu id_aa64mmfr0_el1
            (s\<lparr>s2_heap := a, s2_mem := clear_table table (number_of_tables * 512) (s2_mem s)\<rparr>))) }"

definition activate_stage2_translation_table :: "usize \<Rightarrow> u64 \<Rightarrow> stage2 \<Rightarrow> stage2" where
  "activate_stage2_translation_table table_address vmid s =
     s\<lparr>vttbr_el2 := (push_bit VTTBR_VMID_BITS_OFFSET vmid AND VTTBR_VMID) OR (of_nat table_address AND VTTBR_BADDR)\<rparr>"

text \<open>The depth of the initial lookup and the number of descriptors VTCR_EL2 stands for.\<close>

definition vtcr_depth :: "u64 \<Rightarrow> nat" where
  "vtcr_depth vtcr =
     (let sl0 = unat (drop_bit VTCR_EL2_SL0_BITS_OFFSET (vtcr AND VTCR_EL2_SL0))
      in if sl0 = 0 then 1 else if sl0 = 1 then 2 else if sl0 = 2 then 3 else 0)"

definition vtcr_descriptors :: "u64 \<Rightarrow> nat" where
  "vtcr_descriptors vtcr =
     (let t0sz = unat (drop_bit VTCR_EL2_T0SZ_BITS_OFFSET (vtcr AND VTCR_EL2_T0SZ))
      in number_of_concatenated_page_tables t0sz (vtcr_depth vtcr) * 512)"

definition access_permission :: "bool \<Rightarrow> bool \<Rightarrow> u64" where
  "access_permission is_readable is_writable = push_bit 1 (of_bool is_writable) OR of_bool is_readable"

definition map_address_stage2_internal ::
  "usize \<Rightarrow> usize \<Rightarrow> usize \<Rightarrow> usize \<Rightarrow> bool \<Rightarrow> bool \<Rightarrow> bool \<Rightarrow> stage2 \<Rightarrow> ((unit + unit) \<times> stage2) option" where
  "map_address_stage2_internal table_address physical_address intermediate_physical_address map_size
       is_readable is_writable is_device s =
     (if map_size AND (2 ^ PAGE_SHIFT - 1) \<noteq> 0 then Some (Inl (), s)
      else do {
        (r, st) \<leftarrow> map_table (vtcr_depth (vtcr_el2 s)) (vtcr_descriptors (vtcr_el2 s))
            (access_permission is_readable is_writable) is_device table_address
            \<lparr>mp_pa = physical_address, mp_ipa = intermediate_physical_address, mp_rem = map_size,
             mp_mem = s2_mem s, mp_heap = s2_heap s\<rparr>;
        let s = s\<lparr>s2_mem := mp_mem st, s2_heap := mp_heap st\<rparr>;
        (case r of
           Inl e \<Rightarrow> Some (Inl (), s)
         | Inr _ \<Rightarrow>
             Some (Inr (), if of_nat table_address = vttbr_el2 s AND VTTBR_BADDR
                           then s\<lparr>tlb_flushes := tlb_flushes s + 1\<rparr> else s)) })"

definition map_address_stage2 ::
  "usize \<Rightarrow> usize \<Rightarrow> usize \<Rightarrow> usize \<Rightarrow> bool \<Rightarrow> bool \<Rightarrow> stage2 \<Rightarrow> ((unit + unit) \<times> stage2) option" where
  "map_address_stage2 table_address physical_address intermediate_physical_address map_size is_readable is_writable s =
     map_address_stage2_internal table_address physical_address intermediate_physical_address map_size
       is_readable is_writable False s"

definition map_device_stage2 ::
  "usize \<Rightarrow> usize \<Rightarrow> usize \<Rightarrow> usize \<Rightarrow> bool \<Rightarrow> bool \<Rightarrow> stage2 \<Rightarrow> ((unit + unit) \<times> stage2) option" where
  "map_device_stage2 table_address physical_address intermediate_physical_address map_size is_readable is_writable s =
     map_address_stage2_internal table_address physical_address intermediate_physical_address map_size
       is_readable is_writable True s"

section \<open>Guest RAM\<close>

definition translate_guest_physical_address :: "usize \<Rightarrow> usize \<Rightarrow> usize \<Rightarrow> usize \<Rightarrow> usize option option" where
  "translate_guest_physical_address virtual_address ram_virtual_base_address ram_physical_base_address ram_size = do {
     e \<leftarrow> uadd ram_virtual_base_address ram_size;
     if ram_virtual_base_address \<le> virtual_address \<and> virtual_address < e then do {
       d \<leftarrow> usub virtual_address ram_virtual_base_address;
       x \<leftarrow> uadd d ram_physical_base_address;
       Some (Some x) }
     else Some None }"

section \<open>The walk\<close>

text \<open>What the hardware makes of the tables: the output address and the attributes of the
  leaf, or \<open>None\<close> for a translation fault.\<close>

definition leaf_attributes :: "u64 \<Rightarrow> u64" where
  "leaf_attributes d = d AND 0xFFC"

fun walk :: "nat \<Rightarrow> nat \<Rightarrow> dmem \<Rightarrow> usize \<Rightarrow> usize \<Rightarrow> (usize \<times> u64) option" where
  "walk 0 n m table ipa =
     (let d = m (desc_at table (ipa div 2 ^ 12 mod n))
      in if is_table_descriptor d
         then Some (get_next_level_table_address d + ipa mod 2 ^ 12, leaf_attributes d) else None)"
| "walk (Suc k) n m table ipa =
     (let d = m (desc_at table (ipa div 2 ^ block_shift (Suc k) mod n))
      in if is_table_descriptor d then walk k 512 m (get_next_level_table_address d) ipa
         else if d AND 3 = 1 \<and> Suc k \<le> 2
         then Some (get_next_level_table_address d + ipa mod 2 ^ block_shift (Suc k), leaf_attributes d)
         else None)"

end
