(* ===== verification/Paging_Proofs.thy ===== *)
theory Paging_Proofs
  imports Paging
begin

section \<open>Fields of descriptors\<close>

lemma mask_bits: "bit TABLE_ADDRESS_MASK j \<longleftrightarrow> 12 \<le> j \<and> j < 50" "OUTPUT_ADDRESS_MASK = TABLE_ADDRESS_MASK"
proof -
  have e: "(push_bit 50 1 - 1 :: u64) = mask 50" "(of_nat PAGE_SIZE - 1 :: u64) = mask 12"
    by (simp_all add: mask_eq_exp_minus_1 push_bit_eq_mult PAGE_SIZE_def PAGE_SHIFT_def)
  show "bit TABLE_ADDRESS_MASK j \<longleftrightarrow> 12 \<le> j \<and> j < 50"
    unfolding TABLE_ADDRESS_MASK_def e by (auto simp: bit_and_iff bit_not_iff bit_mask_iff)
qed (simp add: OUTPUT_ADDRESS_MASK_def TABLE_ADDRESS_MASK_def)

text \<open>A page-aligned address below \<open>2 ^ 50\<close>, as bits of a descriptor.\<close>

lemma page_address_bits:
  assumes "4096 dvd x" "x < 2 ^ 50" "bit (of_nat x :: u64) j"
  shows "12 \<le> j" "j < 50"
proof -
  have b: "bit x j" using assms(3) by (simp add: bit_simps)
  obtain q where "x = 2 ^ 12 * q" using assms(1) by (auto simp: dvd_def)
  then have "x = push_bit 12 q" by (simp add: push_bit_eq_mult)
  with b show "12 \<le> j" by (simp add: bit_push_bit_iff)
  show "j < 50"
  proof (rule ccontr)
    assume "\<not> j < 50"
    then have "x < 2 ^ j" using assms(2) power_increasing [of 50 j "2 :: nat"] by linarith
    then have "x div 2 ^ j = 0" by simp
    with b show False by (simp add: bit_iff_odd)
  qed
qed

lemma address_in_descriptor:
  assumes x: "4096 dvd x" "x < 2 ^ 50" and d: "\<And>j. 12 \<le> j \<Longrightarrow> j < 50 \<Longrightarrow> bit d j \<longleftrightarrow> bit (of_nat x :: u64) j"
  shows "get_next_level_table_address d = x"
proof -
  have "d AND TABLE_ADDRESS_MASK = of_nat x"
    using d page_address_bits [OF x] by (intro bit_word_eqI) (auto simp: bit_and_iff mask_bits)
  moreover have "unat (of_nat x :: u64) = x" using x(2) by (simp add: unat_of_nat take_bit_nat_eq_self_iff)
  ultimately show ?thesis by (simp add: get_next_level_table_address_def)
qed

lemma bit_small:
  "bit (3 :: u64) j \<longleftrightarrow> j < 2" "bit (1 :: u64) j \<longleftrightarrow> j = 0" "bit (15 :: u64) j \<longleftrightarrow> j < 4"
  "bit (0xFFC :: u64) j \<longleftrightarrow> 2 \<le> j \<and> j < 12"
proof -
  have e: "(3 :: u64) = mask 2" "(15 :: u64) = mask 4" "(0xFFC :: u64) = push_bit 2 (mask 10)"
    by (simp_all add: mask_eq_exp_minus_1)
  show "bit (3 :: u64) j \<longleftrightarrow> j < 2" unfolding e by (auto simp: bit_mask_iff)
  show "bit (15 :: u64) j \<longleftrightarrow> j < 4" unfolding e by (auto simp: bit_mask_iff)
  show "bit (0xFFC :: u64) j \<longleftrightarrow> 2 \<le> j \<and> j < 12" unfolding e by (auto simp: bit_mask_iff bit_simps)
  show "bit (1 :: u64) j \<longleftrightarrow> j = 0" by (auto simp: bit_1_iff)
qed

lemma permission_bits: "permission < 4 \<Longrightarrow> bit (permission :: u64) j \<Longrightarrow> j < 2"
proof (rule ccontr)
  assume p: "permission < 4" "bit permission j" "\<not> j < 2"
  have "take_bit 2 permission = permission"
    using p(1) by (simp add: take_bit_eq_mod word_less_nat_alt unat_mod word_unat_eq_iff)
  then have "bit (take_bit 2 permission) j" using p(2) by simp
  with p(3) show False by (simp add: bit_take_bit_iff)
qed

lemma setter_bits:
  "bit (set_output_address x descriptor_init) j \<longleftrightarrow> bit (of_nat x :: u64) j \<or> j = 10"
  "permission < 4 \<Longrightarrow> bit (set_permission permission d) j \<longleftrightarrow> (if 6 \<le> j \<and> j < 8 then bit permission (j - 6) else bit d j)"
  "bit (set_memory_attribute_device d) j \<longleftrightarrow> \<not> (2 \<le> j \<and> j < 6) \<and> bit d j"
  "bit (set_memory_attribute_write_back d) j \<longleftrightarrow> 2 \<le> j \<and> j < 6 \<or> bit d j"
  "bit (set_shareability InnerShareable d) j \<longleftrightarrow> 8 \<le> j \<and> j < 10 \<or> bit d j"
proof -
  have f: "bit (push_bit k (3 :: u64)) j \<longleftrightarrow> k \<le> j \<and> j < k + 2 \<and> j < 64"
    "bit (push_bit k (15 :: u64)) j \<longleftrightarrow> k \<le> j \<and> j < k + 4 \<and> j < 64" for k
    unfolding bit_push_bit_iff bit_small by auto
  have l: "bit d j \<Longrightarrow> j < 64" using bit_imp_le_length [of d j] by simp
  show "bit (set_output_address x descriptor_init) j \<longleftrightarrow> bit (of_nat x :: u64) j \<or> j = 10"
    unfolding set_output_address_def descriptor_init_def AF_def bit_or_iff bit_and_iff bit_push_bit_iff bit_small by auto
  show "bit (set_memory_attribute_device d) j \<longleftrightarrow> \<not> (2 \<le> j \<and> j < 6) \<and> bit d j"
    unfolding set_memory_attribute_device_def ATTR_INDEX_def bit_and_iff bit_not_iff f using l by auto
  show "bit (set_memory_attribute_write_back d) j \<longleftrightarrow> 2 \<le> j \<and> j < 6 \<or> bit d j"
    unfolding set_memory_attribute_write_back_def ATTR_INDEX_def ATTR_WRITE_BACK_def bit_and_iff bit_or_iff bit_not_iff f
    using l by auto
  show "bit (set_shareability InnerShareable d) j \<longleftrightarrow> 8 \<le> j \<and> j < 10 \<or> bit d j"
    unfolding set_shareability_def SH_def SH_OFFSET_def shareability_bits_def Shareability.case bit_and_iff bit_or_iff bit_not_iff f
    using l by auto
  assume p: "permission < 4"
  have q: "bit permission (j - 6) \<Longrightarrow> j - 6 < 2" using permission_bits [OF p] by blast
  show "bit (set_permission permission d) j \<longleftrightarrow> (if 6 \<le> j \<and> j < 8 then bit permission (j - 6) else bit d j)"
    unfolding set_permission_def S2AP_def S2AP_OFFSET_def bit_and_iff bit_or_iff bit_not_iff f
    using l q by (auto simp: bit_push_bit_iff)
qed

lemma leaf_bits:
  assumes x: "4096 dvd x" "x < 2 ^ 50" and p: "permission < 4"
  shows "bit (leaf_descriptor x permission is_device) j \<longleftrightarrow>
    2 \<le> j \<and> j < 6 \<and> \<not> is_device \<or> 6 \<le> j \<and> j < 8 \<and> bit permission (j - 6) \<or> 8 \<le> j \<and> j < 11 \<or>
    bit (of_nat x :: u64) j"
proof -
  have b: "bit (of_nat x :: u64) j \<Longrightarrow> 12 \<le> j" using page_address_bits [OF x, of j] by blast
  show ?thesis
    unfolding leaf_descriptor_def Let_def
    by (cases is_device) (use b in \<open>auto simp: setter_bits(1,3-) setter_bits(2) [OF p]\<close>)
qed

lemma low_bits: "(d :: u64) AND 3 = 3 \<longleftrightarrow> bit d 0 \<and> bit d 1" "(d :: u64) AND 3 = 1 \<longleftrightarrow> bit d 0 \<and> \<not> bit d 1"
proof -
  have e: "d AND 3 = v \<longleftrightarrow> (\<forall>j. (bit d j \<and> j < 2) = bit v j)" for v
  proof -
    have "d AND 3 = v \<longleftrightarrow> (\<forall>j. bit (d AND 3) j = bit v j)" by (auto intro: bit_word_eqI)
    then show ?thesis unfolding bit_and_iff bit_small .
  qed
  have two: "(\<forall>j. (bit d j \<and> j < 2) = (j < 2 \<and> Q j)) \<longleftrightarrow> bit d 0 = Q 0 \<and> bit d 1 = Q 1" for Q :: "nat \<Rightarrow> bool"
    by (metis less_2_cases_iff One_nat_def)
  show "d AND 3 = 3 \<longleftrightarrow> bit d 0 \<and> bit d 1"
    unfolding e bit_small using two [of "\<lambda>_. True"] by simp
  show "d AND 3 = 1 \<longleftrightarrow> bit d 0 \<and> \<not> bit d 1"
    unfolding e bit_small using two [of "\<lambda>j. j = 0"] by (simp cong: conj_cong) (metis less_2_cases_iff)
qed

definition attrs :: "u64 \<Rightarrow> bool \<Rightarrow> u64" where
  "attrs permission is_device = leaf_attributes (leaf_descriptor 0 permission is_device)"

lemma leaf_facts:
  fixes is_device :: bool
  assumes x: "4096 dvd x" "x < 2 ^ 50" and p: "permission < 4"
  defines "d \<equiv> leaf_descriptor x permission is_device"
  shows "is_table_descriptor (validate_as_page_descriptor d)"
    "\<not> is_table_descriptor (validate_as_block_descriptor d)" "validate_as_block_descriptor d AND 3 = 1"
    "get_next_level_table_address (validate_as_page_descriptor d) = x"
    "get_next_level_table_address (validate_as_block_descriptor d) = x"
    "leaf_attributes (validate_as_page_descriptor d) = attrs permission is_device"
    "leaf_attributes (validate_as_block_descriptor d) = attrs permission is_device"
proof -
  note b = page_address_bits [OF x]
  have d: "bit d j \<longleftrightarrow> 2 \<le> j \<and> j < 6 \<and> \<not> is_device \<or> 6 \<le> j \<and> j < 8 \<and> bit permission (j - 6) \<or> 8 \<le> j \<and> j < 11 \<or>
    bit (of_nat x :: u64) j" for j
    unfolding d_def by (rule leaf_bits [OF x p])
  have v: "bit (validate_as_page_descriptor d) j \<longleftrightarrow> j < 2 \<or> bit d j"
    "bit (validate_as_block_descriptor d) j \<longleftrightarrow> j = 0 \<or> bit d j" for j
    unfolding validate_as_page_descriptor_def validate_as_block_descriptor_def bit_or_iff bit_small by auto
  have n1: "\<not> bit d 1" "\<not> bit d 0" using b [of 1] b [of 0] by (auto simp: d)
  show "is_table_descriptor (validate_as_page_descriptor d)"
    "\<not> is_table_descriptor (validate_as_block_descriptor d)" "validate_as_block_descriptor d AND 3 = 1"
    unfolding is_table_descriptor_def low_bits v using n1 by auto
  show "get_next_level_table_address (validate_as_page_descriptor d) = x"
    "get_next_level_table_address (validate_as_block_descriptor d) = x"
    by (rule address_in_descriptor [OF x]; use v d in auto)+
  have z: "bit (leaf_descriptor 0 permission is_device) j \<longleftrightarrow> 2 \<le> j \<and> j < 6 \<and> \<not> is_device \<or> 6 \<le> j \<and> j < 8 \<and> bit permission (j - 6) \<or> 8 \<le> j \<and> j < 11" for j
    using leaf_bits [OF _ _ p, of 0 is_device j] by simp
  have nb: "j < 12 \<Longrightarrow> \<not> bit (of_nat x :: u64) j" for j using b(1) [of j] by auto
  show "leaf_attributes (validate_as_page_descriptor d) = attrs permission is_device"
  proof (rule bit_word_eqI)
    fix j show "bit (leaf_attributes (validate_as_page_descriptor d)) j = bit (attrs permission is_device) j"
      unfolding leaf_attributes_def attrs_def bit_and_iff bit_small v d z using nb [of j] by auto
  qed
  show "leaf_attributes (validate_as_block_descriptor d) = attrs permission is_device"
  proof (rule bit_word_eqI)
    fix j show "bit (leaf_attributes (validate_as_block_descriptor d)) j = bit (attrs permission is_device) j"
      unfolding leaf_attributes_def attrs_def bit_and_iff bit_small v d z using nb [of j] by auto
  qed
qed

lemma table_facts:
  assumes x: "4096 dvd x" "x < 2 ^ 50"
  defines "d \<equiv> validate_as_table_descriptor (set_output_address x descriptor_init)"
  shows "is_table_descriptor d" "get_next_level_table_address d = x"
proof -
  have v: "bit d j \<longleftrightarrow> j < 2 \<or> bit (of_nat x :: u64) j \<or> j = 10" for j
    unfolding d_def validate_as_table_descriptor_def bit_or_iff setter_bits bit_small by auto
  show "is_table_descriptor d" unfolding is_table_descriptor_def low_bits v by auto
  show "get_next_level_table_address d = x" by (rule address_in_descriptor [OF x]) (use v in auto)
qed

lemma init_facts: "\<not> is_table_descriptor descriptor_init" "descriptor_init AND 3 \<noteq> 1"
  unfolding is_table_descriptor_def descriptor_init_def by simp_all

lemma attrs_bits:
  assumes "permission < 4"
  shows "bit (attrs permission is_device) j \<longleftrightarrow>
    2 \<le> j \<and> j < 6 \<and> \<not> is_device \<or> 6 \<le> j \<and> j < 8 \<and> bit permission (j - 6) \<or> 8 \<le> j \<and> j < 11"
  using leaf_bits [OF _ _ assms, of 0 is_device j]
  unfolding attrs_def leaf_attributes_def bit_and_iff bit_small by auto

section \<open>The tables in memory\<close>

definition own :: "usize \<Rightarrow> nat \<Rightarrow> nat set" where
  "own t n = {t..<t + 8 * n}"

definition child :: "dmem \<Rightarrow> usize \<Rightarrow> nat \<Rightarrow> usize option" where
  "child m t i = (let d = m (desc_at t i)
     in if is_table_descriptor d then Some (get_next_level_table_address d) else None)"

text \<open>The memory a table and the tables below it occupy, and that none of them overlap.\<close>

fun area :: "nat \<Rightarrow> nat \<Rightarrow> dmem \<Rightarrow> usize \<Rightarrow> nat set" where
  "area 0 n m t = own t n"
| "area (Suc k) n m t = own t n \<union> (\<Union>i \<in> {..<n}. case child m t i of None \<Rightarrow> {} | Some a \<Rightarrow> area k 512 m a)"

definition sub_area :: "nat \<Rightarrow> dmem \<Rightarrow> usize \<Rightarrow> nat \<Rightarrow> nat set" where
  "sub_area k m t i = (case child m t i of None \<Rightarrow> {} | Some a \<Rightarrow> area k 512 m a)"

fun sep :: "nat \<Rightarrow> nat \<Rightarrow> dmem \<Rightarrow> usize \<Rightarrow> bool" where
  "sep 0 n m t = True"
| "sep (Suc k) n m t =
     ((\<forall>i < n. sub_area k m t i \<inter> own t n = {}) \<and>
      (\<forall>i < n. \<forall>j < n. i \<noteq> j \<longrightarrow> sub_area k m t i \<inter> sub_area k m t j = {}) \<and>
      (\<forall>i < n. \<forall>a. child m t i = Some a \<longrightarrow> sep k 512 m a))"

lemma area_Suc: "area (Suc k) n m t = own t n \<union> (\<Union>i \<in> {..<n}. sub_area k m t i)"
  by (simp add: sub_area_def)

declare area.simps(2) [simp del]

lemma desc_at_own: "i < n \<Longrightarrow> desc_at t i \<in> own t n"
  by (simp add: desc_at_def own_def)

lemma desc_at_inj: "desc_at t i = desc_at t j \<longleftrightarrow> i = j"
  by (simp add: desc_at_def)

lemma own_area: "own t n \<subseteq> area k n m t"
  by (cases k) (auto simp: area_Suc)

lemma sub_area_subset: "i < n \<Longrightarrow> sub_area k m t i \<subseteq> area (Suc k) n m t"
  by (auto simp: area_Suc)

text \<open>Walks see only that memory.\<close>

lemma area_frame:
  assumes "\<And>p. p \<in> area k n m t \<Longrightarrow> m' p = m p"
  shows "area k n m' t = area k n m t \<and> sep k n m' t = sep k n m t \<and> (0 < n \<longrightarrow> walk k n m' t x = walk k n m t x)"
  using assms
proof (induction k arbitrary: n t)
  case 0
  then show ?case by (auto simp: desc_at_own)
next
  case (Suc k)
  have own: "m' (desc_at t i) = m (desc_at t i)" if "i < n" for i
    using Suc.prems desc_at_own [OF that] own_area by blast
  have c: "child m' t i = child m t i" if "i < n" for i
    using own [OF that] by (simp add: child_def)
  have IH: "area k 512 m' a = area k 512 m a \<and> sep k 512 m' a = sep k 512 m a \<and> walk k 512 m' a x = walk k 512 m a x"
    if "i < n" "child m t i = Some a" for i a
    using Suc.IH [of 512 a] Suc.prems sub_area_subset [OF that(1), of k m t] that(2) by (auto simp: sub_area_def)
  have s: "sub_area k m' t i = sub_area k m t i" if "i < n" for i
    using c [OF that] IH [OF that] by (auto simp: sub_area_def split: option.split)
  have "area (Suc k) n m' t = area (Suc k) n m t" using s by (simp add: area_Suc)
  moreover have "sep (Suc k) n m' t = sep (Suc k) n m t"
    using s c IH by auto
  moreover have "walk (Suc k) n m' t x = walk (Suc k) n m t x" if "0 < n"
  proof -
    let ?i = "x div 2 ^ block_shift (Suc k) mod n"
    have i: "?i < n" using that by simp
    show ?thesis
      using own [OF i] IH [OF i] by (auto simp: Let_def child_def)
  qed
  ultimately show ?case by blast
qed

lemmas walk_frame = area_frame [THEN conjunct2, THEN conjunct2, rule_format]

section \<open>What a piece of mapping has done\<close>

definition span :: "nat \<Rightarrow> nat" where
  "span k = 2 ^ block_shift k"

lemma span_Suc: "span (Suc k) = 512 * span k"
  by (simp add: span_def block_shift_def power_add)

lemma span_pos [simp]: "0 < span k"
  by (simp add: span_def)

lemma span_page: "4096 dvd span k"
  by (simp add: span_def block_shift_def power_add)

definition mapped :: "nat \<Rightarrow> nat \<Rightarrow> usize \<Rightarrow> usize \<Rightarrow> u64 \<Rightarrow> mapst \<Rightarrow> nat \<Rightarrow> mapst \<Rightarrow> bool" where
  "mapped k n t base at st c st' \<longleftrightarrow>
     c \<le> mp_rem st \<and> mp_pa st' = mp_pa st + c \<and> mp_ipa st' = mp_ipa st + c \<and> mp_rem st' = mp_rem st - c \<and>
     (\<forall>x \<in> {base..<base + n * span k}. walk k n (mp_mem st') t x =
        (if mp_ipa st \<le> x \<and> x < mp_ipa st + c then Some (mp_pa st + (x - mp_ipa st), at)
         else walk k n (mp_mem st) t x)) \<and>
     low_inv (mp_heap st') \<and> free_set (mp_heap st') \<subseteq> free_set (mp_heap st) \<and>
     area k n (mp_mem st') t \<subseteq> area k n (mp_mem st) t \<union> (free_set (mp_heap st) - free_set (mp_heap st')) \<and>
     sep k n (mp_mem st') t \<and>
     (\<forall>p. p \<notin> area k n (mp_mem st) t \<union> (free_set (mp_heap st) - free_set (mp_heap st')) \<longrightarrow> mp_mem st' p = mp_mem st p)"

lemma mapped_trans:
  assumes a: "mapped k n t base at st c st1" and b: "mapped k n t base at st1 c' st2"
  shows "mapped k n t base at st (c + c') st2"
proof -
  let ?f = "\<lambda>s. free_set (mp_heap s)" and ?ar = "\<lambda>s. area k n (mp_mem s) t"
  have A: "?f st1 \<subseteq> ?f st" "?f st2 \<subseteq> ?f st1" "?ar st1 \<subseteq> ?ar st \<union> (?f st - ?f st1)"
    "?ar st2 \<subseteq> ?ar st1 \<union> (?f st1 - ?f st2)"
    using a b by (simp_all add: mapped_def)
  have ar: "?ar st2 \<subseteq> ?ar st \<union> (?f st - ?f st2)" using A by blast
  have fr: "mp_mem st2 p = mp_mem st p" if "p \<notin> ?ar st \<union> (?f st - ?f st2)" for p
  proof -
    have "p \<notin> ?ar st \<union> (?f st - ?f st1)" "p \<notin> ?ar st1 \<union> (?f st1 - ?f st2)" using that A by blast+
    then show ?thesis using a b by (simp add: mapped_def)
  qed
  have w: "walk k n (mp_mem st2) t x =
      (if mp_ipa st \<le> x \<and> x < mp_ipa st + (c + c') then Some (mp_pa st + (x - mp_ipa st), at)
         else walk k n (mp_mem st) t x)" if "x \<in> {base..<base + n * span k}" for x
    using a b that unfolding mapped_def by auto
  from a b ar fr w show ?thesis unfolding mapped_def by auto
qed

lemma mapped_refl: "low_inv (mp_heap st) \<Longrightarrow> sep k n (mp_mem st) t \<Longrightarrow> mapped k n t base at st 0 st"
  by (auto simp: mapped_def)

definition ready :: "nat \<Rightarrow> nat \<Rightarrow> usize \<Rightarrow> mapst \<Rightarrow> bool" where
  "ready k n t st \<longleftrightarrow> low_inv (mp_heap st) \<and> free_set (mp_heap st) \<subseteq> {..<2 ^ 48} \<and> sep k n (mp_mem st) t \<and>
     area k n (mp_mem st) t \<inter> free_set (mp_heap st) = {} \<and> 4096 dvd mp_pa st \<and> 4096 dvd mp_ipa st \<and>
     4096 dvd mp_rem st \<and> mp_pa st + mp_rem st \<le> 2 ^ 48 \<and> mp_ipa st + mp_rem st \<le> 2 ^ 48"

lemma mapped_ready:
  assumes m: "mapped k n t base at st c st'" and r: "ready k n t st" and c: "4096 dvd c"
  shows "ready k n t st'"
proof -
  have "area k n (mp_mem st') t \<inter> free_set (mp_heap st') = {}"
    using m r unfolding mapped_def ready_def by blast
  moreover have "free_set (mp_heap st') \<subseteq> {..<2 ^ 48}" using m r unfolding mapped_def ready_def by blast
  ultimately show ?thesis using m r c unfolding mapped_def ready_def by (auto simp: dvd_diff_nat)
qed

text \<open>The entry of a table that an address of its range belongs to.\<close>

lemma index_in_range:
  fixes x n k base :: nat
  assumes "base = q * (n * span k)" "x \<in> {base..<base + n * span k}"
  shows "x div span k mod n = (x - base) div span k" "(x - base) div span k < n"
    "base + (x - base) div span k * span k \<le> x" "x < base + (x - base) div span k * span k + span k"
proof -
  define y where "y = x - base"
  have y: "x = base + y" "y < n * span k" using assms(2) by (auto simp: y_def)
  then show lt: "(x - base) div span k < n" by (simp add: div_less_iff_less_mult)
  have "x div span k = q * n + y div span k"
    using y(1) assms(1) by (simp add: div_mult_self4 mult.assoc [symmetric] add.commute)
  then show "x div span k mod n = (x - base) div span k" using lt y(1) by simp
  show "base + (x - base) div span k * span k \<le> x" using y(1) by simp
  show "x < base + (x - base) div span k * span k + span k"
    using y(1) div_mult_mod_eq [of y "span k"] mod_less_divisor [OF span_pos, of y k] by (simp only: add_diff_cancel_left')
qed

lemma index_eqI:
  fixes x n k base i :: nat
  assumes "base = q * (n * span k)" "i < n" "base + i * span k \<le> x" "x < base + i * span k + span k"
  shows "x \<in> {base..<base + n * span k}" "x div span k mod n = i"
proof -
  have "i * span k + span k \<le> n * span k" using assms(2) by (metis Suc_leI add.commute mult_Suc mult_le_mono1)
  then show x: "x \<in> {base..<base + n * span k}" using assms(3,4) by auto
  have "(x - base) div span k = i"
    using assms(3,4) by (intro div_nat_eqI) (auto simp: mult.commute)
  with index_in_range(1) [OF assms(1) x] show "x div span k mod n = i" by simp
qed

declare walk.simps(2) [simp del]

lemma walk_child:
  assumes "0 < n" "child m t (x div span (Suc k) mod n) = Some a"
  shows "walk (Suc k) n m t x = walk k 512 m a x"
  using assms by (auto simp: walk.simps(2) child_def Let_def span_def split: if_splits)

text \<open>Changing memory only below one entry of a table, and in memory that was free.\<close>

definition below :: "nat \<Rightarrow> nat \<Rightarrow> usize \<Rightarrow> nat \<Rightarrow> nat set \<Rightarrow> dmem \<Rightarrow> dmem \<Rightarrow> bool" where
  "below k n t i F M M' \<longleftrightarrow> i < n \<and> sep (Suc k) n M t \<and> area (Suc k) n M t \<inter> F = {} \<and>
     (\<forall>p. p \<notin> sub_area k M t i \<union> F \<longrightarrow> M' p = M p)"

lemma below_apart:
  assumes "below k n t i F M M'"
  shows "own t n \<inter> (sub_area k M t i \<union> F) = {}"
    "j < n \<Longrightarrow> j \<noteq> i \<Longrightarrow> sub_area k M t j \<inter> (sub_area k M t i \<union> F) = {}"
proof -
  have i: "i < n" "area (Suc k) n M t \<inter> F = {}" "\<forall>i < n. sub_area k M t i \<inter> own t n = {}"
    "\<forall>i < n. \<forall>j < n. i \<noteq> j \<longrightarrow> sub_area k M t i \<inter> sub_area k M t j = {}"
    using assms by (simp_all add: below_def)
  show "own t n \<inter> (sub_area k M t i \<union> F) = {}" using i(1-3) unfolding area_Suc by blast
  assume j: "j < n" "j \<noteq> i"
  then have "sub_area k M t j \<inter> sub_area k M t i = {}" using i(1,4) by blast
  with j i(2) sub_area_subset [OF j(1), of k M t]
  show "sub_area k M t j \<inter> (sub_area k M t i \<union> F) = {}" by blast
qed

lemma below_own: "below k n t i F M M' \<Longrightarrow> j < n \<Longrightarrow> M' (desc_at t j) = M (desc_at t j)"
  using below_apart(1) [of k n t i F M M'] desc_at_own [of j n t] unfolding below_def by blast

lemma below_child: "below k n t i F M M' \<Longrightarrow> j < n \<Longrightarrow> child M' t j = child M t j"
  by (simp add: child_def below_own)

lemma below_other:
  assumes b: "below k n t i F M M'" and j: "j < n" "j \<noteq> i"
  shows "sub_area k M' t j = sub_area k M t j"
    "child M t j = Some a \<Longrightarrow> sep k 512 M' a" "child M t j = Some a \<Longrightarrow> walk k 512 M' a x = walk k 512 M a x"
proof -
  have f: "M' p = M p" if "child M t j = Some a" "p \<in> area k 512 M a" for p a
    using below_apart(2) [OF b j] that b unfolding below_def sub_area_def by auto
  show "sub_area k M' t j = sub_area k M t j"
    using below_child [OF b j(1)] area_frame [OF f] by (cases "child M t j") (auto simp: sub_area_def)
  assume c: "child M t j = Some a"
  have "sep k 512 M a" using b c j(1) by (auto simp: below_def)
  with area_frame [OF f [OF c]] show "sep k 512 M' a" "walk k 512 M' a x = walk k 512 M a x" by auto
qed

lemma below_area_sep:
  assumes b: "below k n t i F M M'" and a: "child M t i = Some a" "area k 512 M' a \<subseteq> sub_area k M t i \<union> F" "sep k 512 M' a"
  shows "area (Suc k) n M' t \<subseteq> area (Suc k) n M t \<union> F" "sep (Suc k) n M' t"
proof -
  have i: "i < n" and S: "\<And>j. j < n \<Longrightarrow> sub_area k M t j \<inter> own t n = {}"
    "\<And>j l. j < n \<Longrightarrow> l < n \<Longrightarrow> j \<noteq> l \<Longrightarrow> sub_area k M t j \<inter> sub_area k M t l = {}"
    using b by (simp_all add: below_def)
  have si: "sub_area k M' t i \<subseteq> sub_area k M t i \<union> F"
    using a(1,2) below_child [OF b i] by (simp add: sub_area_def)
  have "sub_area k M' t j \<subseteq> area (Suc k) n M t \<union> F" if "j < n" for j
    using that below_other(1) [OF b that] si sub_area_subset [OF that, of k M t] by (cases "j = i") auto
  then show "area (Suc k) n M' t \<subseteq> area (Suc k) n M t \<union> F" by (auto simp: area_Suc)
  have "sub_area k M' t j \<inter> own t n = {}" if "j < n" for j
    using that below_other(1) [OF b that] si below_apart(1) [OF b] S(1) by (cases "j = i") auto
  moreover have "sub_area k M' t j \<inter> sub_area k M' t l = {}" if "j < n" "l < n" "j \<noteq> l" for j l
    using that below_other(1) [OF b, of j] below_other(1) [OF b, of l] si
      below_apart(2) [OF b, of j] below_apart(2) [OF b, of l] S(2) by (cases "j = i"; cases "l = i") auto
  moreover have "sep k 512 M' c" if "j < n" "child M' t j = Some c" for j c
    using that below_other(2) [OF b, of j c] a(1,3) below_child [OF b] by (cases "j = i") auto
  ultimately show "sep (Suc k) n M' t" by simp
qed

lemma below_walk:
  assumes b: "below k n t i F M M'" and a: "child M t i = Some a"
  shows "walk (Suc k) n M' t x =
    (if x div span (Suc k) mod n = i then walk k 512 M' a x else walk (Suc k) n M t x)"
proof -
  let ?j = "x div span (Suc k) mod n"
  have n: "0 < n" using b by (auto simp: below_def)
  then have j: "?j < n" by simp
  show ?thesis
  proof (cases "?j = i")
    case True
    then show ?thesis using walk_child [OF n] a below_child [OF b j] by simp
  next
    case False
    show ?thesis
    proof (cases "child M t ?j")
      case None
      then show ?thesis
        using below_own [OF b j] False by (auto simp: walk.simps(2) child_def Let_def span_def split: if_splits)
    next
      case (Some c)
      then show ?thesis
        using walk_child [OF n Some] walk_child [OF n, of M' t x k c] below_child [OF b j] below_other(3) [OF b j False Some] False
        by simp
    qed
  qed
qed

text \<open>Mapping done in a table below.\<close>

lemma mapped_lift:
  assumes m: "mapped k 512 a (base + i * span (Suc k)) at st c st'" and r: "ready (Suc k) n t st"
    and i: "i < n" "child (mp_mem st) t i = Some a" and b: "base = q * (n * span (Suc k))"
    and c: "base + i * span (Suc k) \<le> mp_ipa st" "mp_ipa st + c \<le> base + i * span (Suc k) + span (Suc k)"
  shows "mapped (Suc k) n t base at st c st'"
proof -
  let ?M = "mp_mem st" and ?M' = "mp_mem st'" and ?F = "free_set (mp_heap st) - free_set (mp_heap st')"
  have sA: "sub_area k ?M t i = area k 512 ?M a" using i(2) by (simp add: sub_area_def)
  have be: "below k n t i ?F ?M ?M'"
    using r m i(1) unfolding below_def ready_def mapped_def sA by blast
  have sub: "area k 512 ?M' a \<subseteq> sub_area k ?M t i \<union> ?F" "sep k 512 ?M' a"
    using m by (simp_all add: mapped_def sA)
  have walk: "walk (Suc k) n ?M' t x = (if mp_ipa st \<le> x \<and> x < mp_ipa st + c then Some (mp_pa st + (x - mp_ipa st), at)
         else walk (Suc k) n ?M t x)" if x: "x \<in> {base..<base + n * span (Suc k)}" for x
  proof (cases "x div span (Suc k) mod n = i")
    case True
    then have "x \<in> {base + i * span (Suc k)..<base + i * span (Suc k) + 512 * span k}"
      using index_in_range [OF b x] by (simp add: span_Suc)
    then have "walk k 512 ?M' a x = (if mp_ipa st \<le> x \<and> x < mp_ipa st + c then Some (mp_pa st + (x - mp_ipa st), at)
         else walk k 512 ?M a x)" using m unfolding mapped_def by blast
    with True show ?thesis using below_walk [OF be i(2)] walk_child [of n ?M t x k a] i by simp
  next
    case False
    then have "\<not> (mp_ipa st \<le> x \<and> x < mp_ipa st + c)"
      using index_eqI(2) [OF b i(1), of x] c by auto
    with False show ?thesis using below_walk [OF be i(2)] by (simp only: if_False)
  qed
  have out: "?M' p = ?M p" if "p \<notin> area (Suc k) n ?M t \<union> ?F" for p
    using be that sub_area_subset [OF i(1), of k ?M t] unfolding below_def by blast
  show ?thesis
    using m walk out below_area_sep [OF be i(2) sub] unfolding mapped_def by simp
qed

text \<open>Writing one descriptor.\<close>

lemma write_other:
  fixes d :: u64
  assumes s: "sep (Suc k) n M t" and i: "i < n"
  defines "M' \<equiv> M(desc_at t i := d)"
  shows "\<not> is_table_descriptor d \<Longrightarrow> child M' t i = None" "j \<noteq> i \<Longrightarrow> child M' t j = child M t j"
    "j < n \<Longrightarrow> j \<noteq> i \<Longrightarrow> sub_area k M' t j = sub_area k M t j"
    "j < n \<Longrightarrow> j \<noteq> i \<Longrightarrow> child M t j = Some a \<Longrightarrow> sep k 512 M' a"
    "j < n \<Longrightarrow> j \<noteq> i \<Longrightarrow> child M t j = Some a \<Longrightarrow> walk k 512 M' a x = walk k 512 M a x"
proof -
  show "\<not> is_table_descriptor d \<Longrightarrow> child M' t i = None" by (simp add: child_def M'_def)
  show c: "child M' t j = child M t j" if "j \<noteq> i" for j
    using that by (simp add: child_def M'_def desc_at_inj)
  have f: "M' p = M p" if "j < n" "child M t j = Some a" "p \<in> area k 512 M a" for j p a
  proof -
    have "sub_area k M t j = area k 512 M a" using that(2) by (simp add: sub_area_def)
    then have "p \<notin> own t n" using s that by auto
    then show ?thesis using desc_at_own [OF i, of t] by (auto simp: M'_def)
  qed
  show "sub_area k M' t j = sub_area k M t j" if "j < n" "j \<noteq> i"
    using c [OF that(2)] area_frame [OF f [OF that(1)]] by (cases "child M t j") (auto simp: sub_area_def)
  assume j: "j < n" "j \<noteq> i" "child M t j = Some a"
  have "sep k 512 M a" using s j by auto
  with area_frame [OF f [OF j(1,3)]] show "sep k 512 M' a" "walk k 512 M' a x = walk k 512 M a x" by auto
qed

lemma write_leaf:
  assumes s: "sep k n M t" and i: "i < n" and d: "if k = 0 then is_table_descriptor d else \<not> is_table_descriptor d \<and> d AND 3 = 1 \<and> k \<le> 2"
  defines "M' \<equiv> M(desc_at t i := d)"
  shows "walk k n M' t x =
      (if x div span k mod n = i then Some (get_next_level_table_address d + x mod span k, leaf_attributes d) else walk k n M t x)"
    "area k n M' t \<subseteq> area k n M t" "sep k n M' t"
proof -
  have n: "0 < n" using i by simp
  show "walk k n M' t x =
      (if x div span k mod n = i then Some (get_next_level_table_address d + x mod span k, leaf_attributes d) else walk k n M t x)"
  proof (cases k)
    case 0
    then show ?thesis using d by (auto simp: M'_def desc_at_inj span_def block_shift_def Let_def)
  next
    case (Suc l)
    note W = write_other [OF s [unfolded Suc] i, where d = d]
    let ?j = "x div span (Suc l) mod n"
    have j: "?j < n" using n by simp
    show ?thesis
    proof (cases "?j = i")
      case True
      then show ?thesis using d Suc by (simp add: walk.simps(2) M'_def span_def Let_def)
    next
      case False
      show ?thesis
      proof (cases "child M t ?j")
        case None
        then show ?thesis using False Suc
          by (auto simp: walk.simps(2) M'_def child_def desc_at_inj Let_def span_def split: if_splits)
      next
        case (Some a)
        then show ?thesis
          using d walk_child [OF n Some] walk_child [OF n, of M' t x l a] W(2) [OF False] W(5) [OF j False Some] False Suc
          by (simp add: M'_def)
      qed
    qed
  qed
  show "area k n M' t \<subseteq> area k n M t"
  proof (cases k)
    case (Suc l)
    note W = write_other [OF s [unfolded Suc] i, where d = d]
    have "sub_area l M' t j \<subseteq> sub_area l M t j" if "j < n" for j
      using W(1) W(3) [OF that] d Suc by (cases "j = i") (auto simp: M'_def sub_area_def)
    then show ?thesis by (auto simp: Suc area_Suc)
  qed simp
  show "sep k n M' t"
  proof (cases k)
    case (Suc l)
    note W = write_other [OF s [unfolded Suc] i, where d = d]
    have sub: "sub_area l M' t j \<subseteq> sub_area l M t j" if "j < n" for j
      using W(1) W(3) [OF that] d Suc by (cases "j = i") (auto simp: M'_def sub_area_def)
    have "sep l 512 M' a" if "j < n" "child M' t j = Some a" for j a
      using W(1) W(2) [of j] W(4) [of j a] that d Suc by (cases "j = i") (auto simp: M'_def)
    moreover have "sub_area l M' t j \<inter> own t n = {}" if "j < n" for j
      using sub [OF that] s that Suc by auto
    moreover have "sub_area l M' t j \<inter> sub_area l M' t h = {}" if "j < n" "h < n" "j \<noteq> h" for j h
    proof -
      have "sub_area l M t j \<inter> sub_area l M t h = {}" using s that Suc by simp
      then show ?thesis using sub [OF that(1)] sub [OF that(2)] by blast
    qed
    ultimately show ?thesis by (simp add: Suc)
  qed simp
qed

text \<open>One leaf: a page, or a block where the level has blocks.\<close>

lemma mapped_leaf:
  assumes r: "ready k n t st" and i: "i < n" and b: "base = q * (n * span k)" and ip: "mp_ipa st = base + i * span k"
    and sz: "span k \<le> mp_rem st" "span k dvd mp_pa st"
    and d: "if k = 0 then is_table_descriptor d else \<not> is_table_descriptor d \<and> d AND 3 = 1 \<and> k \<le> 2"
      "get_next_level_table_address d = mp_pa st" "leaf_attributes d = at"
  shows "\<exists>st'. advance (span k) (write_desc t i d st) = Some st' \<and> mapped k n t base at st (span k) st'"
proof -
  have s: "sep k n (mp_mem st) t" using r by (simp add: ready_def)
  note W = write_leaf [OF s i d(1)]
  have lim: "mp_pa st + span k < usize_limit" "mp_ipa st + span k < usize_limit"
    using r sz by (auto simp: ready_def usize_limit_def)
  define st' where "st' = st\<lparr>mp_mem := (mp_mem st)(desc_at t i := d), mp_pa := mp_pa st + span k,
    mp_ipa := mp_ipa st + span k, mp_rem := mp_rem st - span k\<rparr>"
  have run: "advance (span k) (write_desc t i d st) = Some st'"
    using lim sz by (simp add: advance_def write_desc_def uadd_def usub_def st'_def)
  have walk: "walk k n (mp_mem st') t x = (if mp_ipa st \<le> x \<and> x < mp_ipa st + span k then Some (mp_pa st + (x - mp_ipa st), at)
        else walk k n (mp_mem st) t x)" if x: "x \<in> {base..<base + n * span k}" for x
  proof (cases "x div span k mod n = i")
    case True
    note I = index_in_range [OF b x]
    have in_e: "mp_ipa st \<le> x" "x < mp_ipa st + span k" using I True ip by simp_all
    have "x = (q * n + i) * span k + (x - mp_ipa st)" using in_e(1) ip b by (simp add: algebra_simps)
    then have "x mod span k = (x - mp_ipa st) mod span k" by (metis mod_mult_self3)
    then have "x mod span k = x - mp_ipa st" using in_e by simp
    with True in_e show ?thesis using W(1) d by (simp add: st'_def)
  next
    case False
    then have "\<not> (mp_ipa st \<le> x \<and> x < mp_ipa st + span k)" using index_eqI(2) [OF b i, of x] ip by auto
    with False show ?thesis using W(1) by (auto simp: st'_def)
  qed
  have out: "mp_mem st' p = mp_mem st p" if "p \<notin> area k n (mp_mem st) t" for p
    using that own_area [of t n k "mp_mem st"] desc_at_own [OF i, of t] by (auto simp: st'_def)
  have "mapped k n t base at st (span k) st'"
    unfolding mapped_def using walk out W(2,3) r sz(1) by (simp add: ready_def st'_def)
  with run show ?thesis by blast
qed


text \<open>Pages.  How far the loop gets: to the end of the request or of the table.\<close>

lemma map_pages_correct:
  assumes "ready 0 n t st" "base = q * (n * span 0)" "mp_ipa st = base + i * span 0" "i < n" "0 < mp_rem st" "permission < 4"
  shows "\<exists>st'. map_pages t permission is_device [i..<n] st = Some st' \<and>
    mapped 0 n t base (attrs permission is_device) st (min (mp_rem st) ((n - i) * span 0)) st'"
  using assms
proof (induction "n - i" arbitrary: i st)
  case (Suc m)
  let ?at = "attrs permission is_device"
  have s0: "span 0 = 4096" by (simp add: span_def block_shift_def)
  have pa: "4096 dvd mp_pa st" "mp_pa st < 2 ^ 50" "4096 dvd mp_rem st" "4096 \<le> mp_rem st"
    using Suc.prems(1,5) by (auto simp: ready_def intro: dvd_imp_le)
  note leaf = leaf_facts [OF pa(1,2) Suc.prems(6), of is_device]
  obtain st1 where st1: "advance (span 0) (write_desc t i (validate_as_page_descriptor (leaf_descriptor (mp_pa st) permission is_device)) st) = Some st1"
    "mapped 0 n t base ?at st (span 0) st1"
    using mapped_leaf [OF Suc.prems(1,4,2,3), of "validate_as_page_descriptor (leaf_descriptor (mp_pa st) permission is_device)" ?at]
      leaf pa s0 by auto
  have PS: "PAGE_SIZE = span 0" by (simp add: PAGE_SIZE_def PAGE_SHIFT_def s0)
  have st1f: "mp_ipa st1 = base + Suc i * span 0" "mp_rem st1 = mp_rem st - span 0"
    using st1(2) Suc.prems(3) by (simp_all add: mapped_def)
  have up: "[i..<n] = i # [Suc i..<n]" using Suc.prems(4) by (rule upt_conv_Cons)
  show ?case
  proof (cases "mp_rem st1 = 0 \<or> Suc i = n")
    case True
    then have c: "min (mp_rem st) ((n - i) * span 0) = span 0"
      using st1f(2) pa(4) Suc.prems(4) s0 by (auto simp: min_def)
    from True have "map_pages t permission is_device [i..<n] st = Some st1"
      using st1(1) by (auto simp: up PS)
    with st1(2) c show ?thesis by simp
  next
    case False
    have "ready 0 n t st1" using mapped_ready [OF st1(2) Suc.prems(1)] by (simp add: s0)
    moreover have "m = n - Suc i" using Suc.hyps(2) by simp
    ultimately obtain st2 where
      st2: "map_pages t permission is_device [Suc i..<n] st1 = Some st2"
      "mapped 0 n t base ?at st1 (min (mp_rem st1) ((n - Suc i) * span 0)) st2"
      using Suc.hyps(1) [of "Suc i" st1] Suc.prems(2,4,6) st1f False by auto
    have "span 0 + min (mp_rem st1) ((n - Suc i) * span 0) = min (mp_rem st) ((n - i) * span 0)"
    proof -
      have "(n - i) * span 0 = span 0 + (n - Suc i) * span 0" using Suc.prems(4) by (simp add: Suc_diff_Suc flip: mult_Suc)
      then show ?thesis using st1f(2) pa(4) s0 by (auto simp: min_def)
    qed
    with mapped_trans [OF st1(2) st2(2)] st2(1) st1(1) False show ?thesis by (simp add: up PS)
  qed
qed simp

text \<open>A table full of invalid descriptors.\<close>

lemma cleared_table:
  assumes "\<And>j. j < n \<Longrightarrow> M (desc_at a j) = descriptor_init" "0 < n"
  shows "area k n M a = own a n \<and> sep k n M a \<and> walk k n M a x = None"
proof (cases k)
  case 0
  then show ?thesis using assms by (simp add: init_facts Let_def)
next
  case (Suc l)
  have c: "child M a j = None" if "j < n" for j using assms(1) [OF that] by (simp add: child_def init_facts)
  have "x div 2 ^ block_shift (Suc l) mod n < n" using assms(2) by simp
  from assms(1) [OF this] c show ?thesis
    by (auto simp: Suc area_Suc sub_area_def walk.simps(2) init_facts Let_def)
qed

text \<open>Hanging an empty table below an entry that was invalid.\<close>

lemma hang_table:
  assumes s: "sep (Suc k) n M t" and i: "i < n" and N: "own a 512 \<inter> area (Suc k) n M t = {}"
    and e: "\<And>j. j < 512 \<Longrightarrow> M (desc_at a j) = descriptor_init"
    and c: "child M t i = None" "walk (Suc k) n M t y = None" "y div span (Suc k) mod n = i"
    and d: "is_table_descriptor d" "get_next_level_table_address d = a"
  defines "M' \<equiv> M(desc_at t i := d)"
  shows "child M' t i = Some a" "walk (Suc k) n M' t x = walk (Suc k) n M t x"
    "area (Suc k) n M' t \<subseteq> area (Suc k) n M t \<union> own a 512" "sep (Suc k) n M' t"
proof -
  have n: "0 < n" using i by simp
  note W = write_other [OF s i, where d = d, folded M'_def]
  have "M' (desc_at a j) = descriptor_init" if "j < 512" for j
    using e [OF that] N own_area [of t n "Suc k" M] desc_at_own [OF i, of t] desc_at_own [OF that, of a]
    by (auto simp: M'_def)
  then have C: "area k 512 M' a = own a 512 \<and> sep k 512 M' a \<and> walk k 512 M' a x = None"
    using cleared_table [of 512 M' a k x] by simp
  show ci: "child M' t i = Some a" using d by (simp add: M'_def child_def)
  have si: "sub_area k M' t i = own a 512" using ci C by (simp add: sub_area_def)
  have ap: "sub_area k M t j \<inter> own a 512 = {}" "own t n \<inter> own a 512 = {}" if "j < n" for j
    using N sub_area_subset [OF that, of k M t] own_area [of t n "Suc k" M] by blast+
  have sub: "sub_area k M' t j \<subseteq> area (Suc k) n M t \<union> own a 512" if "j < n" for j
    using W(3) [OF that] si sub_area_subset [OF that, of k M t] by (cases "j = i") auto
  then show "area (Suc k) n M' t \<subseteq> area (Suc k) n M t \<union> own a 512" by (auto simp: area_Suc)
  have S: "\<And>j. j < n \<Longrightarrow> sub_area k M t j \<inter> own t n = {}"
    "\<And>j l. j < n \<Longrightarrow> l < n \<Longrightarrow> j \<noteq> l \<Longrightarrow> sub_area k M t j \<inter> sub_area k M t l = {}"
    using s by simp_all
  have "sub_area k M' t j \<inter> own t n = {}" if "j < n" for j
    using W(3) [OF that] si ap [OF that] S(1) [OF that] by (cases "j = i") auto
  moreover have "sub_area k M' t j \<inter> sub_area k M' t l = {}" if "j < n" "l < n" "j \<noteq> l" for j l
    using W(3) [of j] W(3) [of l] si ap [OF that(1)] ap [OF that(2)] S(2) [OF that] that by (cases "j = i"; cases "l = i") auto
  moreover have "sep k 512 M' b" if "j < n" "child M' t j = Some b" for j b
    using ci C W(2) [of j] W(4) [OF that(1), of b] that by (cases "j = i") auto
  ultimately show "sep (Suc k) n M' t" by simp
  let ?j = "x div span (Suc k) mod n"
  have j: "?j < n" using n by simp
  show "walk (Suc k) n M' t x = walk (Suc k) n M t x"
  proof (cases "?j = i")
    case True
    then have "walk (Suc k) n M t x = None"
      using c by (auto simp: walk.simps(2) child_def Let_def span_def split: if_splits)
    with True show ?thesis using walk_child [OF n, of M' t x k a] ci C by simp
  next
    case False
    show ?thesis
    proof (cases "child M t ?j")
      case None
      with False show ?thesis
        by (auto simp: M'_def walk.simps(2) child_def desc_at_inj Let_def span_def split: if_splits)
    next
      case (Some b)
      then show ?thesis
        using walk_child [OF n Some] walk_child [OF n, of M' t x k b] W(2) [OF False] W(5) [OF j False Some] by simp
    qed
  qed
qed

text \<open>Clearing free memory first does not matter to the tree.\<close>

lemma new_table_tree:
  assumes s: "sep (Suc k) n M t" and i: "i < n" and N: "own a 512 \<inter> area (Suc k) n M t = {}"
    and c: "child M t i = None" "walk (Suc k) n M t y = None" "y div span (Suc k) mod n = i"
    and d: "is_table_descriptor d" "get_next_level_table_address d = a"
  defines "M' \<equiv> (clear_table a 512 M)(desc_at t i := d)"
  shows "child M' t i = Some a" "walk (Suc k) n M' t x = walk (Suc k) n M t x"
    "area (Suc k) n M' t \<subseteq> area (Suc k) n M t \<union> own a 512" "sep (Suc k) n M' t"
proof -
  let ?M = "clear_table a 512 M"
  have n: "0 < n" using i by simp
  have f: "?M p = M p" if "p \<in> area (Suc k) n M t" for p
    using that N by (auto simp: clear_table_def own_def)
  note F = area_frame [of "Suc k" n M t ?M, OF f]
  have cl: "?M (desc_at a j) = descriptor_init" if "j < 512" for j
    using desc_at_own [OF that, of a] by (simp add: clear_table_def own_def)
  have ch: "child ?M t i = None"
    using c(1) f [OF subsetD [OF own_area desc_at_own [OF i]]] by (simp add: child_def)
  have "sep (Suc k) n ?M t" "own a 512 \<inter> area (Suc k) n ?M t = {}" "walk (Suc k) n ?M t y = None"
    using F [of y] s N c(2) n by simp_all
  from hang_table [OF this(1) i this(2) cl ch this(3) c(3) d] F n
  show "child M' t i = Some a" "walk (Suc k) n M' t x = walk (Suc k) n M t x"
    "area (Suc k) n M' t \<subseteq> area (Suc k) n M t \<union> own a 512" "sep (Suc k) n M' t"
    by (simp_all add: M'_def)
qed

lemma allocate_table_page:
  assumes "low_inv a"
  shows "\<exists>r a'. allocate_pages 1 12 a = Some (r, a') \<and> low_inv a' \<and>
    (case r of Inl e \<Rightarrow> a' = a
     | Inr x \<Rightarrow> 4096 dvd x \<and> own x 512 \<subseteq> free_set a \<and> free_set a' = free_set a - own x 512)"
proof -
  have "(0 :: nat) < usize_limit - 1" by (simp add: usize_limit_def)
  from allocate_below_keeps [OF assms _ this, of 12 4096] obtain r a' where
    r: "allocate 4096 12 a = Some (r, a')" "allocated a 4096 12 (usize_limit - 1) r a'" "low_inv a'"
    by (auto simp: allocate_def)
  have "pages_to_bytes 1 = 4096" by (simp add: pages_to_bytes_def PAGE_SHIFT_def usize_limit_def)
  with r show ?thesis by (cases r) (auto simp: allocate_pages_def allocated_def own_def)
qed

lemma next_table_correct:
  assumes r: "ready (Suc k) n t st" and i: "i < n" "mp_ipa st div span (Suc k) mod n = i"
    and u: "walk (Suc k) n (mp_mem st) t (mp_ipa st) = None"
  shows "\<exists>res st'. next_table t i st = Some (res, st') \<and> mapped (Suc k) n t base at st 0 st' \<and>
    (case res of Inl _ \<Rightarrow> True | Inr a \<Rightarrow> child (mp_mem st') t i = Some a)"
proof (cases "is_table_descriptor (mp_mem st (desc_at t i))")
  case True
  then show ?thesis
    using mapped_refl [of st "Suc k" n t base at] r by (simp add: next_table_def Let_def child_def ready_def)
next
  case False
  have R: "low_inv (mp_heap st)" "free_set (mp_heap st) \<subseteq> {..<2 ^ 48}" "sep (Suc k) n (mp_mem st) t"
    "area (Suc k) n (mp_mem st) t \<inter> free_set (mp_heap st) = {}"
    using r by (simp_all add: ready_def)
  obtain q a where q: "allocate_pages 1 12 (mp_heap st) = Some (q, a)" "low_inv a"
    "case q of Inl e \<Rightarrow> a = mp_heap st
     | Inr x \<Rightarrow> 4096 dvd x \<and> own x 512 \<subseteq> free_set (mp_heap st) \<and> free_set a = free_set (mp_heap st) - own x 512"
    using allocate_table_page [OF R(1)] by blast
  show ?thesis
  proof (cases q)
    case (Inl e)
    with q False show ?thesis
      using mapped_refl [of st "Suc k" n t base at] R by (simp add: next_table_def Let_def)
  next
    case (Inr x)
    then have x: "4096 dvd x" "own x 512 \<subseteq> free_set (mp_heap st)" "free_set a = free_set (mp_heap st) - own x 512"
      using q(3) by simp_all
    have "x \<in> own x 512" by (simp add: own_def)
    then have "x < 2 ^ 48" using x(2) R(2) by blast
    then have x50: "x < 2 ^ 50" by simp
    let ?d = "validate_as_table_descriptor (set_output_address x descriptor_init)"
    define st' where "st' = st\<lparr>mp_heap := a, mp_mem := (clear_table x 512 (mp_mem st))(desc_at t i := ?d)\<rparr>"
    have run: "next_table t i st = Some (Inr x, st')"
      using False q(1) Inr by (simp add: next_table_def Let_def write_desc_def st'_def)
    have N: "own x 512 \<inter> area (Suc k) n (mp_mem st) t = {}" using x(2) R(4) by blast
    have c: "child (mp_mem st) t i = None" using False by (simp add: child_def)
    note T = new_table_tree [OF R(3) i(1) N c u i(2) table_facts [OF x(1) x50]]
    have new: "free_set (mp_heap st) - free_set a = own x 512" using x(2,3) by blast
    have out: "mp_mem st' p = mp_mem st p" if "p \<notin> area (Suc k) n (mp_mem st) t \<union> own x 512" for p
      using that subsetD [OF own_area desc_at_own [OF i(1)], of t "Suc k" "mp_mem st"]
      by (auto simp: st'_def clear_table_def own_def)
    have "mapped (Suc k) n t base at st 0 st'"
      unfolding mapped_def using T(2-4) out new q(2) x(3) by (auto simp: st'_def)
    moreover have "child (mp_mem st') t i = Some x" using T(1) by (simp add: st'_def)
    ultimately show ?thesis using run by simp
  qed
qed

text \<open>One entry of a table at an upper level: a block, or a table below.  The calls for the level
  below are the induction hypothesis.\<close>

definition level_correct :: "nat \<Rightarrow> u64 \<Rightarrow> bool \<Rightarrow> bool" where
  "level_correct k permission is_device \<longleftrightarrow>
     (\<forall>n t st base q. ready k n t st \<longrightarrow> (\<exists>e. n = 2 ^ e) \<longrightarrow> base = q * (n * span k) \<longrightarrow>
        base \<le> mp_ipa st \<longrightarrow> mp_ipa st < base + n * span k \<longrightarrow> 0 < mp_rem st \<longrightarrow>
        (\<forall>x. mp_ipa st \<le> x \<longrightarrow> x < mp_ipa st + min (mp_rem st) (base + n * span k - mp_ipa st) \<longrightarrow>
           walk k n (mp_mem st) t x = None) \<longrightarrow>
        (\<exists>r st' c. map_table k n permission is_device t st = Some (r, st') \<and>
           mapped k n t base (attrs permission is_device) st c st' \<and> 4096 dvd c \<and>
           c \<le> min (mp_rem st) (base + n * span k - mp_ipa st) \<and>
           (r = Inr () \<longrightarrow> c = min (mp_rem st) (base + n * span k - mp_ipa st))))"

lemma and_low_mask: "(x :: nat) AND (2 ^ m - 1) = x mod 2 ^ m"
  by (metis mask_nat_def take_bit_eq_mask take_bit_eq_mod)

text \<open>What an iteration of the loop over descriptors amounts to.\<close>

definition entry_result ::
  "(usize \<Rightarrow> mapst \<Rightarrow> ((unit + unit) \<times> mapst) option) \<Rightarrow> nat \<Rightarrow> usize \<Rightarrow> u64 \<Rightarrow> bool \<Rightarrow> nat \<Rightarrow> mapst \<Rightarrow>
   (unit + unit) \<Rightarrow> mapst \<Rightarrow> bool" where
  "entry_result sub depth t permission is_device i st r st1 \<longleftrightarrow>
     (\<forall>is. map_descriptors sub depth t permission is_device (i # is) st =
        (case r of Inl _ \<Rightarrow> Some (Inl (), st1)
         | Inr _ \<Rightarrow> if mp_rem st1 = 0 then Some (Inr (), st1)
                   else map_descriptors sub depth t permission is_device is st1))"

lemma entry_block:
  assumes r: "ready (Suc k) n t st" and b: "base = q * (n * span (Suc k))" and i: "i < n"
    and ip: "base + i * span (Suc k) \<le> mp_ipa st" "mp_ipa st < base + i * span (Suc k) + span (Suc k)"
    and p: "permission < 4"
    and bl: "Suc k \<le> 2" "span (Suc k) \<le> mp_rem st" "mp_pa st AND (span (Suc k) - 1) = 0" "mp_ipa st AND (span (Suc k) - 1) = 0"
  shows "\<exists>st1. entry_result sub (Suc k) t permission is_device i st (Inr ()) st1 \<and>
    mapped (Suc k) n t base (attrs permission is_device) st (span (Suc k)) st1 \<and> mp_ipa st = base + i * span (Suc k)"
proof -
  have dv: "span (Suc k) dvd mp_pa st" "span (Suc k) dvd mp_ipa st"
    using bl(3,4) and_low_mask [of _ "block_shift (Suc k)"] by (simp_all add: span_def dvd_eq_mod_eq_0)
  have pa: "4096 dvd mp_pa st" "mp_pa st < 2 ^ 50" using r by (auto simp: ready_def)
  note leaf = leaf_facts [OF pa p, of is_device]
  have ipa: "mp_ipa st = base + i * span (Suc k)"
  proof -
    obtain h where h: "mp_ipa st = h * span (Suc k)" using dv(2) by (metis dvd_def mult.commute)
    have B: "base + i * span (Suc k) = (q * n + i) * span (Suc k)" by (simp add: b algebra_simps)
    have "(q * n + i) * span (Suc k) \<le> h * span (Suc k)" "h * span (Suc k) < (q * n + i + 1) * span (Suc k)"
      using ip unfolding B h by (simp_all add: algebra_simps)
    then have "q * n + i \<le> h" "h < q * n + i + 1" by (simp_all del: mult_Suc)
    then have "h = q * n + i" by simp
    then show ?thesis using B h by simp
  qed
  obtain st1 where st1: "advance (span (Suc k)) (write_desc t i (validate_as_block_descriptor
      (leaf_descriptor (mp_pa st) permission is_device)) st) = Some st1"
    "mapped (Suc k) n t base (attrs permission is_device) st (span (Suc k)) st1"
    using mapped_leaf [OF r i b ipa bl(2) dv(1), of "validate_as_block_descriptor (leaf_descriptor (mp_pa st) permission is_device)"]
      leaf bl(1) by auto
  have "entry_result sub (Suc k) t permission is_device i st (Inr ()) st1"
    using st1(1) bl unfolding entry_result_def span_def by (simp add: Let_def)
  with st1(2) ipa show ?thesis by blast
qed

lemma entry_table:
  assumes IH: "level_correct k permission is_device" and r: "ready (Suc k) n t st" and b: "base = q * (n * span (Suc k))"
    and i: "i < n" and ip: "base + i * span (Suc k) \<le> mp_ipa st" "mp_ipa st < base + i * span (Suc k) + span (Suc k)" "0 < mp_rem st"
    and u: "\<And>x. mp_ipa st \<le> x \<Longrightarrow> x < mp_ipa st + min (mp_rem st) (base + i * span (Suc k) + span (Suc k) - mp_ipa st) \<Longrightarrow>
      walk (Suc k) n (mp_mem st) t x = None"
    and nb: "\<not> (Suc k \<le> 2 \<and> span (Suc k) \<le> mp_rem st \<and> mp_pa st AND (span (Suc k) - 1) = 0 \<and> mp_ipa st AND (span (Suc k) - 1) = 0)"
  shows "\<exists>res st1 c. entry_result (map_table k 512 permission is_device) (Suc k) t permission is_device i st res st1 \<and>
    mapped (Suc k) n t base (attrs permission is_device) st c st1 \<and> 4096 dvd c \<and>
    c \<le> min (mp_rem st) (base + i * span (Suc k) + span (Suc k) - mp_ipa st) \<and>
    (res = Inr () \<longrightarrow> c = min (mp_rem st) (base + i * span (Suc k) + span (Suc k) - mp_ipa st))"
proof -
  let ?at = "attrs permission is_device" and ?e = "base + i * span (Suc k) + span (Suc k)"
  have n: "0 < n" using i by simp
  have idx: "x div span (Suc k) mod n = i" "x \<in> {base..<base + n * span (Suc k)}" if "mp_ipa st \<le> x" "x < ?e" for x
    using index_eqI [OF b i, of x] that ip by auto
  have "walk (Suc k) n (mp_mem st) t (mp_ipa st) = None" using u [of "mp_ipa st"] ip by simp
  from next_table_correct [OF r i idx(1) [OF le_refl ip(2)] this, of base ?at] obtain res st1 where
    st1: "next_table t i st = Some (res, st1)" "mapped (Suc k) n t base ?at st 0 st1"
    "case res of Inl _ \<Rightarrow> True | Inr a \<Rightarrow> child (mp_mem st1) t i = Some a" by blast
  have er: "map_descriptors sub (Suc k) t permission is_device (i # is) st = do {
           (r, st) \<leftarrow> next_table t i st;
           (case r of Inl e \<Rightarrow> Some (Inl (), st)
            | Inr a \<Rightarrow> do {
                (r, st) \<leftarrow> sub a st;
                (case r of Inl e \<Rightarrow> Some (Inl (), st)
                 | Inr _ \<Rightarrow> if mp_rem st = 0 then Some (Inr (), st)
                     else map_descriptors sub (Suc k) t permission is_device is st) }) }" for sub "is"
    using nb unfolding span_def map_descriptors.simps Let_def by (subst if_not_P) auto
  show ?thesis
  proof (cases res)
    case (Inl e)
    then have "entry_result (map_table k 512 permission is_device) (Suc k) t permission is_device i st (Inl ()) st1"
      using st1(1) unfolding entry_result_def er by simp
    with st1(2) show ?thesis by (intro exI [of _ "Inl ()"] exI [of _ st1] exI [of _ 0]) simp
  next
    case (Inr a)
    then have ch: "child (mp_mem st1) t i = Some a" using st1(3) by simp
    have r1: "ready (Suc k) n t st1" using mapped_ready [OF st1(2) r] by simp
    have f1: "mp_ipa st1 = mp_ipa st" "mp_rem st1 = mp_rem st" using st1(2) by (simp_all add: mapped_def)
    have sa: "area k 512 (mp_mem st1) a = sub_area k (mp_mem st1) t i" using ch by (simp add: sub_area_def)
    have rk: "ready k 512 a st1"
      using r1 ch i sub_area_subset [OF i, of k "mp_mem st1" t] unfolding ready_def sa by auto
    have bk: "base + i * span (Suc k) = (q * n + i) * (512 * span k)" by (simp add: b span_Suc algebra_simps)
    have e: "base + i * span (Suc k) + 512 * span k = ?e" by (simp add: span_Suc)
    have uk: "walk k 512 (mp_mem st1) a x = None"
      if "mp_ipa st1 \<le> x" "x < mp_ipa st1 + min (mp_rem st1) (?e - mp_ipa st1)" for x
    proof -
      have x: "mp_ipa st \<le> x" "x < ?e" using that f1 by auto
      have "walk (Suc k) n (mp_mem st1) t x = walk (Suc k) n (mp_mem st) t x"
        using st1(2) idx(2) [OF x] unfolding mapped_def by auto
      then show ?thesis using u [OF x(1)] that f1 walk_child [OF n, of "mp_mem st1" t x k a] idx(1) [OF x] ch by simp
    qed
    have "\<exists>e. (512 :: nat) = 2 ^ e" by (rule exI [of _ 9]) simp
    from IH [unfolded level_correct_def, rule_format, OF rk this bk, unfolded e] f1 ip uk obtain res2 st2 c where
      st2: "map_table k 512 permission is_device a st1 = Some (res2, st2)"
      "mapped k 512 a (base + i * span (Suc k)) ?at st1 c st2" "4096 dvd c" "c \<le> min (mp_rem st) (?e - mp_ipa st)"
      "res2 = Inr () \<longrightarrow> c = min (mp_rem st) (?e - mp_ipa st)"
      by auto
    have "mapped (Suc k) n t base ?at st1 c st2"
      by (rule mapped_lift [OF st2(2) r1 i ch b]) (use f1 ip st2(4) in auto)
    with mapped_trans [OF st1(2) this] have "mapped (Suc k) n t base ?at st c st2" by simp
    moreover have "entry_result (map_table k 512 permission is_device) (Suc k) t permission is_device i st res2 st2"
      using st1(1) st2(1) Inr unfolding entry_result_def er by (auto split: sum.splits)
    ultimately show ?thesis using st2(3-5) by blast
  qed
qed

lemma entry_step:
  assumes IH: "level_correct k permission is_device" and r: "ready (Suc k) n t st" and b: "base = q * (n * span (Suc k))"
    and i: "i < n" and ip: "base + i * span (Suc k) \<le> mp_ipa st" "mp_ipa st < base + i * span (Suc k) + span (Suc k)" "0 < mp_rem st"
    and u: "\<And>x. mp_ipa st \<le> x \<Longrightarrow> x < mp_ipa st + min (mp_rem st) (base + i * span (Suc k) + span (Suc k) - mp_ipa st) \<Longrightarrow>
      walk (Suc k) n (mp_mem st) t x = None"
    and p: "permission < 4"
  shows "\<exists>res st1 c. entry_result (map_table k 512 permission is_device) (Suc k) t permission is_device i st res st1 \<and>
    mapped (Suc k) n t base (attrs permission is_device) st c st1 \<and> 4096 dvd c \<and>
    c \<le> min (mp_rem st) (base + i * span (Suc k) + span (Suc k) - mp_ipa st) \<and>
    (res = Inr () \<longrightarrow> c = min (mp_rem st) (base + i * span (Suc k) + span (Suc k) - mp_ipa st))"
proof (cases "Suc k \<le> 2 \<and> span (Suc k) \<le> mp_rem st \<and> mp_pa st AND (span (Suc k) - 1) = 0 \<and> mp_ipa st AND (span (Suc k) - 1) = 0")
  case True
  note bl = True [THEN conjunct1] True [THEN conjunct2, THEN conjunct1] True [THEN conjunct2, THEN conjunct2, THEN conjunct1]
    True [THEN conjunct2, THEN conjunct2, THEN conjunct2]
  have "\<exists>st1. entry_result (map_table k 512 permission is_device) (Suc k) t permission is_device i st (Inr ()) st1 \<and>
    mapped (Suc k) n t base (attrs permission is_device) st (span (Suc k)) st1 \<and> mp_ipa st = base + i * span (Suc k)" by (rule entry_block [OF r b i ip(1,2) p bl])
  then obtain st1 where
    "entry_result (map_table k 512 permission is_device) (Suc k) t permission is_device i st (Inr ()) st1"
    "mapped (Suc k) n t base (attrs permission is_device) st (span (Suc k)) st1" "mp_ipa st = base + i * span (Suc k)" by blast
  with True show ?thesis
    by (intro exI [of _ "Inr ()"] exI [of _ st1] exI [of _ "span (Suc k)"]) (simp add: span_page)
next
  case False
  then show ?thesis using entry_table [OF IH r b i ip] u by blast
qed

lemma map_descriptors_correct:
  assumes IH: "level_correct k permission is_device" and "ready (Suc k) n t st" "base = q * (n * span (Suc k))"
    "i < n" "base + i * span (Suc k) \<le> mp_ipa st" "mp_ipa st < base + i * span (Suc k) + span (Suc k)" "0 < mp_rem st"
    "\<And>x. mp_ipa st \<le> x \<Longrightarrow> x < mp_ipa st + min (mp_rem st) (base + n * span (Suc k) - mp_ipa st) \<Longrightarrow>
      walk (Suc k) n (mp_mem st) t x = None"
    and p: "permission < 4"
  shows "\<exists>res st' c. map_descriptors (map_table k 512 permission is_device) (Suc k) t permission is_device [i..<n] st = Some (res, st') \<and>
    mapped (Suc k) n t base (attrs permission is_device) st c st' \<and> 4096 dvd c \<and>
    c \<le> min (mp_rem st) (base + n * span (Suc k) - mp_ipa st) \<and>
    (res = Inr () \<longrightarrow> c = min (mp_rem st) (base + n * span (Suc k) - mp_ipa st))"
  using assms(2-8)
proof (induction "n - i" arbitrary: i st)
  case (Suc m)
  let ?at = "attrs permission is_device" and ?E = "base + n * span (Suc k)" and ?s = "span (Suc k)"
    and ?md = "map_descriptors (map_table k 512 permission is_device) (Suc k) t permission is_device"
  have up: "[i..<n] = i # [Suc i..<n]" using Suc.prems(3) by (rule upt_conv_Cons)
  have E: "base + i * ?s + ?s \<le> ?E" using mult_le_mono1 [of "Suc i" n ?s] Suc.prems(3) by simp
  have u: "walk (Suc k) n (mp_mem st) t x = None"
    if "mp_ipa st \<le> x" "x < mp_ipa st + min (mp_rem st) (base + i * ?s + ?s - mp_ipa st)" for x
    using Suc.prems(7) [of x] that E by simp
  obtain res st1 c where st1: "entry_result (map_table k 512 permission is_device) (Suc k) t permission is_device i st res st1"
    "mapped (Suc k) n t base ?at st c st1" "4096 dvd c" "c \<le> min (mp_rem st) (base + i * ?s + ?s - mp_ipa st)"
    "res = Inr () \<longrightarrow> c = min (mp_rem st) (base + i * ?s + ?s - mp_ipa st)"
    using entry_step [OF IH Suc.prems(1-6) u p] by blast
  note er = st1(1) [unfolded entry_result_def, rule_format, of "[Suc i..<n]", folded up]
  have f1: "mp_ipa st1 = mp_ipa st + c" "mp_rem st1 = mp_rem st - c" using st1(2) by (simp_all add: mapped_def)
  consider "res = Inl ()" | "res = Inr ()" "mp_rem st1 = 0 \<or> Suc i = n" | "res = Inr ()" "mp_rem st1 \<noteq> 0" "Suc i < n"
    using Suc.prems(3) by (cases res) force+
  then show ?case
  proof cases
    case 1
    then show ?thesis using er st1 E by (intro exI [of _ "Inl ()"] exI [of _ st1] exI [of _ c]) auto
  next
    case 2
    then have "?md [i..<n] st = Some (Inr (), st1)" using er by auto
    moreover have "c = min (mp_rem st) (?E - mp_ipa st)"
      using 2 f1 st1(4,5) E by (auto simp: min_def split: if_splits)
    ultimately show ?thesis using st1 by (intro exI [of _ "Inr ()"] exI [of _ st1] exI [of _ c]) auto
  next
    case 3
    then have c: "c = base + i * ?s + ?s - mp_ipa st" "c < mp_rem st" using f1 st1(5) by (auto simp: min_def split: if_splits)
    then have ip1: "mp_ipa st1 = base + Suc i * ?s" using f1(1) Suc.prems(5) by simp
    have u1: "walk (Suc k) n (mp_mem st1) t x = None"
      if "mp_ipa st1 \<le> x" "x < mp_ipa st1 + min (mp_rem st1) (?E - mp_ipa st1)" for x
    proof -
      have x: "x \<in> {base..<?E}" "\<not> (mp_ipa st \<le> x \<and> x < mp_ipa st + c)" "mp_ipa st \<le> x"
        "x < mp_ipa st + min (mp_rem st) (?E - mp_ipa st)" using that f1 ip1 c by auto
      have "walk (Suc k) n (mp_mem st1) t x = walk (Suc k) n (mp_mem st) t x"
        using st1(2) x(1,2) unfolding mapped_def by auto
      then show ?thesis using Suc.prems(7) [OF x(3,4)] by simp
    qed
    have "m = n - Suc i" using Suc.hyps(2) by simp
    from Suc.hyps(1) [OF this mapped_ready [OF st1(2) Suc.prems(1) st1(3)] Suc.prems(2) 3(3) _ _ _ u1] ip1 3(2)
    obtain res2 st2 c2 where st2: "?md [Suc i..<n] st1 = Some (res2, st2)" "mapped (Suc k) n t base ?at st1 c2 st2" "4096 dvd c2"
      "c2 \<le> min (mp_rem st1) (?E - mp_ipa st1)" "res2 = Inr () \<longrightarrow> c2 = min (mp_rem st1) (?E - mp_ipa st1)"
      by auto
    have "?md [i..<n] st = Some (res2, st2)" using er 3 st2(1) by simp
    moreover have "c + c2 \<le> min (mp_rem st) (?E - mp_ipa st)" "res2 = Inr () \<longrightarrow> c + c2 = min (mp_rem st) (?E - mp_ipa st)"
      using st2(4,5) f1 c ip1 E Suc.prems(5) by (auto simp: min_def split: if_splits)
    ultimately show ?thesis using mapped_trans [OF st1(2) st2(2)] dvd_add [OF st1(3) st2(3)] by blast
  qed
qed simp

lemma first_index_mod:
  assumes "n = 2 ^ e"
  shows "first_index k n st = mp_ipa st div span k mod n"
  unfolding first_index_def assms and_low_mask by (simp add: drop_bit_eq_div span_def)

lemma level_pages: "permission < 4 \<Longrightarrow> level_correct 0 permission is_device"
  unfolding level_correct_def
proof (intro allI impI)
  fix n t st base q
  assume p: "permission < 4" and r: "ready 0 n t st" and n: "\<exists>e. n = 2 ^ e" and b: "base = q * (n * span 0)"
    and ip: "base \<le> mp_ipa st" "mp_ipa st < base + n * span 0" and rem: "0 < mp_rem st"
  let ?i = "first_index 0 n st"
  have s0: "span 0 = 4096" by (simp add: span_def block_shift_def)
  have x: "mp_ipa st \<in> {base..<base + n * span 0}" using ip by simp
  obtain i where i: "?i = i" "i < n" "base + i * span 0 \<le> mp_ipa st" "mp_ipa st < base + i * span 0 + span 0"
    using first_index_mod n index_in_range [OF b x] by metis
  have "4096 dvd mp_ipa st - (base + i * 4096)" using r b s0 by (auto simp: ready_def intro!: dvd_diff_nat)
  moreover have "mp_ipa st - (base + i * 4096) < 4096" using i s0 by simp
  ultimately have "mp_ipa st - (base + i * 4096) = 0" using dvd_imp_le by fastforce
  then have ipa: "mp_ipa st = base + i * span 0" using i s0 by simp
  have L: "(n - i) * span 0 = base + n * span 0 - mp_ipa st" unfolding ipa by (simp add: diff_mult_distrib)
  from map_pages_correct [OF r b ipa i(2) rem p, of is_device, unfolded L] obtain st' where
    "map_pages t permission is_device [i..<n] st = Some st'"
    "mapped 0 n t base (attrs permission is_device) st (min (mp_rem st) (base + n * span 0 - mp_ipa st)) st'" by blast
  moreover have "4096 dvd min (mp_rem st) (base + n * span 0 - mp_ipa st)"
    using r s0 L by (auto simp: ready_def min_def) (metis dvd_triv_right)
  ultimately show "\<exists>r st' c. map_table 0 n permission is_device t st = Some (r, st') \<and>
           mapped 0 n t base (attrs permission is_device) st c st' \<and> 4096 dvd c \<and>
           c \<le> min (mp_rem st) (base + n * span 0 - mp_ipa st) \<and>
           (r = Inr () \<longrightarrow> c = min (mp_rem st) (base + n * span 0 - mp_ipa st))" using i(1) by auto
qed

theorem map_table_correct: "permission < 4 \<Longrightarrow> level_correct k permission is_device"
proof (induction k)
  case 0
  then show ?case by (rule level_pages)
next
  case (Suc k)
  show ?case unfolding level_correct_def
  proof (intro allI impI)
    fix n t st base q
    assume r: "ready (Suc k) n t st" and n: "\<exists>e. n = 2 ^ e" and b: "base = q * (n * span (Suc k))"
      and ip: "base \<le> mp_ipa st" "mp_ipa st < base + n * span (Suc k)" and rem: "0 < mp_rem st"
      and u: "\<forall>x. mp_ipa st \<le> x \<longrightarrow> x < mp_ipa st + min (mp_rem st) (base + n * span (Suc k) - mp_ipa st) \<longrightarrow>
           walk (Suc k) n (mp_mem st) t x = None"
    have x: "mp_ipa st \<in> {base..<base + n * span (Suc k)}" using ip by simp
    obtain i where i: "first_index (Suc k) n st = i" "i < n" "base + i * span (Suc k) \<le> mp_ipa st"
      "mp_ipa st < base + i * span (Suc k) + span (Suc k)"
      using first_index_mod n index_in_range [OF b x] by metis
    show "\<exists>r st' c. map_table (Suc k) n permission is_device t st = Some (r, st') \<and>
           mapped (Suc k) n t base (attrs permission is_device) st c st' \<and> 4096 dvd c \<and>
           c \<le> min (mp_rem st) (base + n * span (Suc k) - mp_ipa st) \<and>
           (r = Inr () \<longrightarrow> c = min (mp_rem st) (base + n * span (Suc k) - mp_ipa st))"
      using map_descriptors_correct [OF Suc.IH [OF Suc.prems] r b i(2-4) rem _ Suc.prems] u i(1) by simp
  qed
qed

end
