(* ===== verification/Paging_Stage2.thy ===== *)
theory Paging_Stage2
  imports Paging_Proofs
begin

text \<open>The entry points of the stage-2 translation: creating a table, mapping a range into it,
  and how the pieces fit together for a guest's RAM.  The state the statements speak
  about is \<^typ>\<open>stage2\<close>: memory, allocator and the two registers; \<open>wf_stage2\<close> is the invariant.\<close>

section \<open>The register encodes the geometry\<close>

definition stage2_limit :: "stage2 \<Rightarrow> nat" where
  "stage2_limit s = 2 ^ (64 - unat (drop_bit VTCR_EL2_T0SZ_BITS_OFFSET (vtcr_el2 s AND VTCR_EL2_T0SZ)))"

definition stage2_walk :: "usize \<Rightarrow> stage2 \<Rightarrow> usize \<Rightarrow> (usize \<times> u64) option" where
  "stage2_walk t s x =
     (if x < stage2_limit s then walk (vtcr_depth (vtcr_el2 s)) (vtcr_descriptors (vtcr_el2 s)) (s2_mem s) t x else None)"

definition stage2_area :: "usize \<Rightarrow> stage2 \<Rightarrow> nat set" where
  "stage2_area t s = area (vtcr_depth (vtcr_el2 s)) (vtcr_descriptors (vtcr_el2 s)) (s2_mem s) t"

definition wf_stage2 :: "usize \<Rightarrow> stage2 \<Rightarrow> bool" where
  "wf_stage2 t s \<longleftrightarrow> (\<exists>ps \<le> 15. vtcr_el2 s = vtcr_value ps) \<and> low_inv (s2_heap s) \<and> free_set (s2_heap s) \<subseteq> {..<2 ^ 48} \<and>
     sep (vtcr_depth (vtcr_el2 s)) (vtcr_descriptors (vtcr_el2 s)) (s2_mem s) t \<and>
     stage2_area t s \<inter> free_set (s2_heap s) = {}"

lemma small_cases:
  fixes ps :: u64
  assumes "ps \<le> 15"
  shows "ps \<in> {0, 1, 2, 3, 4, 5, 6, 7, 8, 9, 10, 11, 12, 13, 14, 15}"
proof -
  have "unat ps < 16" using assms by (simp add: word_le_nat_alt)
  then have "unat ps \<in> {0, 1, 2, 3, 4, 5, 6, 7, 8, 9, 10, 11, 12, 13, 14, 15}"
    by (simp only: insert_iff empty_iff) presburger
  then have "word_of_nat (unat ps) \<in> {0, 1, 2, 3, 4, 5, 6, 7, 8, 9, 10, 11, 12, 13, 14, 15 :: u64}"
    by (elim insertE emptyE) simp_all
  then show ?thesis by simp
qed

lemmas vtcr_defs = vtcr_value_def vtcr_depth_def vtcr_descriptors_def geometry_def Let_def
  number_of_concatenated_page_tables_def VTCR_EL2_RES1_def VTCR_EL2_PS_BITS_OFFSET_def
  VTCR_EL2_TG0_BITS_OFFSET_def VTCR_EL2_SH0_BITS_OFFSET_def VTCR_EL2_ORGN0_BITS_OFFSET_def
  VTCR_EL2_IRGN0_BITS_OFFSET_def VTCR_EL2_SL0_BITS_OFFSET_def VTCR_EL2_SL0_def
  VTCR_EL2_T0SZ_BITS_OFFSET_def VTCR_EL2_T0SZ_def

lemma vtcr_fields:
  assumes "ps \<le> 15"
  shows "vtcr_depth (vtcr_value ps) = snd (geometry ps)"
    "vtcr_descriptors (vtcr_value ps) = number_of_concatenated_page_tables (fst (geometry ps)) (snd (geometry ps)) * 512"
    "unat (drop_bit VTCR_EL2_T0SZ_BITS_OFFSET (vtcr_value ps AND VTCR_EL2_T0SZ)) = fst (geometry ps)"
  using small_cases [OF assms] by (elim insertE emptyE; simp add: vtcr_defs)+

lemma geometry_fits:
  assumes "ps \<le> 15"
  shows "\<exists>e. vtcr_descriptors (vtcr_value ps) = 2 ^ e"
    "2 ^ (64 - fst (geometry ps)) \<le> vtcr_descriptors (vtcr_value ps) * span (vtcr_depth (vtcr_value ps))"
    "fst (geometry ps) \<ge> 16"
    "number_of_concatenated_page_tables (fst (geometry ps)) (snd (geometry ps)) \<in> {1, 2, 8}"
proof -
  have "(1024 :: nat) = 2 ^ 10" "(512 :: nat) = 2 ^ 9" "(4096 :: nat) = 2 ^ 12" by simp_all
  then have e: "\<exists>e. (1024 :: nat) = 2 ^ e" "\<exists>e. (512 :: nat) = 2 ^ e" "\<exists>e. (4096 :: nat) = 2 ^ e" by blast+
  show "\<exists>e. vtcr_descriptors (vtcr_value ps) = 2 ^ e"
    using small_cases [OF assms] e unfolding vtcr_fields [OF assms]
    by (elim insertE emptyE) (simp_all add: geometry_def number_of_concatenated_page_tables_def)
  show "2 ^ (64 - fst (geometry ps)) \<le> vtcr_descriptors (vtcr_value ps) * span (vtcr_depth (vtcr_value ps))"
    "fst (geometry ps) \<ge> 16"
    "number_of_concatenated_page_tables (fst (geometry ps)) (snd (geometry ps)) \<in> {1, 2, 8}"
    unfolding vtcr_fields [OF assms]
    by (auto simp: geometry_def number_of_concatenated_page_tables_def span_def block_shift_def)
qed

lemma stage2_internal_correct:
  assumes w: "wf_stage2 t s"
    and al: "4096 dvd pa" "4096 dvd ipa" "4096 dvd n" and n: "0 < n" "pa + n \<le> 2 ^ 48" "ipa + n \<le> stage2_limit s"
    and u: "\<forall>x \<in> {ipa..<ipa + n}. stage2_walk t s x = None"
  shows "\<exists>r s' c. map_address_stage2_internal t pa ipa n is_readable is_writable is_device s = Some (r, s') \<and>
    wf_stage2 t s' \<and> vtcr_el2 s' = vtcr_el2 s \<and> vttbr_el2 s' = vttbr_el2 s \<and>
    tlb_flushes s' = tlb_flushes s + of_bool (r = Inr () \<and> of_nat t = vttbr_el2 s AND VTTBR_BADDR) \<and> c \<le> n \<and> (r = Inr () \<longrightarrow> c = n) \<and>
    (\<forall>x. stage2_walk t s' x =
       (if ipa \<le> x \<and> x < ipa + c
        then Some (pa + (x - ipa), attrs (access_permission is_readable is_writable) is_device) else stage2_walk t s x)) \<and>
    free_set (s2_heap s') \<subseteq> free_set (s2_heap s) \<and>
    stage2_area t s' \<subseteq> stage2_area t s \<union> (free_set (s2_heap s) - free_set (s2_heap s')) \<and>
    (\<forall>p. p \<notin> stage2_area t s \<union> (free_set (s2_heap s) - free_set (s2_heap s')) \<longrightarrow> s2_mem s' p = s2_mem s p)"
proof -
  obtain ps where ps: "ps \<le> 15" "vtcr_el2 s = vtcr_value ps" using w by (auto simp: wf_stage2_def)
  let ?k = "vtcr_depth (vtcr_el2 s)" and ?m = "vtcr_descriptors (vtcr_el2 s)" and ?p = "access_permission is_readable is_writable"
  let ?st = "\<lparr>mp_pa = pa, mp_ipa = ipa, mp_rem = n, mp_mem = s2_mem s, mp_heap = s2_heap s\<rparr>"
  have lim: "stage2_limit s \<le> ?m * span ?k" "stage2_limit s \<le> 2 ^ 48"
    using geometry_fits(2,3) [OF ps(1)] vtcr_fields(3) [OF ps(1)] power_increasing [of "64 - fst (geometry ps)" 48 "2 :: nat"]
    by (auto simp: stage2_limit_def ps(2))
  have p: "?p < 4" by (cases is_readable; cases is_writable) (simp_all add: access_permission_def)
  have r: "ready ?k ?m t ?st"
    using w al n lim by (auto simp: ready_def wf_stage2_def stage2_area_def)
  have min: "min n (?m * span ?k - ipa) = n" using n(3) lim(1) by simp
  have uw: "walk ?k ?m (s2_mem s) t x = None" if "ipa \<le> x" "x < ipa + n" for x
    using u that n(3) by (auto simp: stage2_walk_def)
  from map_table_correct [OF p, of ?k is_device, unfolded level_correct_def, rule_format, OF r geometry_fits(1) [OF ps(1), folded ps(2)], of 0 0]
  obtain res st' c where st': "map_table ?k ?m ?p is_device t ?st = Some (res, st')" "mapped ?k ?m t 0 (attrs ?p is_device) ?st c st'"
    "c \<le> n" "res = Inr () \<longrightarrow> c = n"
    using n lim(1) uw min by auto
  let ?s = "s\<lparr>s2_mem := mp_mem st', s2_heap := mp_heap st'\<rparr>"
  let ?s' = "if of_nat t = vttbr_el2 s AND VTTBR_BADDR then ?s\<lparr>tlb_flushes := tlb_flushes s + 1\<rparr> else ?s"
  define s' where "s' = (case res of Inl e \<Rightarrow> ?s | Inr _ \<Rightarrow> ?s')"
  have f: "s2_mem s' = mp_mem st'" "s2_heap s' = mp_heap st'" "vtcr_el2 s' = vtcr_el2 s" "vttbr_el2 s' = vttbr_el2 s"
    by (simp_all add: s'_def split: sum.split)
  have fl: "tlb_flushes s' = tlb_flushes s + of_bool (res = Inr () \<and> of_nat t = vttbr_el2 s AND VTTBR_BADDR)"
    by (simp add: s'_def split: sum.split)
  have "n AND (2 ^ PAGE_SHIFT - 1) = 0" using al(3) unfolding and_low_mask by (simp add: PAGE_SHIFT_def dvd_eq_mod_eq_0)
  then have run: "map_address_stage2_internal t pa ipa n is_readable is_writable is_device s = Some (res, s')"
    using st'(1) by (auto simp: map_address_stage2_internal_def s'_def split: sum.split)
  have wk: "stage2_walk t s' x = (if ipa \<le> x \<and> x < ipa + c then Some (pa + (x - ipa), attrs ?p is_device) else stage2_walk t s x)" for x
    using st'(2,3) n(3) lim(1) unfolding mapped_def stage2_walk_def f stage2_limit_def by auto
  have m: "low_inv (s2_heap s')" "free_set (s2_heap s') \<subseteq> free_set (s2_heap s)" "sep ?k ?m (s2_mem s') t"
    "stage2_area t s' \<subseteq> stage2_area t s \<union> (free_set (s2_heap s) - free_set (s2_heap s'))"
    "\<forall>p. p \<notin> stage2_area t s \<union> (free_set (s2_heap s) - free_set (s2_heap s')) \<longrightarrow> s2_mem s' p = s2_mem s p"
    using st'(2) unfolding mapped_def stage2_area_def f by simp_all
  have "stage2_area t s \<inter> free_set (s2_heap s) = {}" "free_set (s2_heap s) \<subseteq> {..<2 ^ 48}" using w by (simp_all add: wf_stage2_def)
  then have "wf_stage2 t s'" unfolding wf_stage2_def f(3) using ps m by blast
  with run wk m st'(3,4) f fl show ?thesis by blast
qed


lemma created:
  fixes id_reg :: u64
  assumes l: "low_inv (s2_heap s)" "free_set (s2_heap s) \<subseteq> {..<2 ^ 48}"
  defines "ps \<equiv> id_reg AND ID_AA64MMFR0_EL1_PARANGE"
  defines "tables \<equiv> number_of_concatenated_page_tables (fst (geometry ps)) (snd (geometry ps))"
  shows "case create_stage2_translation_table id_reg s of
      None \<Rightarrow> pool_full (s2_heap s) \<or>
        (\<forall>x. 2 ^ (11 + tables) dvd x \<longrightarrow> x + tables * 4096 < usize_limit \<longrightarrow> \<not> {x..<x + tables * 4096} \<subseteq> free_set (s2_heap s))
    | Some (t, s') \<Rightarrow> wf_stage2 t s' \<and> (\<forall>x. stage2_walk t s' x = None) \<and> stage2_limit s' = 2 ^ (64 - fst (geometry ps)) \<and>
        tables * 4096 dvd t \<and> stage2_area t s' = {t..<t + tables * 4096} \<and>
        stage2_area t s' \<subseteq> free_set (s2_heap s) \<and> free_set (s2_heap s') = free_set (s2_heap s) - stage2_area t s' \<and>
        (\<forall>p. p \<notin> stage2_area t s' \<longrightarrow> s2_mem s' p = s2_mem s p)"
proof -
  have ps: "ps \<le> 15" unfolding ps_def ID_AA64MMFR0_EL1_PARANGE_def by (rule word_and_le1)
  note G = geometry_fits [OF ps] and V = vtcr_fields [OF ps]
  have t: "tables \<in> {1, 2, 8}" using G(4) by (simp add: tables_def)
  then have tb: "pages_to_bytes tables = tables * 4096" "11 + tables < 64" "0 < tables * 512"
    by (auto simp: pages_to_bytes_def PAGE_SHIFT_def usize_limit_def)
  have "(0 :: nat) < usize_limit - 1" by (simp add: usize_limit_def)
  from allocate_below_keeps [OF l(1) tb(2) this, of "tables * 4096"] obtain r a where
    r: "allocate (tables * 4096) (11 + tables) (s2_heap s) = Some (r, a)"
      "allocated (s2_heap s) (tables * 4096) (11 + tables) (usize_limit - 1) r a" "low_inv a" by (auto simp: allocate_def)
  have al: "allocate_pages tables (12 + tables - 1) (s2_heap s) = Some (r, a)"
    using r(1) tb(1) by (simp add: allocate_pages_def)
  show ?thesis
  proof (cases r)
    case (Inl e)
    then have "create_stage2_translation_table id_reg s = None"
      using al by (simp add: create_stage2_translation_table_def ps_def [symmetric] tables_def split_beta)
    moreover have "pool_full (s2_heap s) \<or> (\<forall>x. 2 ^ (11 + tables) dvd x \<longrightarrow> x + tables * 4096 < usize_limit \<longrightarrow> \<not> {x..<x + tables * 4096} \<subseteq> free_set (s2_heap s))"
      using r(2) Inl t by (cases e) (auto simp: allocated_def)
    ultimately show ?thesis by simp
  next
    case (Inr x)
    let ?s = "set_vtcr_el2_for_this_pcpu id_reg (s\<lparr>s2_heap := a, s2_mem := clear_table x (tables * 512) (s2_mem s)\<rparr>)"
    have c: "create_stage2_translation_table id_reg s = Some (x, ?s)"
      using al Inr by (simp add: create_stage2_translation_table_def ps_def [symmetric] tables_def split_beta)
    have f: "vtcr_el2 ?s = vtcr_value ps" "s2_heap ?s = a" "s2_mem ?s = clear_table x (tables * 512) (s2_mem s)"
      by (simp_all add: set_vtcr_el2_for_this_pcpu_def ps_def)
    have n: "vtcr_descriptors (vtcr_value ps) = tables * 512" using V(2) by (simp add: tables_def)
    have z: "s2_mem ?s (desc_at x j) = descriptor_init" if "j < tables * 512" for j
      using desc_at_own [OF that, of x] unfolding f by (simp add: clear_table_def own_def)
    have ct: "stage2_area x ?s = own x (tables * 512)" "sep (vtcr_depth (vtcr_value ps)) (tables * 512) (s2_mem ?s) x"
      "\<forall>y. stage2_walk x ?s y = None" 
      using cleared_table [where M = "s2_mem ?s" and a = x and k = "vtcr_depth (vtcr_value ps)", OF z tb(3)]
      by (simp_all add: stage2_area_def stage2_walk_def f(1) n)
    have o: "own x (tables * 512) = {x..<x + tables * 4096}" by (simp add: own_def mult.commute)
    have A: "2 ^ (11 + tables) dvd x" "{x..<x + tables * 4096} \<subseteq> free_set (s2_heap s)" "free_set a = free_set (s2_heap s) - {x..<x + tables * 4096}"
      using r(2) Inr by (simp_all add: allocated_def)
    have d: "tables * 4096 dvd x" by (rule dvd_trans [OF _ A(1)]) (use t in auto)
    have w: "wf_stage2 x ?s"
      unfolding wf_stage2_def ct(1) o f(1,2) n using ps r(3) ct(2) A(3) l(2) by auto
    have m: "\<forall>p. p \<notin> {x..<x + tables * 4096} \<longrightarrow> s2_mem ?s p = s2_mem s p"
      unfolding f by (auto simp: clear_table_def)
    have lim: "stage2_limit ?s = 2 ^ (64 - fst (geometry ps))" unfolding stage2_limit_def f(1) V(3) ..
    show ?thesis unfolding c option.case prod.case ct(1) o f(2) using w ct(3) lim d A m by simp
  qed
qed


lemma attrs_value:
  "attrs (access_permission is_readable is_writable) is_device =
     (if is_device then 0 else 0x3C) OR push_bit 6 (of_bool is_readable) OR push_bit 7 (of_bool is_writable) OR 0x700"
  by (cases is_readable; cases is_writable; cases is_device)
    (simp_all add: attrs_def access_permission_def leaf_attributes_def leaf_descriptor_def set_shareability_def
      set_memory_attribute_device_def set_memory_attribute_write_back_def set_permission_def set_output_address_def
      descriptor_init_def AF_def SH_def SH_OFFSET_def S2AP_def S2AP_OFFSET_def ATTR_INDEX_def ATTR_WRITE_BACK_def
      OUTPUT_ADDRESS_MASK_def shareability_bits_def)

lemma other_table_kept:
  assumes "wf_stage2 u s" "stage2_area t s \<inter> stage2_area u s = {}" "wf_stage2 t s'" "vtcr_el2 s' = vtcr_el2 s"
    and f: "free_set (s2_heap s') \<subseteq> free_set (s2_heap s)"
    and a: "stage2_area t s' \<subseteq> stage2_area t s \<union> (free_set (s2_heap s) - free_set (s2_heap s'))"
    and m: "\<forall>p. p \<notin> stage2_area t s \<union> (free_set (s2_heap s) - free_set (s2_heap s')) \<longrightarrow> s2_mem s' p = s2_mem s p"
  shows "wf_stage2 u s'" "stage2_area t s' \<inter> stage2_area u s' = {}" "stage2_walk u s' x = stage2_walk u s x"
proof -
  let ?k = "vtcr_depth (vtcr_el2 s)" and ?n = "vtcr_descriptors (vtcr_el2 s)"
  have d: "stage2_area u s \<inter> free_set (s2_heap s) = {}" using assms(1) by (simp add: wf_stage2_def)
  obtain ps where ps: "ps \<le> 15" "vtcr_el2 s = vtcr_value ps" using assms(1) by (auto simp: wf_stage2_def)
  have n: "0 < ?n" using geometry_fits(1) [OF ps(1)] ps(2) by auto
  have "s2_mem s' p = s2_mem s p" if "p \<in> area ?k ?n (s2_mem s) u" for p
  proof -
    have "p \<in> stage2_area u s" using that by (simp add: stage2_area_def)
    then have "p \<notin> stage2_area t s \<union> (free_set (s2_heap s) - free_set (s2_heap s'))" using assms(2) d by blast
    then show ?thesis using m by blast
  qed
  note F = area_frame [of ?k ?n "s2_mem s" u "s2_mem s'", OF this]
  have A: "stage2_area u s' = stage2_area u s" using F by (simp add: stage2_area_def assms(4))
  show "stage2_walk u s' x = stage2_walk u s x" using F n by (simp add: stage2_walk_def stage2_limit_def assms(4))
  show "stage2_area t s' \<inter> stage2_area u s' = {}" unfolding A using assms(2) a d by blast
  have "sep ?k ?n (s2_mem s') u" using F assms(1) by (simp add: wf_stage2_def)
  then show "wf_stage2 u s'" using assms(1,3) d f unfolding wf_stage2_def assms(4) A by blast
qed


section \<open>The properties\<close>

text \<open>C20.  Mapping a range.  For a page-aligned range of a well-formed stage-2 table, inside the
  address space VTCR_EL2 describes and not mapped yet, both entry points return without
  a panic and keep the table well formed.  Afterwards the walk of the hardware takes
  exactly the mapped part to the requested physical addresses, with the access
  permissions asked for, the access flag, inner shareability and write-back or
  device memory, and every other address to where it went before.  On success that part is the whole
  range, whatever mix of blocks and pages was used; on an error it is a prefix.
  The TLB is flushed when the mapping succeeded and the table is the one VTTBR_EL2 holds.\<close>

theorem stage2_map_correct:
  assumes "wf_stage2 t s" "4096 dvd pa" "4096 dvd ipa" "4096 dvd n" "0 < n" "pa + n \<le> 2 ^ 48" "ipa + n \<le> stage2_limit s"
    and "\<forall>x \<in> {ipa..<ipa + n}. stage2_walk t s x = None"
  shows "\<exists>r s' c. (if is_device then map_device_stage2 t pa ipa n is_readable is_writable s
                  else map_address_stage2 t pa ipa n is_readable is_writable s) = Some (r, s') \<and>
    wf_stage2 t s' \<and> c \<le> n \<and> (r = Inr () \<longrightarrow> c = n) \<and>
    tlb_flushes s' = tlb_flushes s + of_bool (r = Inr () \<and> of_nat t = vttbr_el2 s AND VTTBR_BADDR) \<and>
    (\<forall>x. stage2_walk t s' x =
       (if ipa \<le> x \<and> x < ipa + c
        then Some (pa + (x - ipa),
               (if is_device then 0 else 0x3C) OR push_bit 6 (of_bool is_readable) OR push_bit 7 (of_bool is_writable) OR 0x700)
        else stage2_walk t s x))"
proof -
  have "(if is_device then map_device_stage2 t pa ipa n is_readable is_writable s
      else map_address_stage2 t pa ipa n is_readable is_writable s) =
    map_address_stage2_internal t pa ipa n is_readable is_writable is_device s"
    by (simp add: map_device_stage2_def map_address_stage2_def)
  then show ?thesis using stage2_internal_correct [OF assms, of is_readable is_writable is_device, unfolded attrs_value] by metis
qed

text \<open>C21.  Creating a table.  From a consistent heap the creation either panics for want of memory
  (no free block of the size and alignment, or no entry left to split one), or returns a
  table that VTCR_EL2 describes: aligned to its size, carved out of the free memory, and
  empty, so that every address faults; the input size in VTCR_EL2 is the one the physical
  address range of the CPU calls for.\<close>

theorem create_stage2_correct:
  assumes "low_inv (s2_heap s)" "free_set (s2_heap s) \<subseteq> {..<2 ^ 48}"
  shows "let ps = id_reg AND ID_AA64MMFR0_EL1_PARANGE;
      tables = number_of_concatenated_page_tables (fst (geometry ps)) (snd (geometry ps)) in
    case create_stage2_translation_table id_reg s of
      None \<Rightarrow> pool_full (s2_heap s) \<or>
        (\<forall>x. 2 ^ (11 + tables) dvd x \<longrightarrow> x + tables * 4096 < usize_limit \<longrightarrow> \<not> {x..<x + tables * 4096} \<subseteq> free_set (s2_heap s))
    | Some (t, s') \<Rightarrow> wf_stage2 t s' \<and> (\<forall>x. stage2_walk t s' x = None) \<and> stage2_limit s' = 2 ^ (64 - fst (geometry ps)) \<and>
        tables * 4096 dvd t \<and> stage2_area t s' = {t..<t + tables * 4096} \<and>
        stage2_area t s' \<subseteq> free_set (s2_heap s) \<and> free_set (s2_heap s') = free_set (s2_heap s) - stage2_area t s' \<and>
        (\<forall>p. p \<notin> stage2_area t s' \<longrightarrow> s2_mem s' p = s2_mem s p)"
  using created [OF assms, of id_reg] by (simp only: Let_def)

text \<open>C22.  Guests are isolated in the tables: mapping into one table never changes what another
  guest's table translates, and the two trees stay well formed and disjoint,
  whether or not the mapping succeeds.\<close>

theorem stage2_isolation:
  assumes "wf_stage2 t s" "wf_stage2 u s" "stage2_area t s \<inter> stage2_area u s = {}"
    and "4096 dvd pa" "4096 dvd ipa" "4096 dvd n" "0 < n" "pa + n \<le> 2 ^ 48" "ipa + n \<le> stage2_limit s"
    and "\<forall>x \<in> {ipa..<ipa + n}. stage2_walk t s x = None"
  shows "\<exists>r s'. map_address_stage2 t pa ipa n is_readable is_writable s = Some (r, s') \<and>
    (\<forall>x. stage2_walk u s' x = stage2_walk u s x) \<and> wf_stage2 t s' \<and> wf_stage2 u s' \<and>
    stage2_area t s' \<inter> stage2_area u s' = {}"
proof -
  obtain r s' where run: "map_address_stage2 t pa ipa n is_readable is_writable s = Some (r, s')" "wf_stage2 t s'"
    "vtcr_el2 s' = vtcr_el2 s" "free_set (s2_heap s') \<subseteq> free_set (s2_heap s)"
    "stage2_area t s' \<subseteq> stage2_area t s \<union> (free_set (s2_heap s) - free_set (s2_heap s'))"
    "\<forall>p. p \<notin> stage2_area t s \<union> (free_set (s2_heap s) - free_set (s2_heap s')) \<longrightarrow> s2_mem s' p = s2_mem s p"
    using stage2_internal_correct [OF assms(1,4-10), of is_readable is_writable False]
    unfolding map_address_stage2_def by blast
  show ?thesis using other_table_kept [OF assms(2,3) run(2-6)] run(1,2) by blast
qed

text \<open>C23.  Two translations, one result.  After a guest's RAM has been mapped into a table in which
  nothing was mapped, the address arithmetic the device models use agrees with the stage-2
  walk at every guest address: a RAM address translates to the same physical address, which
  lies inside the guest's own RAM, and any other address is rejected by both.\<close>

theorem guest_translation_agrees:
  assumes "wf_stage2 t s" "\<forall>x. stage2_walk t s x = None"
    and "4096 dvd ram_pa" "4096 dvd ram_va" "4096 dvd ram_size" "0 < ram_size" "ram_pa + ram_size \<le> 2 ^ 48"
      "ram_va + ram_size \<le> stage2_limit s"
    and "map_address_stage2 t ram_pa ram_va ram_size True True s = Some (Inr (), s')"
  shows "translate_guest_physical_address x ram_va ram_pa ram_size = Some (map_option fst (stage2_walk t s' x)) \<and>
    (\<forall>y. translate_guest_physical_address x ram_va ram_pa ram_size = Some (Some y) \<longrightarrow> ram_pa \<le> y \<and> y < ram_pa + ram_size)"
proof -
  have "\<forall>y. stage2_walk t s' y = (if ram_va \<le> y \<and> y < ram_va + ram_size
      then Some (ram_pa + (y - ram_va), attrs (access_permission True True) False) else stage2_walk t s y)"
    using stage2_internal_correct [OF assms(1,3-8), of True True False] assms(2,9) unfolding map_address_stage2_def by auto
  then have w: "stage2_walk t s' x = (if ram_va \<le> x \<and> x < ram_va + ram_size
      then Some (ram_pa + (x - ram_va), attrs (access_permission True True) False) else None)" using assms(2) by simp
  obtain ps where ps: "ps \<le> 15" "vtcr_el2 s = vtcr_value ps" using assms(1) by (auto simp: wf_stage2_def)
  have "stage2_limit s \<le> 2 ^ 48"
    using geometry_fits(3) [OF ps(1)] vtcr_fields(3) [OF ps(1)] power_increasing [of "64 - fst (geometry ps)" 48 "2 :: nat"]
    by (auto simp: stage2_limit_def ps(2))
  then have e: "uadd ram_va ram_size = Some (ram_va + ram_size)" using assms(8) by (simp add: uadd_def usize_limit_def)
  have y: "uadd (x - ram_va) ram_pa = Some (ram_pa + (x - ram_va))" if "x < ram_va + ram_size" "ram_va \<le> x"
  proof -
    have "x - ram_va + ram_pa < usize_limit" using that assms(7) by (simp add: usize_limit_def)
    then show ?thesis by (simp add: uadd_def add.commute)
  qed
  show ?thesis using e y unfolding translate_guest_physical_address_def w by (auto simp: usub_def)
qed


lemma example_tables:
  "\<exists>t u s. wf_stage2 t s \<and> wf_stage2 u s \<and> stage2_area t s \<inter> stage2_area u s = {} \<and> (\<forall>x. stage2_walk t s x = None) \<and>
     stage2_limit s = 2 ^ 32 \<and> vtcr_el2 s = vtcr_value 0"
proof -
  obtain a where a: "low_inv a" "free_set a = {4096..<12288}" and nf: "\<not> pool_full a" using one_bank by blast
  define s where "s = \<lparr>s2_mem = \<lambda>_. 0, s2_heap = a, vtcr_el2 = 0, vttbr_el2 = 0, tlb_flushes = 0\<rparr>"
  have "(0 :: u64) AND ID_AA64MMFR0_EL1_PARANGE = 0" "geometry 0 = (32, 2)" "number_of_concatenated_page_tables 32 2 = 1"
    by (simp_all add: geometry_def number_of_concatenated_page_tables_def)
  note e = this
  have l: "low_inv (s2_heap s)" "free_set (s2_heap s) \<subseteq> {..<2 ^ 48}" "s2_heap s = a" "s2_mem s = (\<lambda>_. 0)"
    using a by (auto simp: s_def)
  have cr: "case create_stage2_translation_table 0 s of
      None \<Rightarrow> pool_full a \<or> (\<forall>x. 2 ^ 12 dvd x \<longrightarrow> x + 4096 < usize_limit \<longrightarrow> \<not> {x..<x + 4096} \<subseteq> {4096..<12288})
    | Some (t, s') \<Rightarrow> wf_stage2 t s' \<and> (\<forall>x. stage2_walk t s' x = None) \<and> stage2_limit s' = 2 ^ 32 \<and>
        4096 dvd t \<and> stage2_area t s' = {t..<t + 4096} \<and>
        stage2_area t s' \<subseteq> {4096..<12288} \<and> free_set (s2_heap s') = {4096..<12288} - stage2_area t s' \<and>
        (\<forall>p. p \<notin> stage2_area t s' \<longrightarrow> s2_mem s' p = 0)"
    using created [OF l(1,2), of 0] unfolding l(3,4) a(2) e fst_conv snd_conv mult_1 by (auto split: option.splits)
  have "\<not> (\<forall>x. 2 ^ 12 dvd x \<longrightarrow> x + 4096 < usize_limit \<longrightarrow> \<not> {x..<x + 4096} \<subseteq> {4096..<12288 :: nat})"
    by (intro notI) (drule spec [of _ 4096], simp add: usize_limit_def)
  with cr nf obtain t s' where c: "create_stage2_translation_table 0 s = Some (t, s')" "wf_stage2 t s'"
    "\<forall>x. stage2_walk t s' x = None" "stage2_limit s' = 2 ^ 32" "stage2_area t s' \<subseteq> {4096..<12288}"
    "free_set (s2_heap s') \<subseteq> {4096..<12288}" "\<And>p. p \<notin> stage2_area t s' \<Longrightarrow> s2_mem s' p = 0"
    by (auto split: option.splits prod.splits)
  have v: "vtcr_el2 s' = vtcr_value 0"
  proof -
    obtain r h where "allocate_pages 1 12 (s2_heap s) = Some (r, h)"
      using c(1) e unfolding create_stage2_translation_table_def by (cases "allocate_pages 1 12 (s2_heap s)") auto
    then show ?thesis using c(1) e unfolding create_stage2_translation_table_def
      by (cases r) (auto simp: set_vtcr_el2_for_this_pcpu_def)
  qed
  obtain ps where ps: "ps \<le> 15" "vtcr_el2 s' = vtcr_value ps" using c(2) by (auto simp: wf_stage2_def)
  let ?n = "vtcr_descriptors (vtcr_el2 s')"
  have n: "0 < ?n" using geometry_fits(1) [OF ps(1)] ps(2) by auto
  have z: "s2_mem s' (desc_at 16384 j) = descriptor_init" if "j < ?n" for j
  proof -
    have "desc_at 16384 j \<notin> {4096..<12288}" by (simp add: desc_at_def)
    then have "desc_at 16384 j \<notin> stage2_area t s'" using c(5) by blast
    from c(7) [OF this] show ?thesis by (simp add: descriptor_init_def)
  qed
  have ct: "stage2_area 16384 s' = own 16384 ?n" "sep (vtcr_depth (vtcr_el2 s')) ?n (s2_mem s') 16384"
    using cleared_table [where M = "s2_mem s'" and a = 16384 and k = "vtcr_depth (vtcr_el2 s')", OF z n]
    by (simp_all add: stage2_area_def)
  have "own 16384 ?n \<inter> {4096..<12288} = {}" by (auto simp: own_def)
  then have "wf_stage2 16384 s'" "stage2_area t s' \<inter> stage2_area 16384 s' = {}"
    using c(2,5,6) ct unfolding wf_stage2_def by blast+
  with c v show ?thesis by blast
qed

theorem stage2_map_correct_witness:
  "\<exists>t s r s' c. (\<forall>x. stage2_walk t s x = None) \<and> map_address_stage2 t 0x40000000 0x80000000 0x201000 True False s = Some (r, s') \<and>
     c \<le> (0x201000 :: nat) \<and> (r = Inr () \<longrightarrow> c = 0x201000) \<and>
     stage2_walk t s' 0x80000000 = (if 0 < c then Some (0x40000000, 0x77C) else None) \<and> stage2_walk t s' 0x80201000 = None"
proof -
  obtain t s where ts: "wf_stage2 t s" "\<forall>x. stage2_walk t s x = None" "stage2_limit s = 2 ^ 32" using example_tables by blast
  then have h: "4096 dvd (0x40000000 :: nat)" "4096 dvd (0x80000000 :: nat)" "4096 dvd (0x201000 :: nat)" "0 < (0x201000 :: nat)"
    "0x40000000 + (0x201000 :: nat) \<le> 2 ^ 48" "0x80000000 + 0x201000 \<le> stage2_limit s"
    "\<forall>x \<in> {0x80000000..<0x80000000 + 0x201000}. stage2_walk t s x = None" by simp_all
  obtain r s' c where m: "map_address_stage2 t 0x40000000 0x80000000 0x201000 True False s = Some (r, s')"
    "c \<le> 0x201000" "r = Inr () \<longrightarrow> c = 0x201000"
    "\<forall>x. stage2_walk t s' x = (if 0x80000000 \<le> x \<and> x < 0x80000000 + c then Some (0x40000000 + (x - 0x80000000), 0x77C) else stage2_walk t s x)"
    using stage2_map_correct [OF ts(1) h, where is_device = False and is_readable = True and is_writable = False]
    unfolding if_False by (elim exE conjE) (auto intro: that)
  have "stage2_walk t s' 0x80000000 = (if 0 < c then Some (0x40000000, 0x77C) else None)" "stage2_walk t s' 0x80201000 = None"
    using m(2,4) ts(2) by auto
  with m(1-3) ts(2) show ?thesis by blast
qed

theorem create_stage2_correct_witness:
  "\<exists>a s t s'. free_set a = {4096..<12288} \<and> s2_heap s = a \<and> create_stage2_translation_table 0 s = Some (t, s') \<and>
     4096 dvd t \<and> stage2_limit s' = 2 ^ 32 \<and> (\<forall>x. stage2_walk t s' x = None)"
proof -
  obtain a where a: "low_inv a" "free_set a = {4096..<12288}" and nf: "\<not> pool_full a" using one_bank by blast
  define s where "s = \<lparr>s2_mem = \<lambda>_. 0, s2_heap = a, vtcr_el2 = 0, vttbr_el2 = 0, tlb_flushes = 0\<rparr>"
  have e: "(0 :: u64) AND ID_AA64MMFR0_EL1_PARANGE = 0" "geometry 0 = (32, 2)" "number_of_concatenated_page_tables 32 2 = 1"
    by (simp_all add: geometry_def number_of_concatenated_page_tables_def)
  have ex: "\<not> (\<forall>x. 2 ^ 12 dvd x \<longrightarrow> x + 4096 < usize_limit \<longrightarrow> \<not> {x..<x + 4096} \<subseteq> {4096..<12288 :: nat})"
    by (intro notI) (drule spec [of _ 4096], simp add: usize_limit_def)
  have "low_inv (s2_heap s)" "free_set (s2_heap s) \<subseteq> {..<2 ^ 48}" using a by (auto simp: s_def)
  from create_stage2_correct [OF this, of 0] ex nf a e show ?thesis
    by (intro exI [of _ a] exI [of _ s]) (auto simp: s_def Let_def split: option.splits)
qed

theorem stage2_isolation_witness:
  "\<exists>t u s r s'. map_address_stage2 t 0x40000000 0x80000000 0x201000 True True s = Some (r, s') \<and>
     (\<forall>x. stage2_walk u s' x = stage2_walk u s x) \<and> stage2_area t s' \<inter> stage2_area u s' = {}"
proof -
  obtain t u s where ts: "wf_stage2 t s" "wf_stage2 u s" "stage2_area t s \<inter> stage2_area u s = {}"
    "\<forall>x. stage2_walk t s x = None" "stage2_limit s = 2 ^ 32" using example_tables by blast
  have "\<exists>r s'. map_address_stage2 t 0x40000000 0x80000000 0x201000 True True s = Some (r, s') \<and>
      (\<forall>x. stage2_walk u s' x = stage2_walk u s x) \<and> wf_stage2 t s' \<and> wf_stage2 u s' \<and>
      stage2_area t s' \<inter> stage2_area u s' = {}"
    by (rule stage2_isolation [OF ts(1-3)]) (use ts(4,5) in simp_all)
  then show ?thesis by blast
qed

lemma block_example:
  assumes "vtcr_el2 s = vtcr_value 0"
  shows "\<exists>s'. map_address_stage2 t 0x40000000 0x80000000 0x40000000 True True s = Some (Inr (), s')"
proof -
  have v: "vtcr_depth (vtcr_el2 s) = Suc 1" "vtcr_descriptors (vtcr_el2 s) = 512"
    using vtcr_fields(1,2) [of 0] assms by (simp_all add: geometry_def number_of_concatenated_page_tables_def)
  have i: "first_index (Suc 1) 512 \<lparr>mp_pa = 0x40000000, mp_ipa = 0x80000000, mp_rem = 0x40000000, mp_mem = m, mp_heap = h\<rparr> = 2" for m h
    by (simp add: first_index_def block_shift_def)
  have u: "[2..<512] = 2 # [3..<512]" by (simp add: upt_conv_Cons)
  have "\<exists>s'. map_address_stage2_internal t 0x40000000 0x80000000 0x40000000 True True False s = Some (Inr (), s')"
    unfolding map_address_stage2_internal_def v map_table.simps(2) i u map_descriptors.simps
    by (simp add: PAGE_SHIFT_def block_shift_def advance_def write_desc_def uadd_def usub_def usize_limit_def Let_def)
  then show ?thesis by (simp add: map_address_stage2_def)
qed

theorem guest_translation_agrees_witness:
  "\<exists>t s s'. map_address_stage2 t 0x40000000 0x80000000 0x40000000 True True s = Some (Inr (), s') \<and>
     translate_guest_physical_address 0x80000123 0x80000000 0x40000000 0x40000000 =
       Some (map_option fst (stage2_walk t s' 0x80000123))"
proof -
  obtain t s where ts: "wf_stage2 t s" "\<forall>x. stage2_walk t s x = None" "stage2_limit s = 2 ^ 32" "vtcr_el2 s = vtcr_value 0"
    using example_tables by blast
  obtain s' where s': "map_address_stage2 t 0x40000000 0x80000000 0x40000000 True True s = Some (Inr (), s')"
    using block_example [OF ts(4)] by blast
  have h: "4096 dvd (0x40000000 :: nat)" "4096 dvd (0x80000000 :: nat)" "4096 dvd (0x40000000 :: nat)" "0 < (0x40000000 :: nat)"
    "0x40000000 + (0x40000000 :: nat) \<le> 2 ^ 48" "0x80000000 + 0x40000000 \<le> stage2_limit s" using ts(3) by simp_all
  show ?thesis using guest_translation_agrees [OF ts(1,2) h s', of "0x80000123"] s' by blast
qed

end
