(* ===== verification/Byte_Memory.thy ===== *)
theory Byte_Memory
  imports Prelude
begin

text \<open>
  Memory as the device models, the file system and the parsers see it: a function from
  addresses to bytes.  Words in memory are little endian; the device tree is big endian.
\<close>

type_synonym bmem = "nat \<Rightarrow> u8"

definition get_bytes :: "bmem \<Rightarrow> usize \<Rightarrow> nat \<Rightarrow> u8 list" where
  "get_bytes m a n = map (\<lambda>i. m (a + i)) [0..<n]"

definition put_bytes :: "usize \<Rightarrow> u8 list \<Rightarrow> bmem \<Rightarrow> bmem" where
  "put_bytes a bs m = (\<lambda>p. if a \<le> p \<and> p < a + length bs then bs ! (p - a) else m p)"

fun le_nat :: "u8 list \<Rightarrow> nat" where
  "le_nat [] = 0"
| "le_nat (b # bs) = unat b + 256 * le_nat bs"

fun le_bytes :: "nat \<Rightarrow> nat \<Rightarrow> u8 list" where
  "le_bytes 0 v = []"
| "le_bytes (Suc n) v = of_nat (v mod 256) # le_bytes n (v div 256)"

definition be_nat :: "u8 list \<Rightarrow> nat" where
  "be_nat bs = le_nat (rev bs)"

definition load_le :: "nat \<Rightarrow> bmem \<Rightarrow> usize \<Rightarrow> nat" where
  "load_le n m a = le_nat (get_bytes m a n)"

definition store_le :: "nat \<Rightarrow> usize \<Rightarrow> nat \<Rightarrow> bmem \<Rightarrow> bmem" where
  "store_le n a v m = put_bytes a (le_bytes n v) m"

lemma length_get_bytes [simp]: "length (get_bytes m a n) = n"
  by (simp add: get_bytes_def)

lemma nth_get_bytes [simp]: "i < n \<Longrightarrow> get_bytes m a n ! i = m (a + i)"
  by (simp add: get_bytes_def)

lemma length_le_bytes [simp]: "length (le_bytes n v) = n"
  by (induction n arbitrary: v) simp_all

lemma put_bytes_other: "p < a \<or> a + length bs \<le> p \<Longrightarrow> put_bytes a bs m p = m p"
  by (auto simp: put_bytes_def)

lemma put_bytes_at: "i < length bs \<Longrightarrow> put_bytes a bs m (a + i) = bs ! i"
  by (simp add: put_bytes_def)

lemma get_put_bytes [simp]: "get_bytes (put_bytes a bs m) a (length bs) = bs"
  by (rule nth_equalityI) (simp_all add: put_bytes_def)

lemma get_bytes_cong: "(\<And>i. i < n \<Longrightarrow> m (a + i) = m' (a + i)) \<Longrightarrow> get_bytes m a n = get_bytes m' a n"
  by (simp add: get_bytes_def)

lemma get_put_bytes_other:
  "a + n \<le> b \<or> b + length bs \<le> a \<Longrightarrow> get_bytes (put_bytes b bs m) a n = get_bytes m a n"
  by (rule get_bytes_cong) (auto simp: put_bytes_def)

lemma le_nat_less: "le_nat bs < 256 ^ length bs"
proof (induction bs)
  case (Cons b bs)
  have b: "unat b < 256" using unsigned_less [of b] by simp
  show ?case using Cons b by simp
qed simp

lemma le_nat_le_bytes: "le_nat (le_bytes n v) = v mod 256 ^ n"
proof (induction n arbitrary: v)
  case (Suc n)
  have "unat (word_of_nat (v mod 256) :: u8) = v mod 256" by (simp add: unat_of_nat)
  moreover have "v mod 256 + 256 * (v div 256 mod 256 ^ n) = v mod (256 * 256 ^ n)"
    by (simp add: mod_mult2_eq)
  ultimately show ?case by (simp add: Suc)
qed simp

lemma load_store_le [simp]: "load_le n (store_le n a v m) a = v mod 256 ^ n"
  using get_put_bytes [of a "le_bytes n v" m] by (simp add: load_le_def store_le_def le_nat_le_bytes)

lemma load_store_le_other:
  "a + n \<le> b \<or> b + k \<le> a \<Longrightarrow> load_le n (store_le k b v m) a = load_le n m a"
  by (simp add: load_le_def store_le_def get_put_bytes_other)

lemma store_le_other: "p < a \<or> a + n \<le> p \<Longrightarrow> store_le n a v m p = m p"
  by (simp add: store_le_def put_bytes_other)

lemma load_le_less: "load_le n m a < 256 ^ n"
  using le_nat_less [of "get_bytes m a n"] by (simp add: load_le_def)

end
