(* ===== verification/Fat32.thy ===== *)
theory Fat32
  imports Byte_Memory Memory_Interface Serial
begin

text \<open>
  The FAT32 reader and writer: \<^verbatim>\<open>fat32.rs\<close>, over the block devices of
  \<^verbatim>\<open>drivers/block_device.rs\<close> and \<^verbatim>\<open>block_backend.rs\<close>.

  The trait object \<open>dyn BlockDevice\<close> is the record \<open>block_device\<close> of its two methods, over a
  device state of any type and the memory the transfer goes to or comes from.  The state a call may
  change is the record \<open>fsw\<close>: memory, device, allocator, and the counter of FAT lookups.  The
  \<open>Cell\<close> of \<open>FileInfo\<close> is updated by returning the new record.  A \<open>u32\<close> that is computed with is
  a \<^typ>\<open>nat\<close> whose overflow is checked by \<open>in_u32\<close>.
\<close>

section \<open>Block devices\<close>

record 'd block_device =
  blk_read :: "usize \<Rightarrow> nat \<Rightarrow> nat \<Rightarrow> 'd \<times> bmem \<Rightarrow> ((unit + unit) \<times> 'd \<times> bmem) option"
  blk_write :: "usize \<Rightarrow> nat \<Rightarrow> nat \<Rightarrow> 'd \<times> bmem \<Rightarrow> ((unit + unit) \<times> 'd \<times> bmem) option"

datatype ('v, 's, 'u) BlockBackend = Invalid | Virtio 'v | Sdhci 's | Usb 'u

text \<open>A transfer of the driver in use, on its own part of the state.\<close>

definition on_driver :: "('x \<Rightarrow> 'd) \<Rightarrow> ('x \<times> bmem \<Rightarrow> ((unit + unit) \<times> 'x \<times> bmem) option) \<Rightarrow> 'x \<Rightarrow> bmem \<Rightarrow>
    ((unit + unit) \<times> 'd \<times> bmem) option" where
  "on_driver inject transfer x m = do { (r, x, m) \<leftarrow> transfer (x, m); Some (r, inject x, m) }"

definition BlockBackend_read ::
  "'v block_device \<Rightarrow> 's block_device \<Rightarrow> 'u block_device \<Rightarrow> usize \<Rightarrow> nat \<Rightarrow> nat \<Rightarrow>
   ('v, 's, 'u) BlockBackend \<times> bmem \<Rightarrow> ((unit + unit) \<times> ('v, 's, 'u) BlockBackend \<times> bmem) option" where
  "BlockBackend_read virtio sdhci usb buffer_address block_address len = (\<lambda>(b, m). case b of
       Invalid \<Rightarrow> Some (Inl (), b, m)
     | Virtio v \<Rightarrow> on_driver Virtio (blk_read virtio buffer_address block_address len) v m
     | Sdhci s \<Rightarrow> on_driver Sdhci (blk_read sdhci buffer_address block_address len) s m
     | Usb u \<Rightarrow> on_driver Usb (blk_read usb buffer_address block_address len) u m)"

definition BlockBackend_write ::
  "'v block_device \<Rightarrow> 's block_device \<Rightarrow> 'u block_device \<Rightarrow> usize \<Rightarrow> nat \<Rightarrow> nat \<Rightarrow>
   ('v, 's, 'u) BlockBackend \<times> bmem \<Rightarrow> ((unit + unit) \<times> ('v, 's, 'u) BlockBackend \<times> bmem) option" where
  "BlockBackend_write virtio sdhci usb buffer_address block_address len = (\<lambda>(b, m). case b of
       Invalid \<Rightarrow> Some (Inl (), b, m)
     | Virtio v \<Rightarrow> on_driver Virtio (blk_write virtio buffer_address block_address len) v m
     | Sdhci s \<Rightarrow> on_driver Sdhci (blk_write sdhci buffer_address block_address len) s m
     | Usb u \<Rightarrow> on_driver Usb (blk_write usb buffer_address block_address len) u m)"

section \<open>The file system and its files\<close>

definition FAT32_SIGNATURE :: "u8 list" where
  "FAT32_SIGNATURE = [0x46, 0x41, 0x54, 0x33, 0x32, 0x20, 0x20, 0x20]"
definition BYTES_PER_SECTOR_OFFSET :: usize where "BYTES_PER_SECTOR_OFFSET = 11"
definition SECTORS_PER_CLUSTER_OFFSET :: usize where "SECTORS_PER_CLUSTER_OFFSET = 13"
definition NUM_OF_RESERVED_CLUSTER_OFFSET :: usize where "NUM_OF_RESERVED_CLUSTER_OFFSET = 14"
definition NUM_OF_FATS_OFFSET :: usize where "NUM_OF_FATS_OFFSET = 16"
definition FAT_SIZE_OFFSET :: usize where "FAT_SIZE_OFFSET = 36"
definition ROOT_CLUSTER_OFFSET :: usize where "ROOT_CLUSTER_OFFSET = 44"
definition FAT32_SIGNATURE_OFFSET :: usize where "FAT32_SIGNATURE_OFFSET = 82"
definition FAT32_ATTRIBUTE_DIRECTORY :: u8 where "FAT32_ATTRIBUTE_DIRECTORY = 0x10"
definition FAT32_ATTRIBUTE_LONG_FILE_NAME :: u8 where "FAT32_ATTRIBUTE_LONG_FILE_NAME = 0x0F"

record Fat32 =
  base_lba :: usize
  lba_size :: usize
  bytes_per_sector :: u16
  sectors_per_cluster :: u8
  reserved_sectors :: u16
  fat_sectors :: u32
  number_of_fats :: u16
  fat :: usize
  root_directory_list :: usize

record FileInfo =
  entry_cluster :: u32
  file_size :: u32
  walk_hint :: u64

record 'd fsw =
  fs_mem :: bmem
  fs_dev :: 'd
  fs_heap :: alloc
  FAT_WALK_STEPS :: u64

abbreviation bps :: "Fat32 \<Rightarrow> nat" where
  "bps f \<equiv> unat (bytes_per_sector f)"
abbreviation spc :: "Fat32 \<Rightarrow> nat" where
  "spc f \<equiv> unat (sectors_per_cluster f)"

definition in_u32 :: "nat \<Rightarrow> nat option" where
  "in_u32 n = (if n < 2 ^ 32 then Some n else None)"

definition walk_start :: "FileInfo \<Rightarrow> usize \<Rightarrow> nat \<times> usize" where
  "walk_start fi clusters_to_skip =
     (let hint_index = unat (drop_bit 32 (walk_hint fi));
          hint_cluster = unat (ucast (walk_hint fi) :: u32)
      in if 2 \<le> hint_cluster \<and> hint_index \<le> clusters_to_skip then (hint_cluster, hint_index)
         else (unat (entry_cluster fi), 0))"

definition update_walk_hint :: "usize \<Rightarrow> nat \<Rightarrow> FileInfo \<Rightarrow> FileInfo" where
  "update_walk_hint index cluster fi =
     fi\<lparr>walk_hint := push_bit 32 (of_nat index) OR of_nat cluster\<rparr>"

definition get_file_size :: "FileInfo \<Rightarrow> usize" where
  "get_file_size fi = unat (file_size fi)"

section \<open>Clusters and sectors\<close>

definition cluster_to_sector :: "Fat32 \<Rightarrow> nat \<Rightarrow> nat option" where
  "cluster_to_sector f cluster = do {
     x \<leftarrow> in_u32 (unat (number_of_fats f) * unat (fat_sectors f));
     y \<leftarrow> in_u32 (unat (reserved_sectors f) + x);
     c \<leftarrow> usub cluster 2;
     z \<leftarrow> in_u32 (c * spc f);
     in_u32 (y + z) }"

definition bump_walk_steps :: "'d fsw \<Rightarrow> 'd fsw" where
  "bump_walk_steps w = w\<lparr>FAT_WALK_STEPS := FAT_WALK_STEPS w + 1\<rparr>"

definition fat_next :: "Fat32 \<Rightarrow> bmem \<Rightarrow> nat \<Rightarrow> nat option" where
  "fat_next f m cluster =
     (if cluster < unat (fat_sectors f) * bps f div 4
      then let n = load_le 4 m (fat f + 4 * cluster)
           in if 2 \<le> n \<and> n < 0x0FFFFFF8 then Some n else None
      else None)"

definition get_next_cluster :: "Fat32 \<Rightarrow> nat \<Rightarrow> 'd fsw \<Rightarrow> nat option \<times> 'd fsw" where
  "get_next_cluster f cluster w = (fat_next f (fs_mem w) cluster, bump_walk_steps w)"

definition sector_address :: "Fat32 \<Rightarrow> nat \<Rightarrow> nat option" where
  "sector_address f base_sector = do {
     b \<leftarrow> umul (base_lba f) (lba_size f);
     uadd b (base_sector * bps f) }"

definition read_sectors :: "'d block_device \<Rightarrow> Fat32 \<Rightarrow> usize \<Rightarrow> nat \<Rightarrow> nat \<Rightarrow> 'd fsw \<Rightarrow>
    ((unit + unit) \<times> 'd fsw) option" where
  "read_sectors blk f buffer base_sector sectors w = do {
     a \<leftarrow> sector_address f base_sector;
     (r, d, m) \<leftarrow> blk_read blk buffer a (sectors * bps f) (fs_dev w, fs_mem w);
     Some (r, w\<lparr>fs_dev := d, fs_mem := m\<rparr>) }"

definition write_sectors :: "'d block_device \<Rightarrow> Fat32 \<Rightarrow> usize \<Rightarrow> nat \<Rightarrow> nat \<Rightarrow> 'd fsw \<Rightarrow>
    ((unit + unit) \<times> 'd fsw) option" where
  "write_sectors blk f buffer base_sector sectors w = do {
     a \<leftarrow> sector_address f base_sector;
     (r, d, m) \<leftarrow> blk_write blk buffer a (sectors * bps f) (fs_dev w, fs_mem w);
     Some (r, w\<lparr>fs_dev := d, fs_mem := m\<rparr>) }"

section \<open>Mounting\<close>

function ilog2 :: "nat \<Rightarrow> nat option" where
  "ilog2 n = (if n = 0 then None else if n = 1 then Some 0 else do { k \<leftarrow> ilog2 (n div 2); Some (k + 1) })"
  by pat_completeness auto
termination
  by (relation "measure id") auto

definition dma_pages :: "usize \<Rightarrow> nat \<Rightarrow> 'd fsw \<Rightarrow> (usize \<times> 'd fsw) option" where
  "dma_pages pages align w = do {
     (r, a) \<leftarrow> allocate_dma_pages pages align (fs_heap w);
     (case r of Inl e \<Rightarrow> None | Inr x \<Rightarrow> Some (x, w\<lparr>fs_heap := a\<rparr>)) }"

definition release_pages :: "usize \<Rightarrow> usize \<Rightarrow> 'd fsw \<Rightarrow> 'd fsw option" where
  "release_pages address pages w = do {
     a \<leftarrow> free_pages address pages (fs_heap w);
     Some (w\<lparr>fs_heap := a\<rparr>) }"

definition Fat32_new :: "'d block_device \<Rightarrow> usize \<Rightarrow> usize \<Rightarrow> usize \<Rightarrow> 'd fsw \<Rightarrow> ((unit + Fat32) \<times> 'd fsw) option" where
  "Fat32_new blk bpb_address base lba w = do {
     start \<leftarrow> umul base lba;
     (r, d, m) \<leftarrow> blk_read blk bpb_address start 512 (fs_dev w, put_bytes bpb_address (replicate 512 0) (fs_mem w));
     let w = w\<lparr>fs_dev := d, fs_mem := m\<rparr>;
     if r = Inl () \<or> get_bytes m (bpb_address + FAT32_SIGNATURE_OFFSET) 8 \<noteq> FAT32_SIGNATURE then Some (Inl (), w)
     else do {
       let bytes = load_le 2 m (bpb_address + BYTES_PER_SECTOR_OFFSET);
       let per_cluster = load_le 1 m (bpb_address + SECTORS_PER_CLUSTER_OFFSET);
       let reserved_n = load_le 2 m (bpb_address + NUM_OF_RESERVED_CLUSTER_OFFSET);
       let fats = load_le 2 m (bpb_address + NUM_OF_FATS_OFFSET);
       let sectors = load_le 4 m (bpb_address + FAT_SIZE_OFFSET);
       let root_cluster = load_le 4 m (bpb_address + ROOT_CLUSTER_OFFSET);
       last \<leftarrow> usub (sectors * bytes) 1;
       _ \<leftarrow> usub lba 1;
       lba_aligned_fat_size \<leftarrow> uadd (clear_low last lba) lba;
       let fat_pages = lba_aligned_fat_size div 2 ^ PAGE_SHIFT + 1;
       align \<leftarrow> ilog2 lba;
       (fat_buffer, w) \<leftarrow> dma_pages fat_pages align w;
       fat_address \<leftarrow> uadd start (reserved_n * bytes);
       (r, d, m) \<leftarrow> blk_read blk fat_buffer fat_address lba_aligned_fat_size (fs_dev w, fs_mem w);
       let w = w\<lparr>fs_dev := d, fs_mem := m\<rparr>;
       if r = Inl () then do { w \<leftarrow> release_pages fat_buffer fat_pages w; Some (Inl (), w) }
       else do {
         let root_directory_pages = per_cluster * bytes div 2 ^ PAGE_SHIFT + 1;
         (root, w) \<leftarrow> dma_pages root_directory_pages align w;
         let f = \<lparr>base_lba = base, lba_size = lba, bytes_per_sector = of_nat bytes,
                  sectors_per_cluster = of_nat per_cluster, reserved_sectors = of_nat reserved_n,
                  fat_sectors = of_nat sectors, number_of_fats = of_nat fats, fat = fat_buffer,
                  root_directory_list = root\<rparr>;
         root_sector \<leftarrow> cluster_to_sector f root_cluster;
         (r, w) \<leftarrow> read_sectors blk f root root_sector per_cluster w;
         if r = Inl () then do {
           w \<leftarrow> release_pages root root_directory_pages w;
           w \<leftarrow> release_pages fat_buffer fat_pages w;
           Some (Inl (), w) }
         else Some (Inr f, w) } } }"

section \<open>The root directory\<close>

record DirectoryEntry =
  de_name :: "u8 list"
  de_name_extension :: "u8 list"
  de_attribute :: u8
  de_starting_cluster_number_high :: u16
  de_starting_cluster_number :: u16
  de_file_length :: u32

definition directory_entry :: "bmem \<Rightarrow> usize \<Rightarrow> DirectoryEntry" where
  "directory_entry m a =
     \<lparr>de_name = get_bytes m a 8, de_name_extension = get_bytes m (a + 8) 3, de_attribute = m (a + 11),
      de_starting_cluster_number_high = of_nat (load_le 2 m (a + 20)),
      de_starting_cluster_number = of_nat (load_le 2 m (a + 26)),
      de_file_length = of_nat (load_le 4 m (a + 28))\<rparr>"

definition root_entries :: "Fat32 \<Rightarrow> bmem \<Rightarrow> DirectoryEntry list" where
  "root_entries f m =
     map (\<lambda>i. directory_entry m (root_directory_list f + 32 * i)) [0..<bps f * spc f div 32]"

text \<open>Append the characters that are not blanks, at \<open>buffer[p + 1]\<close> and on.\<close>

definition copy_name :: "u8 list \<Rightarrow> nat \<times> u8 list \<Rightarrow> (nat \<times> u8 list) option" where
  "copy_name ns s = for_each ns (\<lambda>n (p, buffer).
     if n = 0x20 then Some (p, buffer)
     else do { buffer \<leftarrow> set_at buffer (p + 1) n; Some (p + 1, buffer) }) s"

definition get_file_name :: "DirectoryEntry \<Rightarrow> u8 list \<Rightarrow> u8 list option option" where
  "get_file_name e buffer = do {
     n0 \<leftarrow> get_at (de_name e) 0;
     buffer \<leftarrow> set_at buffer 0 (if n0 = 0x05 then 0xE5 else n0);
     (p, buffer) \<leftarrow> copy_name (drop 1 (de_name e)) (0, buffer);
     let p = p + 1;
     buffer \<leftarrow> set_at buffer p 0x2E;
     (p, buffer) \<leftarrow> copy_name (de_name_extension e) (p, buffer);
     c \<leftarrow> get_at buffer p;
     (p, buffer) \<leftarrow> (if c = 0x2E then do { buffer \<leftarrow> set_at buffer p 0; Some (p, buffer) } else Some (p + 1, buffer));
     _ \<leftarrow> assert_that (p \<le> length buffer);
     Some (if utf8_valid (take p buffer) then Some (take p buffer) else None) }"

definition make_ascii_lowercase :: "u8 list \<Rightarrow> u8 list" where
  "make_ascii_lowercase s = map (\<lambda>c. if 0x41 \<le> c \<and> c \<le> 0x5A then c OR 0x20 else c) s"

definition is_skipped :: "DirectoryEntry \<Rightarrow> bool" where
  "is_skipped e \<longleftrightarrow> de_attribute e AND 0x3F = FAT32_ATTRIBUTE_LONG_FILE_NAME \<or>
     de_attribute e AND FAT32_ATTRIBUTE_DIRECTORY \<noteq> 0"

definition file_info_of :: "DirectoryEntry \<Rightarrow> FileInfo" where
  "file_info_of e =
     \<lparr>entry_cluster = push_bit 16 (ucast (de_starting_cluster_number_high e)) OR ucast (de_starting_cluster_number e),
      file_size = de_file_length e, walk_hint = 0\<rparr>"

fun list_entries :: "DirectoryEntry list \<Rightarrow> (u8 list \<times> u32) list option" where
  "list_entries [] = Some []"
| "list_entries (e # es) =
     (if is_skipped e then list_entries es
      else do {
        n0 \<leftarrow> get_at (de_name e) 0;
        if n0 = 0 then Some []
        else if n0 = 0xE5 then list_entries es
        else do {
          r \<leftarrow> get_file_name e (replicate 12 0);
          rest \<leftarrow> list_entries es;
          Some (case r of None \<Rightarrow> rest | Some file_name \<Rightarrow> (file_name, de_file_length e) # rest) } })"

definition list_files :: "Fat32 \<Rightarrow> bmem \<Rightarrow> (u8 list \<times> u32) list option" where
  "list_files f m = list_entries (root_entries f m)"

fun search_entries :: "u8 list \<Rightarrow> DirectoryEntry list \<Rightarrow> FileInfo option option" where
  "search_entries target_name [] = Some None"
| "search_entries target_name (e # es) =
     (if is_skipped e then search_entries target_name es
      else do {
        n0 \<leftarrow> get_at (de_name e) 0;
        if n0 = 0 then Some None
        else if n0 = 0xE5 then search_entries target_name es
        else do {
          r \<leftarrow> get_file_name e (replicate 12 0);
          (case r of
             None \<Rightarrow> search_entries target_name es
           | Some file_name \<Rightarrow>
               if file_name = target_name \<or> make_ascii_lowercase file_name = target_name
               then Some (Some (file_info_of e))
               else search_entries target_name es) } })"

definition search_file :: "Fat32 \<Rightarrow> bmem \<Rightarrow> u8 list \<Rightarrow> FileInfo option option" where
  "search_file f m target_name = search_entries target_name (root_entries f m)"

definition debug_buffer_range :: "Fat32 \<Rightarrow> (usize \<times> usize) option" where
  "debug_buffer_range f = do {
     e \<leftarrow> uadd (root_directory_list f) ((spc f * bps f div 2 ^ PAGE_SHIFT + 1) * 2 ^ PAGE_SHIFT);
     Some (root_directory_list f, e) }"

section \<open>Reading\<close>

text \<open>The clusters before the one the request starts in, from the hint on; every step is noted in
  the hint.\<close>

fun walk_chain :: "Fat32 \<Rightarrow> nat list \<Rightarrow> nat \<Rightarrow> FileInfo \<Rightarrow> 'd fsw \<Rightarrow> (unit + nat) \<times> FileInfo \<times> 'd fsw" where
  "walk_chain f [] cluster fi w = (Inr cluster, fi, w)"
| "walk_chain f (i # is) cluster fi w =
     (case get_next_cluster f cluster w of
        (None, w) \<Rightarrow> (Inl (), fi, w)
      | (Some n, w) \<Rightarrow> walk_chain f is n (update_walk_hint (i + 1) n fi) w)"

text \<open>Whole sectors in front of the first byte are skipped.\<close>

definition skip_sectors :: "Fat32 \<Rightarrow> nat \<times> usize \<times> usize \<Rightarrow> (nat \<times> usize \<times> usize) option" where
  "skip_sectors f = (\<lambda>(sector_offset, data_offset, data_offset_backup).
     if bps f < data_offset then do {
       q \<leftarrow> udiv data_offset (bps f);
       let sector_offset = q mod 2 ^ 32;
       data_offset \<leftarrow> usub data_offset (sector_offset * bps f);
       Some (sector_offset, data_offset, data_offset) }
     else Some (sector_offset, data_offset, data_offset_backup))"

text \<open>The inner loop: the sectors that can be transferred at once.  The result is the number of
  sectors and bytes, the first sector in the first cluster, the offset in that sector and the
  last cluster.\<close>

partial_function (option) read_run ::
  "Fat32 \<Rightarrow> usize \<Rightarrow> nat \<Rightarrow> usize \<Rightarrow> nat \<times> usize \<times> usize \<Rightarrow> nat \<Rightarrow> 'd fsw \<Rightarrow>
   ((unit + nat \<times> usize \<times> nat \<times> usize \<times> nat) \<times> 'd fsw) option" where
  "read_run f len sectors read_bytes offsets reading_cluster w = do {
     (sector_offset, data_offset, data_offset_backup) \<leftarrow> skip_sectors f offsets;
     rest \<leftarrow> usub len read_bytes;
     x \<leftarrow> uadd rest data_offset;
     if x \<le> spc f * bps f then do {
       q \<leftarrow> udiv (max x 1 - 1) (bps f);
       sectors \<leftarrow> in_u32 (sectors + (1 + q) mod 2 ^ 32);
       read_bytes \<leftarrow> uadd read_bytes rest;
       Some (Inr (sectors, read_bytes, sector_offset, data_offset_backup, reading_cluster), w) }
     else do {
       sectors \<leftarrow> in_u32 (sectors + spc f);
       y \<leftarrow> usub (spc f * bps f) data_offset;
       read_bytes \<leftarrow> uadd read_bytes y;
       (case get_next_cluster f reading_cluster w of
          (None, w) \<Rightarrow> Some (Inl (), w)
        | (Some next_cluster, w) \<Rightarrow> do {
            c \<leftarrow> in_u32 (reading_cluster + 1);
            if next_cluster \<noteq> c
            then Some (Inr (sectors, read_bytes, sector_offset, data_offset_backup, reading_cluster), w)
            else read_run f len sectors read_bytes (sector_offset, 0, data_offset_backup) next_cluster w }) } }"

text \<open>One transfer; an offset inside the first sector goes through a buffer of its own.\<close>

definition read_part ::
  "'d block_device \<Rightarrow> Fat32 \<Rightarrow> usize \<Rightarrow> usize \<Rightarrow> nat \<Rightarrow> usize \<Rightarrow> nat \<Rightarrow> nat \<Rightarrow> usize \<Rightarrow> 'd fsw \<Rightarrow> ((unit + unit) \<times> 'd fsw) option" where
  "read_part blk f buffer_address buffer_pointer sectors read_bytes first_cluster sector_offset data_offset w = do {
     _ \<leftarrow> usub (lba_size f) 1;
     aligned_buffer_size \<leftarrow> uadd (clear_low (sectors * bps f) (lba_size f)) (lba_size f);
     let pages = aligned_buffer_size div 2 ^ PAGE_SHIFT + 1;
     if data_offset \<noteq> 0 then do {
       (r, a) \<leftarrow> allocate_dma_pages pages 0 (fs_heap w);
       let w = w\<lparr>fs_heap := a\<rparr>;
       (case r of
          Inl e \<Rightarrow> Some (Inl (), w)
        | Inr buffer \<Rightarrow> do {
            s \<leftarrow> cluster_to_sector f first_cluster;
            sector \<leftarrow> in_u32 (s + sector_offset);
            (r, w) \<leftarrow> read_sectors blk f buffer sector sectors w;
            if r = Inl () then do { w \<leftarrow> release_pages buffer pages w; Some (Inl (), w) }
            else do {
              _ \<leftarrow> assert_that (buffer_pointer = 0);
              source \<leftarrow> uadd buffer data_offset;
              let w = w\<lparr>fs_mem := put_bytes buffer_address (get_bytes (fs_mem w) source read_bytes) (fs_mem w)\<rparr>;
              w \<leftarrow> release_pages buffer pages w;
              Some (Inr (), w) } }) }
     else do {
       buffer \<leftarrow> uadd buffer_address buffer_pointer;
       s \<leftarrow> cluster_to_sector f first_cluster;
       sector \<leftarrow> in_u32 (s + sector_offset);
       read_sectors blk f buffer sector sectors w } }"

partial_function (option) read_loop ::
  "'d block_device \<Rightarrow> Fat32 \<Rightarrow> usize \<Rightarrow> usize \<Rightarrow> usize \<Rightarrow> usize \<Rightarrow> nat \<Rightarrow> 'd fsw \<Rightarrow> ((unit + usize) \<times> 'd fsw) option" where
  "read_loop blk f buffer_address len buffer_pointer data_offset first_cluster w = do {
     (r, w) \<leftarrow> read_run f len 0 0 (0, data_offset, data_offset) first_cluster w;
     (case r of
        Inl e \<Rightarrow> Some (Inl (), w)
      | Inr (sectors, read_bytes, sector_offset, data_offset, reading_cluster) \<Rightarrow> do {
          (r, w) \<leftarrow> read_part blk f buffer_address buffer_pointer sectors read_bytes first_cluster sector_offset data_offset w;
          if r = Inl () then Some (Inl (), w)
          else do {
            buffer_pointer \<leftarrow> uadd buffer_pointer read_bytes;
            if len = buffer_pointer then Some (Inr buffer_pointer, w)
            else
              (case get_next_cluster f reading_cluster w of
                 (None, w) \<Rightarrow> Some (Inl (), w)
               | (Some next_cluster, w) \<Rightarrow>
                   read_loop blk f buffer_address len buffer_pointer 0 next_cluster w) } }) }"

text \<open>A request is cut at the end of the file; \<open>None\<close> when it starts behind it.\<close>

definition clip_length :: "FileInfo \<Rightarrow> usize \<Rightarrow> usize \<Rightarrow> usize option option" where
  "clip_length fi offset len = do {
     e \<leftarrow> uadd offset len;
     Some (if unat (file_size fi) < e
           then if unat (file_size fi) \<le> offset then None else Some (unat (file_size fi) - offset)
           else Some len) }"

definition Fat32_read ::
  "'d block_device \<Rightarrow> Fat32 \<Rightarrow> FileInfo \<Rightarrow> usize \<Rightarrow> usize \<Rightarrow> usize \<Rightarrow> 'd fsw \<Rightarrow> ((unit + usize) \<times> FileInfo \<times> 'd fsw) option" where
  "Fat32_read blk f fi buffer_address offset len w = do {
     l \<leftarrow> clip_length fi offset len;
     (case l of
        None \<Rightarrow> Some (Inr 0, fi, w)
      | Some len \<Rightarrow> do {
          clusters_to_skip \<leftarrow> udiv offset (spc f * bps f);
          let data_offset = offset - clusters_to_skip * (spc f * bps f);
          let (reading_cluster, walk_start_index) = walk_start fi clusters_to_skip;
          let (r, fi, w) = walk_chain f [walk_start_index..<clusters_to_skip] reading_cluster fi w;
          (case r of
             Inl e \<Rightarrow> Some (Inl (), fi, w)
           | Inr reading_cluster \<Rightarrow> do {
               (r, w) \<leftarrow> read_loop blk f buffer_address len 0 data_offset reading_cluster w;
               Some (r, fi, w) }) }) }"

section \<open>Writing\<close>

partial_function (option) write_run ::
  "Fat32 \<Rightarrow> usize \<Rightarrow> nat \<Rightarrow> usize \<Rightarrow> nat \<times> usize \<times> usize \<Rightarrow> nat \<Rightarrow> 'd fsw \<Rightarrow>
   ((unit + nat \<times> usize \<times> nat \<times> usize \<times> nat) \<times> 'd fsw) option" where
  "write_run f len sectors write_bytes offsets writing_cluster w = do {
     rest \<leftarrow> usub len write_bytes;
     if rest < bps f then Some (Inl (), w)
     else do {
       (sector_offset, data_offset, data_offset_backup) \<leftarrow> skip_sectors f offsets;
       x \<leftarrow> uadd rest data_offset;
       if x \<le> spc f * bps f then do {
         q \<leftarrow> udiv (max x 1 - 1) (bps f);
         sectors \<leftarrow> in_u32 (sectors + (1 + q) mod 2 ^ 32);
         write_bytes \<leftarrow> uadd write_bytes rest;
         Some (Inr (sectors, write_bytes, sector_offset, data_offset_backup, writing_cluster), w) }
       else do {
         sectors \<leftarrow> in_u32 (sectors + spc f);
         y \<leftarrow> usub (spc f * bps f) data_offset;
         write_bytes \<leftarrow> uadd write_bytes y;
         (case get_next_cluster f writing_cluster w of
            (None, w) \<Rightarrow> Some (Inl (), w)
          | (Some next_cluster, w) \<Rightarrow> do {
              c \<leftarrow> in_u32 (writing_cluster + 1);
              if next_cluster \<noteq> c
              then Some (Inr (sectors, write_bytes, sector_offset, data_offset_backup, writing_cluster), w)
              else write_run f len sectors write_bytes (sector_offset, 0, data_offset_backup) next_cluster w }) } } }"

partial_function (option) write_loop ::
  "'d block_device \<Rightarrow> Fat32 \<Rightarrow> usize \<Rightarrow> usize \<Rightarrow> usize \<Rightarrow> usize \<Rightarrow> nat \<Rightarrow> 'd fsw \<Rightarrow> ((unit + usize) \<times> 'd fsw) option" where
  "write_loop blk f buffer_address len buffer_pointer data_offset first_cluster w = do {
     (r, w) \<leftarrow> write_run f len 0 0 (0, data_offset, data_offset) first_cluster w;
     (case r of
        Inl e \<Rightarrow> Some (Inl (), w)
      | Inr (sectors, write_bytes, sector_offset, data_offset, writing_cluster) \<Rightarrow>
          if data_offset \<noteq> 0 then Some (Inl (), w)
          else do {
            s \<leftarrow> cluster_to_sector f first_cluster;
            sector \<leftarrow> in_u32 (s + sector_offset);
            buffer \<leftarrow> uadd buffer_address buffer_pointer;
            (r, w) \<leftarrow> write_sectors blk f buffer sector sectors w;
            if r = Inl () then Some (Inl (), w)
            else do {
              buffer_pointer \<leftarrow> uadd buffer_pointer write_bytes;
              if len = buffer_pointer then Some (Inr buffer_pointer, w)
              else
                (case get_next_cluster f writing_cluster w of
                   (None, w) \<Rightarrow> Some (Inl (), w)
                 | (Some next_cluster, w) \<Rightarrow>
                     write_loop blk f buffer_address len buffer_pointer 0 next_cluster w) } }) }"

definition Fat32_write ::
  "'d block_device \<Rightarrow> Fat32 \<Rightarrow> FileInfo \<Rightarrow> usize \<Rightarrow> usize \<Rightarrow> usize \<Rightarrow> 'd fsw \<Rightarrow> ((unit + usize) \<times> FileInfo \<times> 'd fsw) option" where
  "Fat32_write blk f fi buffer_address offset len w = do {
     l \<leftarrow> clip_length fi offset len;
     (case l of
        None \<Rightarrow> Some (Inr 0, fi, w)
      | Some len \<Rightarrow> do {
          clusters_to_skip \<leftarrow> udiv offset (spc f * bps f);
          let data_offset = offset - clusters_to_skip * (spc f * bps f);
          let (writing_cluster, walk_start_index) = walk_start fi clusters_to_skip;
          let (r, fi, w) = walk_chain f [walk_start_index..<clusters_to_skip] writing_cluster fi w;
          (case r of
             Inl e \<Rightarrow> Some (Inl (), fi, w)
           | Inr writing_cluster \<Rightarrow> do {
               (r, w) \<leftarrow> write_loop blk f buffer_address len 0 data_offset writing_cluster w;
               Some (r, fi, w) }) }) }"

end
