(* ===== verification/Fat32_Proofs.thy ===== *)
theory Fat32_Proofs
  imports Fat32
begin

text \<open>
  What the FAT32 code computes: the chain of clusters of a file and the byte of the disk behind a
  position of the file are the specification; the walk with the hint finds the chain, and
  a transfer over an extent of adjacent clusters moves exactly the bytes of the file.
\<close>

section \<open>The chain of a file\<close>

fun chain :: "Fat32 \<Rightarrow> bmem \<Rightarrow> nat \<Rightarrow> nat \<Rightarrow> nat option" where
  "chain f m c 0 = Some c"
| "chain f m c (Suc k) = (case chain f m c k of None \<Rightarrow> None | Some c \<Rightarrow> fat_next f m c)"

definition cluster_of :: "Fat32 \<Rightarrow> bmem \<Rightarrow> FileInfo \<Rightarrow> nat \<Rightarrow> nat option" where
  "cluster_of f m fi k = chain f m (unat (entry_cluster fi)) k"

definition hint_ok :: "Fat32 \<Rightarrow> bmem \<Rightarrow> FileInfo \<Rightarrow> bool" where
  "hint_ok f m fi \<longleftrightarrow>
     (2 \<le> unat (ucast (walk_hint fi) :: u32) \<longrightarrow>
      cluster_of f m fi (unat (drop_bit 32 (walk_hint fi))) = Some (unat (ucast (walk_hint fi) :: u32)))"

lemma fat_next_range: "fat_next f m c = Some n \<Longrightarrow> 2 \<le> n \<and> n < 0x0FFFFFF8"
  by (auto simp: fat_next_def Let_def split: if_splits)

lemma hint_fields:
  assumes "i < 2 ^ 32" "c < 2 ^ 32"
  defines "h \<equiv> push_bit 32 (word_of_nat i) OR word_of_nat c :: u64"
  shows "unat (drop_bit 32 h) = i" "unat (ucast h :: u32) = c"
proof -
  have a: "drop_bit 32 h = word_of_nat i"
  proof (rule bit_word_eqI)
    fix n assume "n < LENGTH(64)"
    have "\<not> bit c (32 + n)" using assms(2) by (metis bit_take_bit_iff leD le_add1 take_bit_nat_eq_self)
    moreover have "n < 32" if "bit i n"
      using assms(1) that by (metis bit_take_bit_iff take_bit_nat_eq_self)
    ultimately show "bit (drop_bit 32 h) n = bit (word_of_nat i :: u64) n"
      unfolding h_def by (auto simp: bit_simps)
  qed
  have b: "(ucast h :: u32) = word_of_nat c"
    unfolding h_def by (rule bit_word_eqI) (auto simp: bit_simps)
  show "unat (drop_bit 32 h) = i" "unat (ucast h :: u32) = c"
    unfolding a b using assms(1,2) by (simp_all add: unat_of_nat)
qed

lemma hint_ok_update:
  assumes "cluster_of f m fi i = Some c" "i < 2 ^ 32" "c < 2 ^ 32"
  shows "hint_ok f m (update_walk_hint i c fi)"
  using assms(1) hint_fields [OF assms(2,3)]
  by (simp add: hint_ok_def update_walk_hint_def cluster_of_def)

lemma update_walk_hint_fields [simp]:
  "entry_cluster (update_walk_hint i c fi) = entry_cluster fi" "file_size (update_walk_hint i c fi) = file_size fi"
  "cluster_of f m (update_walk_hint i c fi) = cluster_of f m fi"
  by (simp_all add: update_walk_hint_def cluster_of_def fun_eq_iff)

lemma walk_start_chain:
  assumes "hint_ok f m fi" "walk_start fi k = (c, i)"
  shows "cluster_of f m fi i = Some c" "i \<le> k"
  using assms by (auto simp: walk_start_def hint_ok_def cluster_of_def Let_def split: if_splits)

definition same_but_steps :: "'d fsw \<Rightarrow> 'd fsw \<Rightarrow> bool" where
  "same_but_steps w w' \<longleftrightarrow> fs_mem w' = fs_mem w \<and> fs_dev w' = fs_dev w \<and> fs_heap w' = fs_heap w"

lemma same_but_steps_refl [simp]: "same_but_steps w w"
  by (simp add: same_but_steps_def)

lemma same_but_steps_bump [simp]: "same_but_steps w (bump_walk_steps w)"
  by (simp add: same_but_steps_def bump_walk_steps_def)

lemma same_but_steps_trans: "same_but_steps w w' \<Longrightarrow> same_but_steps w' w'' \<Longrightarrow> same_but_steps w w''"
  by (simp add: same_but_steps_def)

lemma chain_None: "cluster_of f m fi i = None \<Longrightarrow> i \<le> k \<Longrightarrow> cluster_of f m fi k = None"
proof (induction k)
  case (Suc k)
  then show ?case by (cases "i = Suc k") (auto simp: cluster_of_def)
qed auto

lemma walk_chain_correct:
  assumes "cluster_of f (fs_mem w) fi i = Some c" "i \<le> k" "k < 2 ^ 32" "hint_ok f (fs_mem w) fi"
  shows "\<exists>fi' w'. walk_chain f [i..<k] c fi w =
      (case cluster_of f (fs_mem w) fi k of None \<Rightarrow> Inl () | Some c \<Rightarrow> Inr c, fi', w') \<and>
    same_but_steps w w' \<and> hint_ok f (fs_mem w) fi' \<and> entry_cluster fi' = entry_cluster fi \<and> file_size fi' = file_size fi"
  using assms
proof (induction "k - i" arbitrary: i c fi w)
  case 0
  then show ?case by auto
next
  case (Suc n)
  then have up: "[i..<k] = i # [i + 1..<k]" by (simp add: upt_conv_Cons)
  have nx: "cluster_of f (fs_mem w) fi (i + 1) = fat_next f (fs_mem w) c"
    using Suc.prems(1) by (simp add: cluster_of_def)
  let ?w = "bump_walk_steps w"
  have m: "fs_mem ?w = fs_mem w" by (simp add: bump_walk_steps_def)
  show ?case
  proof (cases "fat_next f (fs_mem w) c")
    case None
    have "cluster_of f (fs_mem w) fi k = None"
      by (rule chain_None [of _ _ _ "i + 1"]) (use nx None Suc.hyps(2) in auto)
    then show ?thesis
      using None Suc.prems(4) unfolding up
      by (intro exI [of _ fi] exI [of _ ?w]) (simp add: get_next_cluster_def)
  next
    case (Some c')
    let ?fi = "update_walk_hint (i + 1) c' fi"
    have c': "c' < 2 ^ 32" using fat_next_range [OF Some] by simp
    have h: "hint_ok f (fs_mem ?w) ?fi"
      unfolding m by (rule hint_ok_update) (use nx Some c' Suc.hyps(2) Suc.prems(3) in auto)
    have "n = k - (i + 1)" "i + 1 \<le> k" using Suc.hyps(2) by simp_all
    from Suc.hyps(1) [OF this(1) _ this(2) Suc.prems(3) h, of c'] nx Some
    obtain fi' w' where r: "walk_chain f [i + 1..<k] c' ?fi ?w =
        (case cluster_of f (fs_mem w) fi k of None \<Rightarrow> Inl () | Some c \<Rightarrow> Inr c, fi', w')"
      "same_but_steps ?w w'" "hint_ok f (fs_mem w) fi'" "entry_cluster fi' = entry_cluster fi" "file_size fi' = file_size fi"
      by (auto simp: m)
    have "walk_chain f [i..<k] c fi w = (case cluster_of f (fs_mem w) fi k of None \<Rightarrow> Inl () | Some c \<Rightarrow> Inr c, fi', w')"
      unfolding up using Some r(1) by (simp add: get_next_cluster_def)
    then show ?thesis using r same_but_steps_trans [OF same_but_steps_bump r(2)] by blast
  qed
qed

lemma hinted_walk:
  assumes "hint_ok f (fs_mem w) fi" "k < 2 ^ 32" "walk_start fi k = (c, i)"
  shows "\<exists>fi' w'. walk_chain f [i..<k] c fi w =
      (case cluster_of f (fs_mem w) fi k of None \<Rightarrow> Inl () | Some c \<Rightarrow> Inr c, fi', w') \<and>
    same_but_steps w w' \<and> hint_ok f (fs_mem w) fi' \<and> entry_cluster fi' = entry_cluster fi \<and> file_size fi' = file_size fi"
  using walk_chain_correct [OF walk_start_chain [OF assms(1,3)] assms(2,1)] .

section \<open>Extents\<close>

abbreviation bpc :: "Fat32 \<Rightarrow> nat" where
  "bpc f \<equiv> spc f * bps f"

definition sector_of :: "Fat32 \<Rightarrow> nat \<Rightarrow> nat" where
  "sector_of f c = unat (reserved_sectors f) + unat (number_of_fats f) * unat (fat_sectors f) + (c - 2) * spc f"

text \<open>Where on the disk a byte of the file is.\<close>

definition file_address :: "Fat32 \<Rightarrow> bmem \<Rightarrow> FileInfo \<Rightarrow> nat \<Rightarrow> nat" where
  "file_address f m fi x =
     (case cluster_of f m fi (x div bpc f) of
        None \<Rightarrow> 0
      | Some c \<Rightarrow> base_lba f * lba_size f + sector_of f c * bps f + x mod bpc f)"

definition fat32_ok :: "Fat32 \<Rightarrow> bool" where
  "fat32_ok f \<longleftrightarrow> 0 < bps f \<and> 0 < spc f \<and> (\<exists>l \<le> 20. lba_size f = 2 ^ l) \<and> base_lba f * lba_size f < 2 ^ 62"

text \<open>The bytes from \<open>offset\<close> on lie in clusters that are adjacent on the disk.\<close>

definition extent :: "Fat32 \<Rightarrow> bmem \<Rightarrow> FileInfo \<Rightarrow> nat \<Rightarrow> nat \<Rightarrow> bool" where
  "extent f m fi offset n \<longleftrightarrow>
     (\<exists>c \<ge> 2. (\<forall>k \<le> (offset mod bpc f + n - 1) div bpc f. cluster_of f m fi (offset div bpc f + k) = Some (c + k)) \<and>
        sector_of f (c + (offset mod bpc f + n - 1) div bpc f) + spc f \<le> 2 ^ 32)"

definition nsec :: "Fat32 \<Rightarrow> nat \<Rightarrow> nat" where
  "nsec f x = 1 + (max x 1 - 1) div bps f"

lemma skip_sectors_small: "d \<le> bps f \<Longrightarrow> skip_sectors f (so, d, bk) = Some (so, d, bk)"
  by (simp add: skip_sectors_def)

lemma skip_sectors_correct:
  assumes "0 < bps f" "d < 2 ^ 32"
  shows "\<exists>so d'. skip_sectors f (0, d, d) = Some (so, d', d') \<and> d = so * bps f + d' \<and> d' \<le> bps f \<and> (bps f dvd d \<longrightarrow> d \<noteq> bps f \<longrightarrow> d' = 0)"
proof (cases "bps f < d")
  case True
  have q: "d div bps f < 2 ^ 32" using assms(2) div_le_dividend order_le_less_trans by blast
  have "d div bps f * bps f \<le> d" by simp
  then have "skip_sectors f (0, d, d) = Some (d div bps f, d mod bps f, d mod bps f)"
    using True q assms(1) by (simp add: skip_sectors_def udiv_def usub_def minus_div_mult_eq_mod)
  moreover have "d mod bps f \<le> bps f" using assms(1) by (simp add: less_imp_le)
  ultimately show ?thesis by (intro exI [of _ "d div bps f"] exI [of _ "d mod bps f"]) auto
next
  case False
  then have "bps f dvd d \<Longrightarrow> d = 0 \<or> d = bps f" using assms(1) by (auto dest: dvd_imp_le)
  with False show ?thesis
    by (intro exI [of _ 0] exI [of _ d]) (auto simp: skip_sectors_small)
qed

lemma nsec_step: "0 < bps f \<Longrightarrow> bpc f < x \<Longrightarrow> nsec f x = spc f + nsec f (x - bpc f)"
proof -
  assume "0 < bps f" "bpc f < x"
  then have "x - 1 = (x - bpc f - 1) + bpc f" by simp
  then have "(x - 1) div bps f = (x - bpc f - 1) div bps f + spc f" using \<open>0 < bps f\<close> by simp
  then show ?thesis using \<open>bpc f < x\<close> by (cases "x = 1") (auto simp: nsec_def max_def)
qed

lemma nsec_covers: "0 < bps f \<Longrightarrow> x \<le> nsec f x * bps f"
proof -
  assume b: "0 < bps f"
  have "x - 1 < ((x - 1) div bps f + 1) * bps f" using dividend_less_div_times [OF b, of "x - 1"] by (simp add: algebra_simps)
  then show ?thesis by (cases x) (auto simp: nsec_def max_def split: if_splits)
qed

lemma nsec_exact: "0 < bps f \<Longrightarrow> 0 < x \<Longrightarrow> bps f dvd x \<Longrightarrow> nsec f x * bps f = x"
proof -
  assume a: "0 < bps f" "0 < x" "bps f dvd x"
  then obtain q where q: "x = q * bps f" "0 < q" by (auto simp: dvd_def mult.commute)
  have "(q * bps f - 1) div bps f = q - 1"
  proof (rule div_nat_eqI)
    show "bps f * (q - 1) \<le> q * bps f - 1" using q a(1) by (cases q) (simp_all add: mult.commute)
    show "q * bps f - 1 < bps f * Suc (q - 1)" using q a(1) by (cases q) (simp_all add: mult.commute)
  qed
  moreover have "max x 1 - 1 = q * bps f - 1" using a(2) q(1) by (simp add: max_def)
  ultimately have "nsec f x = q" using q(2) by (simp add: nsec_def)
  then show ?thesis using q(1) by simp
qed

lemma nsec_le: "0 < x \<Longrightarrow> nsec f x \<le> x"
  using div_le_dividend [of "x - 1" "bps f"] by (cases x) (auto simp: nsec_def max_def)

lemma nsec_pos [simp]: "0 < nsec f x"
  by (simp add: nsec_def)

lemma read_run_correct:
  assumes "0 < bps f" "0 < spc f" "d \<le> bps f" "d < bpc f" "rb \<le> len" "len < 2 ^ 32" "s + nsec f (len - rb + d) < 2 ^ 32"
    and "\<And>j. j < (len - rb + d - 1) div bpc f \<Longrightarrow> fat_next f (fs_mem w) (c + j) = Some (c + j + 1)"
  shows "\<exists>c' w'. read_run f len s rb (so, d, bk) c w = Some (Inr (s + nsec f (len - rb + d), len, so, bk, c'), w') \<and> same_but_steps w w'"
  using assms(3-)
proof (induction "len - rb + d" arbitrary: s rb d c w rule: less_induct)
  case less
  let ?x = "len - rb + d"
  have pos: "0 < bpc f" using assms(1,2) by simp
  have sk: "skip_sectors f (so, d, bk) = Some (so, d, bk)" using less.prems(1) by (rule skip_sectors_small)
  have b16: "bps f < 2 ^ 16" using unsigned_less [of "bytes_per_sector f"] by simp
  have x: "uadd (len - rb) d = Some ?x" using less.prems(1,4) b16 by (simp add: uadd_def usize_limit_def)
  show ?case
  proof (cases "?x \<le> bpc f")
    case True
    have q: "1 + (max ?x 1 - 1) div bps f < 2 ^ 32" using less.prems(5) by (simp add: nsec_def)
    have "in_u32 (s + (1 + (max ?x 1 - 1) div bps f) mod 2 ^ 32) = Some (s + nsec f ?x)"
      using less.prems(5) q by (simp add: in_u32_def nsec_def)
    then have "read_run f len s rb (so, d, bk) c w = Some (Inr (s + nsec f ?x, len, so, bk, c), w)"
      using True sk x less.prems(3,4) assms(1)
      by (subst read_run.simps) (simp add: usub_def udiv_def uadd_def usize_limit_def)
    then show ?thesis by auto
  next
    case False
    let ?rb = "rb + (bpc f - d)" and ?w = "bump_walk_steps w"
    have lt: "len - ?rb + 0 = ?x - bpc f" "?rb \<le> len" using False less.prems(2,3) by simp_all
    have ns: "nsec f ?x = spc f + nsec f (?x - bpc f)" using nsec_step [OF assms(1)] False by simp
    have dv: "(?x - 1) div bpc f = Suc ((?x - bpc f - 1) div bpc f)"
    proof -
      have "?x - 1 = (?x - bpc f - 1) + bpc f" using False by simp
      then show ?thesis using pos by (metis Suc_eq_plus1 div_add_self2 less_numeral_extra(3))
    qed
    have nx: "fat_next f (fs_mem w) c = Some (c + 1)" using less.prems(6) [of 0] dv by simp
    have m: "fs_mem ?w = fs_mem w" by (simp add: bump_walk_steps_def)
    have c1: "in_u32 (c + 1) = Some (c + 1)" using fat_next_range [OF nx] by (simp add: in_u32_def)
    have "s + spc f + nsec f (len - ?rb + 0) < 2 ^ 32" unfolding lt(1) using less.prems(5) ns by simp
    moreover have "fat_next f (fs_mem ?w) (c + 1 + j) = Some (c + 1 + j + 1)" if "j < (len - ?rb + 0 - 1) div bpc f" for j
      using less.prems(6) [of "Suc j"] dv m that [unfolded lt(1)] by simp
    moreover have "len - ?rb + 0 < ?x" unfolding lt(1) using False pos by (intro diff_less) auto
    ultimately obtain c' w' where r: "read_run f len (s + spc f) ?rb (so, 0, bk) (c + 1) ?w =
        Some (Inr (s + spc f + nsec f (len - ?rb + 0), len, so, bk, c'), w')" "same_but_steps ?w w'"
      using less.hyps [of ?rb 0 "s + spc f" ?w "c + 1"] lt(2) pos less.prems(4) by blast
    have "read_run f len s rb (so, d, bk) c w = Some (Inr (s + nsec f ?x, len, so, bk, c'), w')"
      using False sk x less.prems(2-5) assms(1) nx c1 r(1) lt ns
      by (subst read_run.simps) (simp add: usub_def uadd_def usize_limit_def in_u32_def get_next_cluster_def)
    then show ?thesis using same_but_steps_trans [OF same_but_steps_bump r(2)] by blast
  qed
qed

section \<open>Transfers\<close>

text \<open>What a driver promises: a successful read copies the bytes of the disk to the buffer, a
  successful write the other way round; a failed one may leave anything in its own target
  only.\<close>

definition block_device_ok :: "'d block_device \<Rightarrow> ('d \<Rightarrow> nat \<Rightarrow> u8) \<Rightarrow> bool" where
  "block_device_ok blk contents \<longleftrightarrow>
     (\<forall>buf a n d m. \<exists>r d' m'. blk_read blk buf a n (d, m) = Some (r, d', m') \<and> contents d' = contents d \<and>
        (\<forall>p. p < buf \<or> buf + n \<le> p \<longrightarrow> m' p = m p) \<and> (r = Inr () \<longrightarrow> (\<forall>i < n. m' (buf + i) = contents d (a + i)))) \<and>
     (\<forall>buf a n d m. \<exists>r d'. blk_write blk buf a n (d, m) = Some (r, d', m) \<and>
        (\<forall>p. p < a \<or> a + n \<le> p \<longrightarrow> contents d' p = contents d p) \<and> (r = Inr () \<longrightarrow> (\<forall>i < n. contents d' (a + i) = m (buf + i))))"

definition never_fails :: "'d block_device \<Rightarrow> bool" where
  "never_fails blk \<longleftrightarrow> (\<forall>buf a n s r s'. blk_read blk buf a n s = Some (r, s') \<or> blk_write blk buf a n s = Some (r, s') \<longrightarrow> r = Inr ())"

lemma block_read_ok:
  assumes "block_device_ok blk contents"
  shows "\<exists>r d' m'. blk_read blk buf a n (d, m) = Some (r, d', m') \<and> contents d' = contents d \<and>
    (\<forall>p. p < buf \<or> buf + n \<le> p \<longrightarrow> m' p = m p) \<and> (r = Inr () \<longrightarrow> (\<forall>i < n. m' (buf + i) = contents d (a + i)))"
  using assms [unfolded block_device_ok_def, THEN conjunct1] by (elim allE)

lemma block_write_ok:
  assumes "block_device_ok blk contents"
  shows "\<exists>r d'. blk_write blk buf a n (d, m) = Some (r, d', m) \<and>
    (\<forall>p. p < a \<or> a + n \<le> p \<longrightarrow> contents d' p = contents d p) \<and> (r = Inr () \<longrightarrow> (\<forall>i < n. contents d' (a + i) = m (buf + i)))"
  using assms [unfolded block_device_ok_def, THEN conjunct2] by (elim allE)

lemma bps_le: "bps f \<le> 2 ^ 16"
proof -
  have "bps f < 2 ^ 16" using unsigned_less [of "bytes_per_sector f"] by simp
  then show ?thesis by simp
qed

lemma cluster_to_sector_correct:
  assumes "2 \<le> c" "sector_of f c < 2 ^ 32"
  shows "cluster_to_sector f c = Some (sector_of f c)"
  using assms by (simp add: cluster_to_sector_def sector_of_def in_u32_def usub_def)

lemma sector_address_correct:
  assumes "fat32_ok f" "s < 2 ^ 32"
  shows "sector_address f s = Some (base_lba f * lba_size f + s * bps f)"
proof -
  have "s * bps f \<le> 2 ^ 32 * 2 ^ 16"
    using assms(2) bps_le by (intro mult_le_mono) auto
  then show ?thesis using assms(1)
    by (simp add: sector_address_def umul_def uadd_def usize_limit_def fat32_ok_def)
qed

lemma read_sectors_correct:
  assumes "block_device_ok blk contents" "fat32_ok f" "s < 2 ^ 32"
  shows "\<exists>r w'. read_sectors blk f buf s n w = Some (r, w') \<and> contents (fs_dev w') = contents (fs_dev w) \<and> fs_heap w' = fs_heap w \<and>
    (\<forall>p. p < buf \<or> buf + n * bps f \<le> p \<longrightarrow> fs_mem w' p = fs_mem w p) \<and>
    (r = Inr () \<longrightarrow> (\<forall>i < n * bps f. fs_mem w' (buf + i) = contents (fs_dev w) (base_lba f * lba_size f + s * bps f + i))) \<and>
    (never_fails blk \<longrightarrow> r = Inr ())"
proof -
  let ?a = "base_lba f * lba_size f + s * bps f"
  obtain r d m where r: "blk_read blk buf ?a (n * bps f) (fs_dev w, fs_mem w) = Some (r, d, m)" "contents d = contents (fs_dev w)"
    "\<forall>p. p < buf \<or> buf + n * bps f \<le> p \<longrightarrow> m p = fs_mem w p"
    "r = Inr () \<longrightarrow> (\<forall>i < n * bps f. m (buf + i) = contents (fs_dev w) (?a + i))"
    using block_read_ok [OF assms(1), of buf ?a "n * bps f" "fs_dev w" "fs_mem w"] by blast
  have "never_fails blk \<longrightarrow> r = Inr ()" using r(1) unfolding never_fails_def by blast
  with r show ?thesis
    by (intro exI [of _ r] exI [of _ "w\<lparr>fs_dev := d, fs_mem := m\<rparr>"])
      (simp add: read_sectors_def sector_address_correct [OF assms(2,3)])
qed

lemma aligned_size:
  assumes "fat32_ok f" "n < 2 ^ 62"
  shows "\<exists>s. uadd (clear_low n (lba_size f)) (lba_size f) = Some s \<and> n < s \<and> s \<le> n + 2 ^ 20" "usub (lba_size f) 1 = Some (lba_size f - 1)"
proof -
  obtain l where l: "l \<le> 20" "lba_size f = 2 ^ l" using assms(1) by (auto simp: fat32_ok_def)
  have p: "(2 :: nat) ^ l \<le> 2 ^ 20" using l(1) by (rule power_increasing) simp
  have c: "clear_low n (2 ^ l) = n div 2 ^ l * 2 ^ l" by (rule clear_low_power2) (use assms(2) l(1) in auto)
  define q where "q = n div 2 ^ l * 2 ^ l"
  have "n < q + 2 ^ l" using dividend_less_div_times [of "2 ^ l" n] by (simp add: q_def)
  moreover have "q \<le> n" by (simp add: q_def)
  ultimately show "\<exists>s. uadd (clear_low n (lba_size f)) (lba_size f) = Some s \<and> n < s \<and> s \<le> n + 2 ^ 20"
    using p assms(2) unfolding l(2) c q_def [symmetric] by (simp add: uadd_def usize_limit_def)
  show "usub (lba_size f) 1 = Some (lba_size f - 1)" by (simp add: l(2) usub_def)
qed

lemma bounce_buffer:
  assumes "low_inv a" "n < 2 ^ 60"
  defines "pages \<equiv> n div 2 ^ PAGE_SHIFT + 1"
  shows "\<exists>r a'. allocate_dma_pages pages 0 a = Some (r, a') \<and>
    (case r of Inl e \<Rightarrow> a' = a
     | Inr x \<Rightarrow> {x..<x + n} \<subseteq> free_set a \<and> x + n < 2 ^ 33 \<and> (\<exists>a''. free_pages x pages a' = Some a'' \<and> low_inv a''))"
proof -
  let ?n = "pages * 4096"
  have pb: "pages_to_bytes pages = ?n" using assms(2) by (simp add: pages_to_bytes_def PAGE_SHIFT_def usize_limit_def pages_def)
  have n: "0 < ?n" "n \<le> ?n" using dividend_less_div_times [of 4096 n] by (simp_all add: pages_def PAGE_SHIFT_def)
  have "0 < DMA_ADDRESS_LIMIT" by (simp add: DMA_ADDRESS_LIMIT_def)
  from allocate_below_keeps [OF assms(1) _ this, of 0 ?n] obtain r a' where
    r: "allocate_dma_pages pages 0 a = Some (r, a')" "allocated a ?n 0 DMA_ADDRESS_LIMIT r a'" "low_inv a'"
    by (auto simp: allocate_dma_pages_def allocate_below_def pb)
  show ?thesis
  proof (cases r)
    case (Inl e)
    then show ?thesis using r by (intro exI [of _ r] exI [of _ a']) (simp add: allocated_def)
  next
    case (Inr x)
    then have x: "{x..<x + ?n} \<subseteq> free_set a" "x + ?n \<le> 2 ^ 32" "free_set a' = free_set a - {x..<x + ?n}"
      using r(2) by (simp_all add: allocated_def DMA_ADDRESS_LIMIT_def)
    have "x + ?n \<le> 2 ^ 63" "{x..<x + ?n} \<inter> free_set a' = {}" using x(2,3) by simp_all
    from free_keeps [OF r(3) n(1) this] obtain q a'' where "free x ?n a' = Some (q, a'')" "low_inv a''" by blast
    then have "free_pages x pages a' = Some a''" by (simp add: free_pages_def pb)
    moreover have "{x..<x + n} \<subseteq> free_set a" by (rule order_trans [OF _ x(1)]) (use n(2) in simp)
    ultimately show ?thesis using r(1) Inr x(1,2) n(2) \<open>low_inv a''\<close> by (intro exI [of _ r] exI [of _ a']) simp
  qed
qed

lemma read_part_correct:
  assumes blk: "block_device_ok blk contents" and f: "fat32_ok f" and c: "2 \<le> c" "sector_of f c + so < 2 ^ 32"
    and h: "low_inv (fs_heap w)" and n: "d + rb \<le> n * bps f" "n < 2 ^ 32" "buf < usize_limit"
  shows "\<exists>r w'. read_part blk f buf 0 n rb c so d w = Some (r, w') \<and> contents (fs_dev w') = contents (fs_dev w) \<and> low_inv (fs_heap w') \<and>
    (\<forall>p. p \<notin> {buf..<buf + n * bps f} \<union> free_set (fs_heap w) \<longrightarrow> fs_mem w' p = fs_mem w p) \<and>
    (r = Inr () \<longrightarrow> (\<forall>i < rb. fs_mem w' (buf + i) = contents (fs_dev w) (base_lba f * lba_size f + (sector_of f c + so) * bps f + d + i))) \<and>
    (never_fails blk \<longrightarrow> d = 0 \<longrightarrow> r = Inr ())"
proof -
  let ?a = "base_lba f * lba_size f + (sector_of f c + so) * bps f"
  have nb: "n * bps f \<le> 2 ^ 32 * 2 ^ 16"
    using n(2) bps_le by (intro mult_le_mono) auto
  then obtain s where s: "uadd (clear_low (n * bps f) (lba_size f)) (lba_size f) = Some s" "n * bps f < s" "s \<le> n * bps f + 2 ^ 20"
    and l: "usub (lba_size f) 1 = Some (lba_size f - 1)" using aligned_size [OF f, of "n * bps f"] by auto
  have cs: "cluster_to_sector f c = Some (sector_of f c)" "in_u32 (sector_of f c + so) = Some (sector_of f c + so)"
    using cluster_to_sector_correct [OF c(1)] c(2) by (simp_all add: in_u32_def)
  note rs = read_sectors_correct [OF blk f c(2)]
  show ?thesis
  proof (cases "d = 0")
    case True
    obtain r w' where r: "read_sectors blk f buf (sector_of f c + so) n w = Some (r, w')" "contents (fs_dev w') = contents (fs_dev w)"
      "fs_heap w' = fs_heap w" "\<forall>p. p < buf \<or> buf + n * bps f \<le> p \<longrightarrow> fs_mem w' p = fs_mem w p"
      "r = Inr () \<longrightarrow> (\<forall>i < n * bps f. fs_mem w' (buf + i) = contents (fs_dev w) (?a + i))" "never_fails blk \<longrightarrow> r = Inr ()"
      using rs [of buf n w] by blast
    then have "read_part blk f buf 0 n rb c so d w = Some (r, w')"
      using True s(1) l cs n(3) by (simp add: read_part_def uadd_def)
    moreover have "fs_mem w' p = fs_mem w p" if "p \<notin> {buf..<buf + n * bps f} \<union> free_set (fs_heap w)" for p
    proof -
      have "p < buf \<or> buf + n * bps f \<le> p" using that by (simp add: not_less) linarith
      then show ?thesis using r(4) by blast
    qed
    ultimately show ?thesis using r h n(1) True by (intro exI [of _ r] exI [of _ w']) simp
  next
    case False
    let ?pages = "s div 2 ^ PAGE_SHIFT + 1"
    have "s < 2 ^ 60" using s(3) nb by simp
    from bounce_buffer [OF h this] obtain r a where r: "allocate_dma_pages ?pages 0 (fs_heap w) = Some (r, a)"
      "case r of Inl e \<Rightarrow> a = fs_heap w
       | Inr x \<Rightarrow> {x..<x + s} \<subseteq> free_set (fs_heap w) \<and> x + s < 2 ^ 33 \<and> (\<exists>a''. free_pages x ?pages a = Some a'' \<and> low_inv a'')"
      by blast
    show ?thesis
    proof (cases r)
      case (Inl e)
      then have "read_part blk f buf 0 n rb c so d w = Some (Inl (), w\<lparr>fs_heap := a\<rparr>)"
        using False s(1) l r(1) by (simp add: read_part_def)
      then show ?thesis using False Inl r(2) h by (intro exI [of _ "Inl ()"] exI [of _ "w\<lparr>fs_heap := a\<rparr>"]) simp
    next
      case (Inr x)
      then obtain a'' where x: "{x..<x + s} \<subseteq> free_set (fs_heap w)" "x + s < 2 ^ 33"
        and a'': "free_pages x ?pages a = Some a''" "low_inv a''" using r(2) by simp blast
      let ?w = "w\<lparr>fs_heap := a\<rparr>"
      have fw: "fs_dev ?w = fs_dev w" "fs_mem ?w = fs_mem w" "fs_heap ?w = a" by simp_all
      obtain q w1 where q: "read_sectors blk f x (sector_of f c + so) n ?w = Some (q, w1)" "contents (fs_dev w1) = contents (fs_dev w)"
        "fs_heap w1 = a" "\<forall>p. p < x \<or> x + n * bps f \<le> p \<longrightarrow> fs_mem w1 p = fs_mem w p"
        "q = Inr () \<longrightarrow> (\<forall>i < n * bps f. fs_mem w1 (x + i) = contents (fs_dev w) (?a + i))"
        using rs [of x n ?w] unfolding fw by blast
      have rel: "release_pages x ?pages (w1\<lparr>fs_mem := m\<rparr>) = Some (w1\<lparr>fs_mem := m, fs_heap := a''\<rparr>)" for m
        using a''(1) q(3) by (simp add: release_pages_def)
      have rel0: "release_pages x ?pages w1 = Some (w1\<lparr>fs_heap := a''\<rparr>)"
        using a''(1) q(3) by (simp add: release_pages_def)
      have fr: "fs_mem w1 p = fs_mem w p" if "p \<notin> free_set (fs_heap w)" for p
      proof -
        have "p \<notin> {x..<x + s}" using that x(1) by blast
        then have "p < x \<or> x + n * bps f \<le> p" using s(2) by (simp add: not_less) linarith
        then show ?thesis using q(4) by blast
      qed
      show ?thesis
      proof (cases "q = Inl ()")
        case True
        then have "read_part blk f buf 0 n rb c so d w = Some (Inl (), w1\<lparr>fs_heap := a''\<rparr>)"
          using False s(1) l r(1) Inr cs q(1) rel0 by (simp add: read_part_def)
        then show ?thesis using False q(2) a''(2) fr by (intro exI [of _ "Inl ()"] exI [of _ "w1\<lparr>fs_heap := a''\<rparr>"]) simp
      next
        case q': False
        then have qr: "q = Inr ()" by (cases q) auto
        have sd: "uadd x d = Some (x + d)" using x(2) n(1) s(2) by (simp add: uadd_def usize_limit_def)
        let ?m = "put_bytes buf (get_bytes (fs_mem w1) (x + d) rb) (fs_mem w1)"
        have "read_part blk f buf 0 n rb c so d w = Some (Inr (), w1\<lparr>fs_mem := ?m, fs_heap := a''\<rparr>)"
          using False s(1) l r(1) Inr cs q(1) qr rel sd by (simp add: read_part_def assert_that_def)
        moreover have "?m p = fs_mem w p" if "p \<notin> {buf..<buf + n * bps f} \<union> free_set (fs_heap w)" for p
        proof -
          have "p < buf \<or> buf + rb \<le> p" using that n(1) by (simp add: not_less) linarith
          then have "?m p = fs_mem w1 p" by (intro put_bytes_other) simp
          then show ?thesis using fr that by simp
        qed
        moreover have "?m (buf + i) = contents (fs_dev w) (?a + d + i)" if "i < rb" for i
        proof -
          have "?m (buf + i) = fs_mem w1 (x + d + i)" using that by (simp add: put_bytes_def)
          then show ?thesis using q(5) [THEN mp, OF qr, rule_format, of "d + i"] that n(1) by (simp add: add.assoc)
        qed
        ultimately show ?thesis using False q(2) a''(2)
          by (intro exI [of _ "Inr ()"] exI [of _ "w1\<lparr>fs_mem := ?m, fs_heap := a''\<rparr>"]) simp
      qed
    qed
  qed
qed

section \<open>Reading an extent\<close>

lemma sector_of_add: "2 \<le> c \<Longrightarrow> sector_of f (c + k) = sector_of f c + k * spc f"
  by (auto simp: sector_of_def le_iff_add add_mult_distrib)

lemma nsec_upper: "nsec f x * bps f \<le> x + bps f"
proof -
  have "(max x 1 - 1) div bps f * bps f \<le> max x 1 - 1" by simp
  also have "\<dots> \<le> x" by (simp add: max_def)
  finally show ?thesis by (simp add: nsec_def add_mult_distrib)
qed

lemma extentE:
  assumes "extent f m fi offset n" "0 < bpc f"
  obtains c where "2 \<le> c" "cluster_of f m fi (offset div bpc f) = Some c"
    "\<And>j. j < (offset mod bpc f + n - 1) div bpc f \<Longrightarrow> fat_next f m (c + j) = Some (c + j + 1)"
    "sector_of f c + spc f \<le> 2 ^ 32"
    "\<And>i. i < n \<Longrightarrow> file_address f m fi (offset + i) = base_lba f * lba_size f + sector_of f c * bps f + offset mod bpc f + i"
proof -
  let ?d = "offset mod bpc f" and ?q = "offset div bpc f"
  let ?K = "(?d + n - 1) div bpc f"
  obtain c where c: "2 \<le> c" "\<forall>k \<le> ?K. cluster_of f m fi (?q + k) = Some (c + k)" "sector_of f (c + ?K) + spc f \<le> 2 ^ 32"
    using assms(1) unfolding extent_def by blast
  show thesis
  proof (rule that [OF c(1)])
    show "cluster_of f m fi ?q = Some c" using c(2) [rule_format, of 0] by simp
    show "fat_next f m (c + j) = Some (c + j + 1)" if "j < ?K" for j
      using c(2) [rule_format, of j] c(2) [rule_format, of "Suc j"] that by (simp add: cluster_of_def)
    show "sector_of f c + spc f \<le> 2 ^ 32" using c(3) sector_of_add [OF c(1), of f ?K] by linarith
    fix i assume i: "i < n"
    let ?k = "(?d + i) div bpc f"
    have "offset + i = ?q * bpc f + (?d + i)" by (simp only: div_mult_mod_eq add.assoc [symmetric])
    then have dm: "(offset + i) div bpc f = ?q + ?k" "(offset + i) mod bpc f = (?d + i) mod bpc f"
      using assms(2) by (metis add.commute div_mult_self1 less_numeral_extra(3), metis mod_mult_self3)
    have "?k \<le> ?K" using i by (intro div_le_mono) simp
    then have "cluster_of f m fi (?q + ?k) = Some (c + ?k)" using c(2) by blast
    moreover have "?k * spc f * bps f + (?d + i) mod bpc f = ?d + i"
      using div_mult_mod_eq [of "?d + i" "bpc f"] by (simp only: mult.assoc)
    ultimately show "file_address f m fi (offset + i) = base_lba f * lba_size f + sector_of f c * bps f + ?d + i"
      unfolding file_address_def dm by (simp add: sector_of_add [OF c(1)] add_mult_distrib)
  qed
qed

lemma skipped_run:
  assumes "skip_sectors f (0, d, d) = Some (so, d', d')" "d' \<le> bps f"
  shows "read_run f len s rb (0, d, d) c w = read_run f len s rb (so, d', d') c w"
  using assms by (subst read_run.simps, subst (2) read_run.simps) (simp add: skip_sectors_small)

lemma read_loop_extent:
  assumes blk: "block_device_ok blk contents" and f: "fat32_ok f" and e: "extent f (fs_mem w) fi offset n"
    and c: "cluster_of f (fs_mem w) fi (offset div bpc f) = Some c"
    and h: "low_inv (fs_heap w)" and n: "offset + n < 2 ^ 32" "buf + n + 2 ^ 17 < usize_limit"
  shows "\<exists>r w'. read_loop blk f buf n 0 (offset mod bpc f) c w = Some (r, w') \<and> contents (fs_dev w') = contents (fs_dev w) \<and> low_inv (fs_heap w') \<and>
    (\<forall>p. p \<notin> {buf..<buf + n + 2 * bps f} \<union> free_set (fs_heap w) \<longrightarrow> fs_mem w' p = fs_mem w p) \<and>
    (r = Inl () \<or> r = Inr n \<and> (\<forall>i < n. fs_mem w' (buf + i) = contents (fs_dev w) (file_address f (fs_mem w) fi (offset + i)))) \<and>
    (never_fails blk \<longrightarrow> bps f dvd offset mod bpc f \<longrightarrow> offset mod bpc f \<noteq> bps f \<longrightarrow> r = Inr n)"
proof -
  let ?d = "offset mod bpc f"
  have pos: "0 < bps f" "0 < spc f" "0 < bpc f" using f by (simp_all add: fat32_ok_def)
  obtain c0 where "2 \<le> c0" "cluster_of f (fs_mem w) fi (offset div bpc f) = Some c0"
    and nx: "\<And>j. j < (?d + n - 1) div bpc f \<Longrightarrow> fat_next f (fs_mem w) (c0 + j) = Some (c0 + j + 1)"
    and s: "sector_of f c0 + spc f \<le> 2 ^ 32"
    and ad: "\<And>i. i < n \<Longrightarrow> file_address f (fs_mem w) fi (offset + i) = base_lba f * lba_size f + sector_of f c0 * bps f + ?d + i"
    using extentE [OF e pos(3)] by blast
  with c have c0: "c0 = c" "2 \<le> c" by auto
  have d: "?d < bpc f" "?d \<le> offset" using pos(3) by auto
  have d32: "?d < 2 ^ 32" using d(2) n(1) by linarith
  obtain so d' where sk: "skip_sectors f (0, ?d, ?d) = Some (so, d', d')" "?d = so * bps f + d'" "d' \<le> bps f"
    "bps f dvd ?d \<longrightarrow> ?d \<noteq> bps f \<longrightarrow> d' = 0"
    using skip_sectors_correct [OF pos(1) d32] by blast
  have d': "d' \<le> ?d" using sk(2) by simp
  let ?S = "nsec f (n - 0 + d')"
  have S: "?S < 2 ^ 32"
  proof (cases "n + d' = 0")
    case False
    then have "nsec f (n + d') \<le> n + d'" by (intro nsec_le) simp
    moreover have "n + d' < 2 ^ 32" using d' d(2) n(1) by linarith
    ultimately show ?thesis by simp
  qed (simp add: nsec_def)
  have so: "so < spc f"
  proof (rule ccontr)
    assume "\<not> so < spc f"
    then have "spc f * bps f \<le> so * bps f" by (intro mult_le_mono1) simp
    then show False using d(1) sk(2) by linarith
  qed
  have nx': "fat_next f (fs_mem w) (c + j) = Some (c + j + 1)" if "j < (n - 0 + d' - 1) div bpc f" for j
  proof -
    have "(n - 0 + d' - 1) div bpc f \<le> (?d + n - 1) div bpc f" using d' by (intro div_le_mono) linarith
    then have "j < (?d + n - 1) div bpc f" using that by (rule order.strict_trans2 [rotated])
    from nx [OF this] show ?thesis unfolding c0(1) .
  qed
  have "d' < bpc f" "0 \<le> n" "n < 2 ^ 32" "0 + ?S < 2 ^ 32" using d(1) d' n(1) S by simp_all
  from read_run_correct [OF pos(1,2) sk(3) this nx', of so d'] obtain c' w1 where
    w1: "read_run f n 0 0 (so, d', d') c w = Some (Inr (?S, n, so, d', c'), w1)" "same_but_steps w w1" by auto
  have rr: "read_run f n 0 0 (0, ?d, ?d) c w = Some (Inr (?S, n, so, d', c'), w1)"
    unfolding skipped_run [OF sk(1,3)] by (rule w1(1))
  have m: "fs_mem w1 = fs_mem w" "fs_dev w1 = fs_dev w" "fs_heap w1 = fs_heap w" using w1(2) by (simp_all add: same_but_steps_def)
  have cov: "d' + n \<le> ?S * bps f" using nsec_covers [OF pos(1), of "n + d'"] by simp
  have up: "?S * bps f \<le> n + 2 * bps f" using nsec_upper [of f "n + d'"] sk(3) by simp
  have bu: "buf < usize_limit" using n(2) by simp
  have "sector_of f c + so < 2 ^ 32" using s so c0 by simp
  from read_part_correct [OF blk f c0(2) this _ cov S bu, of w1] h m obtain r w2 where
    w2: "read_part blk f buf 0 ?S n c so d' w1 = Some (r, w2)" "contents (fs_dev w2) = contents (fs_dev w)" "low_inv (fs_heap w2)"
    "\<forall>p. p \<notin> {buf..<buf + ?S * bps f} \<union> free_set (fs_heap w) \<longrightarrow> fs_mem w2 p = fs_mem w p"
    "r = Inr () \<longrightarrow> (\<forall>i < n. fs_mem w2 (buf + i) = contents (fs_dev w) (base_lba f * lba_size f + (sector_of f c + so) * bps f + d' + i))"
    "never_fails blk \<longrightarrow> d' = 0 \<longrightarrow> r = Inr ()" by auto
  have fr: "\<forall>p. p \<notin> {buf..<buf + n + 2 * bps f} \<union> free_set (fs_heap w) \<longrightarrow> fs_mem w2 p = fs_mem w p"
  proof (intro allI impI)
    fix p assume "p \<notin> {buf..<buf + n + 2 * bps f} \<union> free_set (fs_heap w)"
    then have "p \<notin> {buf..<buf + ?S * bps f} \<union> free_set (fs_heap w)" using up by auto
    then show "fs_mem w2 p = fs_mem w p" using w2(4) by blast
  qed
  show ?thesis
  proof (cases r)
    case (Inl e)
    then have "read_loop blk f buf n 0 ?d c w = Some (Inl (), w2)"
      using rr w2(1) by (subst read_loop.simps) simp
    then show ?thesis using w2(2,3,6) fr Inl sk(4) by (intro exI [of _ "Inl ()"] exI [of _ w2]) auto
  next
    case (Inr u)
    have "uadd 0 n = Some n" using n(1) by (simp add: uadd_def usize_limit_def)
    then have "read_loop blk f buf n 0 ?d c w = Some (Inr n, w2)"
      using rr w2(1) Inr by (subst read_loop.simps) simp
    moreover have "\<forall>i < n. fs_mem w2 (buf + i) = contents (fs_dev w) (file_address f (fs_mem w) fi (offset + i))"
      using w2(5) Inr ad c0(1) sk(2) by (simp add: add_mult_distrib add.assoc)
    ultimately show ?thesis using w2(2,3) fr by (intro exI [of _ "Inr n"] exI [of _ w2]) auto
  qed
qed

lemma clip_length_inside: "offset + len \<le> unat (file_size fi) \<Longrightarrow> clip_length fi offset len = Some (Some len)"
proof -
  assume "offset + len \<le> unat (file_size fi)"
  moreover have "unat (file_size fi) < 2 ^ 32" using unsigned_less [of "file_size fi"] by simp
  ultimately show ?thesis by (simp add: clip_length_def uadd_def usize_limit_def)
qed

lemma clip_length_cut:
  "offset < unat (file_size fi) \<Longrightarrow> offset + len < usize_limit \<Longrightarrow>
   clip_length fi offset len = Some (Some (min len (unat (file_size fi) - offset)))"
  by (auto simp: clip_length_def uadd_def min_def)

lemma offset_div: "0 < n \<Longrightarrow> udiv x n = Some (x div n)" "x - x div n * n = x mod n" for x n :: nat
  by (simp_all add: udiv_def minus_div_mult_eq_mod)

text \<open>Finding the first cluster, common to reading and writing.\<close>

lemma first_cluster:
  assumes "hint_ok f (fs_mem w) fi" "cluster_of f (fs_mem w) fi k = Some c" "k < 2 ^ 32"
  obtains c0 i fi' w' where "walk_start fi k = (c0, i)" "walk_chain f [i..<k] c0 fi w = (Inr c, fi', w')"
    "same_but_steps w w'" "hint_ok f (fs_mem w) fi'" "entry_cluster fi' = entry_cluster fi" "file_size fi' = file_size fi"
proof -
  obtain c0 i where s: "walk_start fi k = (c0, i)" by (cases "walk_start fi k")
  from hinted_walk [OF assms(1,3) s] assms(2) show thesis using that [OF s] by auto
qed

lemma Fat32_read_extent:
  assumes blk: "block_device_ok blk contents" and f: "fat32_ok f" and hint: "hint_ok f (fs_mem w) fi"
    and n: "offset < unat (file_size fi)" "n = min len (unat (file_size fi) - offset)" "offset + len < usize_limit"
    and e: "extent f (fs_mem w) fi offset n"
    and h: "low_inv (fs_heap w)" and b: "buf + n + 2 ^ 17 < usize_limit"
  shows "\<exists>r fi' w'. Fat32_read blk f fi buf offset len w = Some (r, fi', w') \<and>
    hint_ok f (fs_mem w) fi' \<and> entry_cluster fi' = entry_cluster fi \<and> file_size fi' = file_size fi \<and>
    contents (fs_dev w') = contents (fs_dev w) \<and> low_inv (fs_heap w') \<and>
    (\<forall>p. p \<notin> {buf..<buf + n + 2 * bps f} \<union> free_set (fs_heap w) \<longrightarrow> fs_mem w' p = fs_mem w p) \<and>
    (r = Inl () \<or> r = Inr n \<and> (\<forall>i < n. fs_mem w' (buf + i) = contents (fs_dev w) (file_address f (fs_mem w) fi (offset + i)))) \<and>
    (never_fails blk \<longrightarrow> bps f dvd offset mod bpc f \<longrightarrow> offset mod bpc f \<noteq> bps f \<longrightarrow> r = Inr n)"
proof -
  have pos: "0 < bpc f" using f by (simp add: fat32_ok_def)
  have sz: "unat (file_size fi) < 2 ^ 32" using unsigned_less [of "file_size fi"] by simp
  obtain c where c: "cluster_of f (fs_mem w) fi (offset div bpc f) = Some c" using extentE [OF e pos] by blast
  have k: "offset div bpc f < 2 ^ 32" using n(1) sz div_le_dividend [of offset "bpc f"] by linarith
  obtain c0 i fi' w1 where s: "walk_start fi (offset div bpc f) = (c0, i)"
    "walk_chain f [i..<offset div bpc f] c0 fi w = (Inr c, fi', w1)" "same_but_steps w w1"
    and fi: "hint_ok f (fs_mem w) fi'" "entry_cluster fi' = entry_cluster fi" "file_size fi' = file_size fi"
    by (rule first_cluster [OF hint c k])
  have m: "fs_mem w1 = fs_mem w" "fs_dev w1 = fs_dev w" "fs_heap w1 = fs_heap w" using s(3) by (simp_all add: same_but_steps_def)
  have o: "offset + n < 2 ^ 32" using n(1,2) sz by simp
  obtain r w2 where r: "read_loop blk f buf n 0 (offset mod bpc f) c w1 = Some (r, w2)" "contents (fs_dev w2) = contents (fs_dev w)"
    "low_inv (fs_heap w2)" "\<forall>p. p \<notin> {buf..<buf + n + 2 * bps f} \<union> free_set (fs_heap w) \<longrightarrow> fs_mem w2 p = fs_mem w p"
    "r = Inl () \<or> r = Inr n \<and> (\<forall>i < n. fs_mem w2 (buf + i) = contents (fs_dev w) (file_address f (fs_mem w) fi (offset + i)))"
    "never_fails blk \<longrightarrow> bps f dvd offset mod bpc f \<longrightarrow> offset mod bpc f \<noteq> bps f \<longrightarrow> r = Inr n"
    using read_loop_extent [OF blk f, of w1 fi offset n c buf] e c h o b unfolding m by blast
  have "Fat32_read blk f fi buf offset len w = Some (r, fi', w2)"
    unfolding Fat32_read_def clip_length_cut [OF n(1,3)] n(2) [symmetric]
    using s r(1) by (simp add: offset_div(1) [OF pos] offset_div(2))
  with r fi show ?thesis by blast
qed

section \<open>Writing an extent\<close>

lemma write_run_read_run:
  fixes w :: "'d fsw"
  assumes "0 < bps f" "0 < spc f" "bps f dvd len" "len < 2 ^ 32" "bps f dvd rb" "bps f dvd d" "rb < len" "d \<le> bps f" "d < bpc f"
  shows "write_run f len s rb (so, d, bk) c w = read_run f len s rb (so, d, bk) c w"
  using assms(5-)
proof (induction "len - rb + d" arbitrary: s rb d c w rule: less_induct)
  case less
  have sk: "skip_sectors f (so, d, bk) = Some (so, d, bk)" using less.prems(4) by (rule skip_sectors_small)
  have ge: "\<not> len - rb < bps f" using less.prems(1,3) assms(3) by (simp add: dvd_imp_le dvd_diff_nat not_less)
  have step: "write_run f len s' (rb + (bpc f - d)) (so, 0, bk) c' w' = read_run f len s' (rb + (bpc f - d)) (so, 0, bk) c' w'"
    if "\<not> len - rb + d \<le> bpc f" for s' c' and w' :: "'d fsw"
  proof (rule less.hyps)
    have "0 < bpc f" using assms(1,2) by simp
    then show "len - (rb + (bpc f - d)) + 0 < len - rb + d" using that less.prems(5) by linarith
    show "bps f dvd rb + (bpc f - d)" using less.prems(1,2) by (simp add: dvd_diff_nat)
    show "rb + (bpc f - d) < len" using that less.prems(5) by linarith
    show "0 < bpc f" by fact
  qed simp_all
  have "rb + (bpc f - d) < usize_limit" if "\<not> len - rb + d \<le> bpc f"
    using that assms(4) less.prems(5) by (simp add: usize_limit_def)
  then show ?case
    using sk ge step less.prems(3,5)
    by (subst write_run.simps, subst read_run.simps)
      (auto simp: usub_def uadd_def in_u32_def get_next_cluster_def bind_eq_Some_conv split: option.splits)
qed

lemma extent_at:
  assumes "extent f m fi offset n" "0 < bpc f" "cluster_of f m fi (offset div bpc f) = Some c"
  shows "2 \<le> c" "j < (offset mod bpc f + n - 1) div bpc f \<Longrightarrow> fat_next f m (c + j) = Some (c + j + 1)"
    "sector_of f c + spc f \<le> 2 ^ 32"
    "i < n \<Longrightarrow> file_address f m fi (offset + i) = base_lba f * lba_size f + sector_of f c * bps f + offset mod bpc f + i"
proof -
  have *: "P" if "\<And>c'. 2 \<le> c' \<Longrightarrow> c' = c \<Longrightarrow> (\<And>j. j < (offset mod bpc f + n - 1) div bpc f \<Longrightarrow> fat_next f m (c' + j) = Some (c' + j + 1)) \<Longrightarrow>
      sector_of f c' + spc f \<le> 2 ^ 32 \<Longrightarrow>
      (\<And>i. i < n \<Longrightarrow> file_address f m fi (offset + i) = base_lba f * lba_size f + sector_of f c' * bps f + offset mod bpc f + i) \<Longrightarrow> P" for P
  proof (rule extentE [OF assms(1,2)])
    fix c' assume "2 \<le> c'" and c': "cluster_of f m fi (offset div bpc f) = Some c'"
      and "\<And>j. j < (offset mod bpc f + n - 1) div bpc f \<Longrightarrow> fat_next f m (c' + j) = Some (c' + j + 1)"
      "sector_of f c' + spc f \<le> 2 ^ 32"
      "\<And>i. i < n \<Longrightarrow> file_address f m fi (offset + i) = base_lba f * lba_size f + sector_of f c' * bps f + offset mod bpc f + i"
    moreover have "c' = c" using c' assms(3) by simp
    ultimately show P by (intro that)
  qed
  show "2 \<le> c" by (rule *) blast
  show "fat_next f m (c + j) = Some (c + j + 1)" if "j < (offset mod bpc f + n - 1) div bpc f" by (rule *) (use that in blast)
  show "sector_of f c + spc f \<le> 2 ^ 32" by (rule *) blast
  show "file_address f m fi (offset + i) = base_lba f * lba_size f + sector_of f c * bps f + offset mod bpc f + i" if "i < n"
    by (rule *) (use that in blast)
qed

lemma skipped_write_run:
  assumes "skip_sectors f (0, d, d) = Some (so, d', d')" "d' \<le> bps f"
  shows "write_run f len s rb (0, d, d) c w = write_run f len s rb (so, d', d') c w"
proof -
  have eq: "skip_sectors f (so, d', d') = skip_sectors f (0, d, d)" using assms by (simp add: skip_sectors_small)
  show ?thesis by (subst write_run.simps, subst (2) write_run.simps) (simp only: eq)
qed

lemma write_sectors_correct:
  assumes "block_device_ok blk contents" "fat32_ok f" "s < 2 ^ 32"
  shows "\<exists>r w'. write_sectors blk f buf s n w = Some (r, w') \<and> fs_mem w' = fs_mem w \<and> fs_heap w' = fs_heap w \<and>
    (\<forall>p. p < base_lba f * lba_size f + s * bps f \<or> base_lba f * lba_size f + s * bps f + n * bps f \<le> p \<longrightarrow> contents (fs_dev w') p = contents (fs_dev w) p) \<and>
    (r = Inr () \<longrightarrow> (\<forall>i < n * bps f. contents (fs_dev w') (base_lba f * lba_size f + s * bps f + i) = fs_mem w (buf + i))) \<and>
    (never_fails blk \<longrightarrow> r = Inr ())"
proof -
  let ?a = "base_lba f * lba_size f + s * bps f"
  obtain r d where r: "blk_write blk buf ?a (n * bps f) (fs_dev w, fs_mem w) = Some (r, d, fs_mem w)"
    "\<forall>p. p < ?a \<or> ?a + n * bps f \<le> p \<longrightarrow> contents d p = contents (fs_dev w) p"
    "r = Inr () \<longrightarrow> (\<forall>i < n * bps f. contents d (?a + i) = fs_mem w (buf + i))"
    using block_write_ok [OF assms(1), of buf ?a "n * bps f" "fs_dev w" "fs_mem w"] by blast
  have "never_fails blk \<longrightarrow> r = Inr ()" using r(1) unfolding never_fails_def by blast
  with r show ?thesis
    by (intro exI [of _ r] exI [of _ "w\<lparr>fs_dev := d\<rparr>"])
      (simp add: write_sectors_def sector_address_correct [OF assms(2,3)])
qed

text \<open>The run of sectors for an aligned request on an extent.\<close>

lemma aligned_run:
  assumes f: "fat32_ok f" and e: "extent f (fs_mem w) fi offset n" and c: "cluster_of f (fs_mem w) fi (offset div bpc f) = Some c"
    and n: "offset + n < 2 ^ 32" "0 < n" "bps f dvd n" "bps f dvd offset"
  obtains so d' c' w1 where "write_run f n 0 0 (0, offset mod bpc f, offset mod bpc f) c w = Some (Inr (nsec f (n + d'), n, so, d', c'), w1)"
    "same_but_steps w w1" "offset mod bpc f = so * bps f + d'" "d' = (if offset mod bpc f = bps f then bps f else 0)" "sector_of f c + so < 2 ^ 32"
proof -
  let ?d = "offset mod bpc f"
  have pos: "0 < bps f" "0 < spc f" "0 < bpc f" using f by (simp_all add: fat32_ok_def)
  note X = extent_at [OF e pos(3) c]
  have d: "?d < bpc f" "?d \<le> offset" using pos(3) by simp_all
  have d32: "?d < 2 ^ 32" using d(2) n(1) by linarith
  have dd: "bps f dvd ?d" using n(4) by (simp add: dvd_mod)
  obtain so d' where sk: "skip_sectors f (0, ?d, ?d) = Some (so, d', d')" "?d = so * bps f + d'" "d' \<le> bps f"
    "bps f dvd ?d \<longrightarrow> ?d \<noteq> bps f \<longrightarrow> d' = 0"
    using skip_sectors_correct [OF pos(1) d32] by blast
  have d': "d' \<le> ?d" "bps f dvd d'" using sk(2) dd by simp_all
  have so: "so < spc f"
  proof (rule ccontr)
    assume "\<not> so < spc f"
    then have "spc f * bps f \<le> so * bps f" by (intro mult_le_mono1) simp
    then show False using d(1) sk(2) by linarith
  qed
  have "n + d' < 2 ^ 32" using d'(1) d(2) n(1) by linarith
  then have S: "0 + nsec f (n - 0 + d') < 2 ^ 32" using nsec_le [of "n + d'" f] n(2) by simp
  have nx': "fat_next f (fs_mem w) (c + j) = Some (c + j + 1)" if "j < (n - 0 + d' - 1) div bpc f" for j
  proof -
    have "(n - 0 + d' - 1) div bpc f \<le> (?d + n - 1) div bpc f" using d'(1) by (intro div_le_mono) linarith
    then have "j < (?d + n - 1) div bpc f" using that by (rule order.strict_trans2 [rotated])
    from X(2) [OF this] show ?thesis .
  qed
  have l: "d' < bpc f" "0 \<le> n" "n < 2 ^ 32" using d(1) d'(1) n(1) by simp_all
  from read_run_correct [OF pos(1,2) sk(3) l S nx', of so d'] obtain c' w1 where
    "read_run f n 0 0 (so, d', d') c w = Some (Inr (nsec f (n + d'), n, so, d', c'), w1)" "same_but_steps w w1" by auto
  then have w1: "write_run f n 0 0 (0, ?d, ?d) c w = Some (Inr (nsec f (n + d'), n, so, d', c'), w1)" "same_but_steps w w1"
    unfolding skipped_write_run [OF sk(1,3)] using write_run_read_run [OF pos(1,2) n(3) l(3) _ d'(2) n(2) sk(3) l(1), of 0 so d' c w] by simp_all
  have "d' = (if ?d = bps f then bps f else 0)"
  proof (cases "?d = bps f")
    case True
    have "skip_sectors f (0, bps f, bps f) = Some (0, bps f, bps f)" by (simp add: skip_sectors_small)
    then show ?thesis using sk(1) unfolding True by simp
  next
    case False
    then show ?thesis using sk(4) dd by simp
  qed
  then show thesis using that [OF w1 sk(2)] X(3) so by simp
qed

lemma write_loop_extent:
  assumes blk: "block_device_ok blk contents" and f: "fat32_ok f" and e: "extent f (fs_mem w) fi offset n"
    and c: "cluster_of f (fs_mem w) fi (offset div bpc f) = Some c"
    and n: "offset + n < 2 ^ 32" "0 < n" "bps f dvd n" "bps f dvd offset" and b: "buf < usize_limit" and ne: "offset mod bpc f \<noteq> bps f"
  shows "\<exists>r w'. write_loop blk f buf n 0 (offset mod bpc f) c w = Some (r, w') \<and> fs_mem w' = fs_mem w \<and> fs_heap w' = fs_heap w \<and>
    (\<forall>p. p \<notin> (\<lambda>i. file_address f (fs_mem w) fi (offset + i)) ` {..<n} \<longrightarrow> contents (fs_dev w') p = contents (fs_dev w) p) \<and>
    (r = Inl () \<or> r = Inr n \<and> (\<forall>i < n. contents (fs_dev w') (file_address f (fs_mem w) fi (offset + i)) = fs_mem w (buf + i))) \<and>
    (never_fails blk \<longrightarrow> r = Inr n)"
proof -
  have pos: "0 < bps f" "0 < bpc f" using f by (simp_all add: fat32_ok_def)
  obtain so d' c' w1 where run': "write_run f n 0 0 (0, offset mod bpc f, offset mod bpc f) c w = Some (Inr (nsec f (n + d'), n, so, d', c'), w1)"
    and w1: "same_but_steps w w1" "offset mod bpc f = so * bps f + d'" "d' = (if offset mod bpc f = bps f then bps f else 0)" "sector_of f c + so < 2 ^ 32"
    by (rule aligned_run [OF f e c n])
  have d0: "d' = 0" using w1(3) ne by (simp only: if_False)
  have run: "write_run f n 0 0 (0, offset mod bpc f, offset mod bpc f) c w = Some (Inr (nsec f n, n, so, 0, c'), w1)"
    using run' unfolding d0 by simp
  have m: "fs_mem w1 = fs_mem w" "fs_dev w1 = fs_dev w" "fs_heap w1 = fs_heap w" using w1(1) by (simp_all add: same_but_steps_def)
  note X = extent_at [OF e pos(2) c]
  let ?a = "base_lba f * lba_size f + (sector_of f c + so) * bps f"
  have ad': "file_address f (fs_mem w) fi (offset + i) = ?a + i" if "i < n" for i
    using X(4) [OF that] w1(2) d0 by (simp add: add_mult_distrib)
  have ns: "nsec f n * bps f = n" by (rule nsec_exact [OF pos(1) n(2,3)])
  obtain r w2 where w2: "write_sectors blk f buf (sector_of f c + so) (nsec f n) w1 = Some (r, w2)" "fs_mem w2 = fs_mem w" "fs_heap w2 = fs_heap w"
    "\<forall>p. p < ?a \<or> ?a + n \<le> p \<longrightarrow> contents (fs_dev w2) p = contents (fs_dev w) p"
    "r = Inr () \<longrightarrow> (\<forall>i < n. contents (fs_dev w2) (?a + i) = fs_mem w (buf + i))" "never_fails blk \<longrightarrow> r = Inr ()"
    using write_sectors_correct [OF blk f w1(4), of buf "nsec f n" w1] unfolding ns m by blast
  have cs: "cluster_to_sector f c = Some (sector_of f c)" "in_u32 (sector_of f c + so) = Some (sector_of f c + so)"
    using cluster_to_sector_correct [OF X(1)] w1(4) by (simp_all add: in_u32_def)
  have fr: "\<forall>p. p \<notin> (\<lambda>i. file_address f (fs_mem w) fi (offset + i)) ` {..<n} \<longrightarrow> contents (fs_dev w2) p = contents (fs_dev w) p"
  proof (intro allI impI)
    fix p assume p: "p \<notin> (\<lambda>i. file_address f (fs_mem w) fi (offset + i)) ` {..<n}"
    have "p < ?a \<or> ?a + n \<le> p"
    proof (rule ccontr)
      assume "\<not> (p < ?a \<or> ?a + n \<le> p)"
      then have "p = ?a + (p - ?a)" "p - ?a < n" by linarith+
      then show False using p ad' by (metis (no_types, lifting) image_eqI lessThan_iff)
    qed
    then show "contents (fs_dev w2) p = contents (fs_dev w) p" using w2(4) by blast
  qed
  have u: "uadd buf 0 = Some buf" "uadd 0 n = Some n" using b n(1) by (simp_all add: uadd_def usize_limit_def)
  show ?thesis
  proof (cases r)
    case (Inl x)
    then have "write_loop blk f buf n 0 (offset mod bpc f) c w = Some (Inl (), w2)"
      using run cs u w2(1) by (subst write_loop.simps) simp
    then show ?thesis using w2(2,3,6) fr Inl by (intro exI [of _ "Inl ()"] exI [of _ w2]) simp
  next
    case (Inr x)
    then have "write_loop blk f buf n 0 (offset mod bpc f) c w = Some (Inr n, w2)"
      using run cs u w2(1) by (subst write_loop.simps) simp
    then show ?thesis using w2(2,3,5) fr Inr ad' by (intro exI [of _ "Inr n"] exI [of _ w2]) simp
  qed
qed

lemma Fat32_write_extent:
  assumes blk: "block_device_ok blk contents" and f: "fat32_ok f" and hint: "hint_ok f (fs_mem w) fi"
    and e: "extent f (fs_mem w) fi offset n" and n: "offset + n \<le> unat (file_size fi)" "0 < n" "bps f dvd n" "bps f dvd offset"
    and b: "buf < usize_limit"
  shows "\<exists>r fi' w'. Fat32_write blk f fi buf offset n w = Some (r, fi', w') \<and>
    hint_ok f (fs_mem w) fi' \<and> entry_cluster fi' = entry_cluster fi \<and> file_size fi' = file_size fi \<and>
    fs_mem w' = fs_mem w \<and> fs_heap w' = fs_heap w \<and>
    (if offset mod bpc f = bps f then r = Inl () \<and> fs_dev w' = fs_dev w
     else (\<forall>p. p \<notin> (\<lambda>i. file_address f (fs_mem w) fi (offset + i)) ` {..<n} \<longrightarrow> contents (fs_dev w') p = contents (fs_dev w) p) \<and>
       (r = Inl () \<or> r = Inr n \<and> (\<forall>i < n. contents (fs_dev w') (file_address f (fs_mem w) fi (offset + i)) = fs_mem w (buf + i))) \<and>
       (never_fails blk \<longrightarrow> r = Inr n))"
proof -
  have pos: "0 < bps f" "0 < bpc f" using f by (simp_all add: fat32_ok_def)
  have sz: "unat (file_size fi) < 2 ^ 32" using unsigned_less [of "file_size fi"] by simp
  obtain c where c: "cluster_of f (fs_mem w) fi (offset div bpc f) = Some c" using extentE [OF e pos(2)] by blast
  have k: "offset div bpc f < 2 ^ 32" "offset + n < 2 ^ 32" using n(1) sz div_le_dividend [of offset "bpc f"] by linarith+
  obtain c0 i fi' w1 where s: "walk_start fi (offset div bpc f) = (c0, i)"
    "walk_chain f [i..<offset div bpc f] c0 fi w = (Inr c, fi', w1)" "same_but_steps w w1"
    and fi: "hint_ok f (fs_mem w) fi'" "entry_cluster fi' = entry_cluster fi" "file_size fi' = file_size fi"
    by (rule first_cluster [OF hint c k(1)])
  have m: "fs_mem w1 = fs_mem w" "fs_dev w1 = fs_dev w" "fs_heap w1 = fs_heap w" using s(3) by (simp_all add: same_but_steps_def)
  have W: "Fat32_write blk f fi buf offset n w = Some (r, fi', w2)"
    if "write_loop blk f buf n 0 (offset mod bpc f) c w1 = Some (r, w2)" for r w2
    unfolding Fat32_write_def clip_length_inside [OF n(1)]
    using s that by (simp add: offset_div(1) [OF pos(2)] offset_div(2))
  have e1: "extent f (fs_mem w1) fi offset n" "cluster_of f (fs_mem w1) fi (offset div bpc f) = Some c" using e c m by simp_all
  show ?thesis
  proof (cases "offset mod bpc f = bps f")
    case True
    obtain so d' c' w2 where run: "write_run f n 0 0 (0, offset mod bpc f, offset mod bpc f) c w1 = Some (Inr (nsec f (n + d'), n, so, d', c'), w2)"
      "same_but_steps w1 w2" "offset mod bpc f = so * bps f + d'" "d' = (if offset mod bpc f = bps f then bps f else 0)"
      by (rule aligned_run [OF f e1 k(2) n(2-4)])
    have "d' \<noteq> 0" using run(4) pos(1) unfolding True by simp
    then have "write_loop blk f buf n 0 (offset mod bpc f) c w1 = Some (Inl (), w2)"
      by (subst write_loop.simps) (simp add: run(1))
    from W [OF this] show ?thesis using True fi m run(2)
      by (intro exI [of _ "Inl ()"] exI [of _ fi'] exI [of _ w2]) (simp add: same_but_steps_def)
  next
    case False
    from write_loop_extent [OF blk f e1 k(2) n(2-4) b False, unfolded m] obtain r w2 where
      w2: "write_loop blk f buf n 0 (offset mod bpc f) c w1 = Some (r, w2)" "fs_mem w2 = fs_mem w" "fs_heap w2 = fs_heap w"
      "\<forall>p. p \<notin> (\<lambda>i. file_address f (fs_mem w) fi (offset + i)) ` {..<n} \<longrightarrow> contents (fs_dev w2) p = contents (fs_dev w) p"
      "r = Inl () \<or> r = Inr n \<and> (\<forall>i < n. contents (fs_dev w2) (file_address f (fs_mem w) fi (offset + i)) = fs_mem w (buf + i))"
      "never_fails blk \<longrightarrow> r = Inr n" by (elim exE conjE) (rule that)
    from W [OF w2(1)] fi w2 show ?thesis unfolding if_not_P [OF False] by blast
  qed
qed

end
