(* ===== verification/Fat32_Files.thy ===== *)
theory Fat32_Files
  imports Fat32_Proofs
begin

text \<open>The promises of the file system to its clients: reading, writing, and finding a file by name.
  The examples run on a disk in memory.\<close>

section \<open>Names\<close>

definition display_name :: "DirectoryEntry \<Rightarrow> u8 list" where
  "display_name e =
     (let s = (if de_name e ! 0 = 0x05 then 0xE5 else de_name e ! 0) #
              filter (\<lambda>c. c \<noteq> 0x20) (drop 1 (de_name e)) @ [0x2E] @ filter (\<lambda>c. c \<noteq> 0x20) (de_name_extension e)
      in if List.last s = 0x2E then butlast s else s)"

lemma copy_name_correct:
  assumes "p + length (filter (\<lambda>c. c \<noteq> 0x20) ns) < length b"
  shows "\<exists>b'. copy_name ns (p, b) = Some (p + length (filter (\<lambda>c. c \<noteq> 0x20) ns), b') \<and> length b' = length b \<and>
    take (Suc (p + length (filter (\<lambda>c. c \<noteq> 0x20) ns))) b' = take (Suc p) b @ filter (\<lambda>c. c \<noteq> 0x20) ns"
  using assms
proof (induction ns arbitrary: p b)
  case Nil
  then show ?case by (simp add: copy_name_def)
next
  case (Cons x ns)
  show ?case
  proof (cases "x = 0x20")
    case True
    then show ?thesis using Cons.IH [of p b] Cons.prems by (simp add: copy_name_def)
  next
    case False
    let ?b = "b[Suc p := x]"
    have "Suc p + length (filter (\<lambda>c. c \<noteq> 0x20) ns) < length ?b" using Cons.prems False by simp
    from Cons.IH [OF this] obtain b' where "copy_name ns (Suc p, ?b) = Some (Suc p + length (filter (\<lambda>c. c \<noteq> 0x20) ns), b')"
      "length b' = length b" "take (Suc (Suc p + length (filter (\<lambda>c. c \<noteq> 0x20) ns))) b' = take (Suc (Suc p)) ?b @ filter (\<lambda>c. c \<noteq> 0x20) ns" by auto
    moreover have "take (Suc (Suc p)) ?b = take (Suc p) b @ [x]"
      using Cons.prems False by (simp add: take_Suc_conv_app_nth)
    ultimately show ?thesis using False Cons.prems by (simp add: copy_name_def)
  qed
qed

lemma take_last:
  assumes "take (Suc q) b = s" "q < length b"
  shows "b ! q = List.last s" "take q b = butlast s"
  using assms by (auto simp: take_Suc_conv_app_nth)

lemma get_file_name_correct:
  assumes "length (de_name e) = 8" "length (de_name_extension e) = 3"
  shows "get_file_name e (replicate 12 0) =
    Some (if utf8_valid (display_name e) then Some (display_name e) else None)"
proof -
  define n0 where "n0 = (if de_name e ! 0 = 0x05 then 0xE5 else de_name e ! 0)"
  define A where "A = filter (\<lambda>c. c \<noteq> 0x20) (drop 1 (de_name e))"
  define X where "X = filter (\<lambda>c. c \<noteq> 0x20) (de_name_extension e)"
  define s where "s = n0 # A @ [0x2E] @ X"
  define b0 where "b0 = (replicate 12 0)[0 := n0]"
  have len: "length A \<le> 7" "length X \<le> 3"
    unfolding A_def X_def using assms by (auto intro: order_trans [OF length_filter_le])
  have b0: "get_at (de_name e) 0 = Some (de_name e ! 0)" "set_at (replicate 12 0) 0 n0 = Some b0" "length b0 = 12" "take 1 b0 = [n0]"
    using assms(1) by (simp_all add: b0_def set_at_def take_Suc_conv_app_nth)
  have "0 + length A < length b0" using len b0(3) by simp
  from copy_name_correct [OF this [unfolded A_def], folded A_def] obtain b1 where
    b1: "copy_name (drop 1 (de_name e)) (0, b0) = Some (length A, b1)" "length b1 = 12" "take (Suc (length A)) b1 = n0 # A"
    using b0(3,4) by auto
  define p where "p = length A + 1"
  have b2: "set_at b1 p 0x2E = Some (b1[p := 0x2E])" "take (Suc p) (b1[p := 0x2E]) = n0 # A @ [0x2E]"
    using b1(2,3) len by (simp_all add: p_def set_at_def take_Suc_conv_app_nth)
  have "p + length X < length (b1[p := 0x2E])" using len b1(2) by (simp add: p_def)
  from copy_name_correct [OF this [unfolded X_def], folded X_def] obtain b3 where
    b3: "copy_name (de_name_extension e) (p, b1[p := 0x2E]) = Some (p + length X, b3)" "length b3 = 12" "take (Suc (p + length X)) b3 = s"
    using b2(2) b1(2) by (auto simp: s_def)
  define q where "q = p + length X"
  have q: "q < 12" using len by (simp add: q_def p_def)
  note tl = take_last [OF b3(3) [folded q_def]]
  have dn: "display_name e = (if List.last s = 0x2E then butlast s else s)"
    by (simp add: display_name_def s_def A_def X_def n0_def Let_def)
  have c: "get_at b3 q = Some (List.last s)" "take q b3 = butlast s" using tl b3(2) q by (simp_all add: get_at_def)
  have u: "get_file_name e (replicate 12 0) = do {
     (p, buffer) \<leftarrow> (if List.last s = 0x2E then do { buffer \<leftarrow> set_at b3 q 0; Some (q, buffer) } else Some (q + 1, b3));
     _ \<leftarrow> assert_that (p \<le> length buffer);
     Some (if utf8_valid (take p buffer) then Some (take p buffer) else None) }"
    unfolding get_file_name_def b0(1) bind.simps n0_def [symmetric] b0(2) b1(1) prod.case p_def [symmetric] Let_def b2(1) b3(1)
      q_def [symmetric] c(1) ..
  show ?thesis
  proof (cases "List.last s = 0x2E")
    case True
    have "set_at b3 q 0 = Some (b3[q := 0])" "take q (b3[q := 0]) = butlast s" using b3(2) q c(2) by (simp_all add: set_at_def)
    then show ?thesis unfolding u dn using True q b3(2) by (simp add: assert_that_def)
  next
    case False
    have "take (q + 1) b3 = s" using b3(3) by (simp add: q_def)
    then show ?thesis unfolding u dn using False q b3(2) by (simp add: assert_that_def)
  qed
qed

definition name_matches :: "u8 list \<Rightarrow> DirectoryEntry \<Rightarrow> bool" where
  "name_matches target e \<longleftrightarrow> utf8_valid (display_name e) \<and>
     (display_name e = target \<or> make_ascii_lowercase (display_name e) = target)"

lemma search_entries_correct:
  assumes "\<forall>e \<in> set es. length (de_name e) = 8 \<and> length (de_name_extension e) = 3"
  shows "search_entries target es =
    Some (map_option file_info_of
      (find (\<lambda>e. \<not> is_skipped e \<and> de_name e ! 0 \<noteq> 0xE5 \<and> name_matches target e)
        (takeWhile (\<lambda>e. is_skipped e \<or> de_name e ! 0 \<noteq> 0) es)))"
  using assms
proof (induction es)
  case (Cons e es)
  then have g: "get_file_name e (replicate 12 0) = Some (if utf8_valid (display_name e) then Some (display_name e) else None)"
    "get_at (de_name e) 0 = Some (de_name e ! 0)" by (simp_all add: get_file_name_correct)
  show ?case using Cons g by (auto simp: name_matches_def simp del: replicate.simps)
qed simp

lemma root_entries_shape: "e \<in> set (root_entries f m) \<Longrightarrow> length (de_name e) = 8 \<and> length (de_name_extension e) = 3"
  by (auto simp: root_entries_def directory_entry_def)


section \<open>A disk in memory\<close>

definition ram_disk :: "(nat \<Rightarrow> u8) block_device" where
  "ram_disk = \<lparr>blk_read = (\<lambda>buf a n (d, m). Some (Inr (), d, put_bytes buf (get_bytes d a n) m)),
               blk_write = (\<lambda>buf a n (d, m). Some (Inr (), put_bytes a (get_bytes m buf n) d, m))\<rparr>"

lemma ram_disk_ok: "block_device_ok ram_disk (\<lambda>d. d)" "never_fails ram_disk"
  by (auto simp: block_device_ok_def never_fails_def ram_disk_def put_bytes_def)

definition example_fs :: Fat32 where
  "example_fs = \<lparr>base_lba = 0, lba_size = 512, bytes_per_sector = 512, sectors_per_cluster = 8, reserved_sectors = 32,
     fat_sectors = 1, number_of_fats = 2, fat = 0, root_directory_list = 65536\<rparr>"

definition example_file :: FileInfo where
  "example_file = \<lparr>entry_cluster = 2, file_size = 8192, walk_hint = 0\<rparr>"

definition example_world :: "(nat \<Rightarrow> u8) fsw" where
  "example_world = \<lparr>fs_mem = store_le 4 8 3 (\<lambda>_. 7), fs_dev = (\<lambda>p. of_nat p), fs_heap = MemoryAllocator_new, FAT_WALK_STEPS = 0\<rparr>"

lemma example_setup:
  "fat32_ok example_fs" "hint_ok example_fs (fs_mem example_world) example_file" "low_inv (fs_heap example_world)"
  "bps example_fs = 512" "bpc example_fs = 4096" "unat (file_size example_file) = 8192"
  by (auto simp: fat32_ok_def example_fs_def hint_ok_def example_file_def example_world_def MemoryAllocator_new_low
      intro!: exI [of _ 9])

lemma example_chain: "cluster_of example_fs (fs_mem example_world) example_file 0 = Some 2"
  "cluster_of example_fs (fs_mem example_world) example_file 1 = Some 3"
proof -
  have "fat_next example_fs (fs_mem example_world) 2 = Some 3"
    by (simp add: fat_next_def example_fs_def example_world_def)
  then show "cluster_of example_fs (fs_mem example_world) example_file 0 = Some 2"
    "cluster_of example_fs (fs_mem example_world) example_file 1 = Some 3"
    by (simp_all add: cluster_of_def example_file_def)
qed

lemma example_extent:
  assumes "offset < 4096" "0 < n" "offset + n \<le> 8192"
  shows "extent example_fs (fs_mem example_world) example_file offset n"
proof -
  have q: "offset div 4096 = 0" "offset mod 4096 = offset" using assms(1) by simp_all
  let ?K = "(offset + n - 1) div 4096"
  have K: "?K = 0 \<or> ?K = 1" using assms by linarith
  then have "\<forall>k \<le> ?K. cluster_of example_fs (fs_mem example_world) example_file (0 + k) = Some (2 + k)"
    using example_chain by (auto simp: le_Suc_eq)
  moreover have "sector_of example_fs (2 + ?K) + spc example_fs \<le> 2 ^ 32"
    using K by (auto simp: sector_of_def example_fs_def)
  ultimately show ?thesis unfolding extent_def example_setup(5) q by (intro exI [of _ 2]) simp
qed

section \<open>The properties\<close>





text \<open>C26.  The hint does not change what is found.  Starting at the remembered position instead of
  the first cluster, the walk reaches exactly the cluster the chain of the file has at
  that index, or fails exactly when the chain is shorter; the position remembered afterwards is right
  again.\<close>

theorem walk_hint_equivalence:
  assumes "hint_ok f (fs_mem w) fi" "k < 2 ^ 32"
  shows "case walk_start fi k of (c, i) \<Rightarrow>
    case walk_chain f [i..<k] c fi w of (r, fi', w') \<Rightarrow>
      r = (case cluster_of f (fs_mem w) fi k of None \<Rightarrow> Inl () | Some c \<Rightarrow> Inr c) \<and>
      hint_ok f (fs_mem w') fi' \<and> cluster_of f (fs_mem w') fi' = cluster_of f (fs_mem w) fi \<and> fs_dev w' = fs_dev w"
proof -
  obtain c i where s: "walk_start fi k = (c, i)" by (cases "walk_start fi k")
  from hinted_walk [OF assms s] obtain fi' w' where
    r: "walk_chain f [i..<k] c fi w = (case cluster_of f (fs_mem w) fi k of None \<Rightarrow> Inl () | Some c \<Rightarrow> Inr c, fi', w')"
    "same_but_steps w w'" "hint_ok f (fs_mem w) fi'" "entry_cluster fi' = entry_cluster fi" by blast
  have "cluster_of f (fs_mem w) fi' = cluster_of f (fs_mem w) fi" using r(4) by (rule_tac ext) (simp add: cluster_of_def)
  then show ?thesis using r by (simp add: s same_but_steps_def)
qed

theorem walk_hint_equivalence_witness:
  "case walk_start (update_walk_hint 1 3 example_file) 1 of (c, i) \<Rightarrow> i = 1 \<and>
     fst (walk_chain example_fs [i..<1] c (update_walk_hint 1 3 example_file) example_world) = Inr 3"
proof -
  let ?fi = "update_walk_hint 1 3 example_file"
  have h: "hint_ok example_fs (fs_mem example_world) ?fi" using hint_ok_update [OF example_chain(2)] by simp
  have i: "snd (walk_start ?fi 1) = 1" using hint_fields [of 1 3] by (simp add: walk_start_def Let_def update_walk_hint_def)
  show ?thesis using walk_hint_equivalence [OF h, of 1] i example_chain(2) by (auto split: prod.splits)
qed

text \<open>C27.  A write that starts in the second sector of a cluster is refused.  Although offset and
  length are multiples of the sector size, the request fails, and neither the disk nor memory nor
  the heap changes.\<close>

theorem fat32_second_sector_write_fails:
  assumes "block_device_ok blk contents" "fat32_ok f" "hint_ok f (fs_mem w) fi" "extent f (fs_mem w) fi offset n"
    and "offset + n \<le> unat (file_size fi)" "0 < n" "bps f dvd n" "bps f dvd offset" "buf < usize_limit" "offset mod bpc f = bps f"
  shows "\<exists>fi' w'. Fat32_write blk f fi buf offset n w = Some (Inl (), fi', w') \<and>
    fs_dev w' = fs_dev w \<and> fs_mem w' = fs_mem w \<and> fs_heap w' = fs_heap w"
  using Fat32_write_extent [OF assms(1-9), unfolded if_P [OF assms(10)]] by blast

theorem fat32_second_sector_write_fails_witness:
  "\<exists>fi w. Fat32_write ram_disk example_fs example_file 0 512 512 example_world = Some (Inl (), fi, w)"
proof -
  have e: "extent example_fs (fs_mem example_world) example_file 512 512" by (rule example_extent) simp_all
  have h: "512 + 512 \<le> unat (file_size example_file)" "0 < (512 :: nat)" "bps example_fs dvd 512" "bps example_fs dvd 512"
    "0 < usize_limit" "512 mod bpc example_fs = bps example_fs" using example_setup(4-6) by (simp_all add: usize_limit_def)
  show ?thesis using fat32_second_sector_write_fails [OF ram_disk_ok(1) example_setup(1,2) e h] by blast
qed

text \<open>C28.  Finding a file never panics, whatever the directory holds, and gives the first entry
  before the end mark that is a file, is not deleted, and whose name in 8.3 form is the target, or
  is the target after conversion to lower case.\<close>

theorem search_file_correct:
  "search_file f m target = Some (map_option file_info_of
     (find (\<lambda>e. \<not> is_skipped e \<and> de_name e ! 0 \<noteq> 0xE5 \<and> name_matches target e)
       (takeWhile (\<lambda>e. \<not> (\<not> is_skipped e \<and> de_name e ! 0 = 0)) (root_entries f m))))"
proof -
  have "(\<lambda>e. \<not> (\<not> is_skipped e \<and> de_name e ! 0 = 0)) = (\<lambda>e. is_skipped e \<or> de_name e ! 0 \<noteq> 0)" by auto
  then show ?thesis
    unfolding search_file_def using search_entries_correct [of "root_entries f m" target] root_entries_shape by metis
qed

end
