(* ===== verification/Virtio_Queue.thy ===== *)
theory Virtio_Queue
  imports Byte_Memory Paging Gic_Distributor Serial
begin

text \<open>
  The legacy virtqueue as the device models serve it: \<^verbatim>\<open>drivers/virtio.rs\<close> and the
  \<open>QueueState\<close> of \<^verbatim>\<open>mmio/virtio_net.rs\<close>, which the console device shares.

  Pointers are addresses, the null pointer is 0.  The rings live in the guest's memory, so every
  operation takes the memory as an argument, and what it finds there is up to the guest.  A \<open>while
  let\<close> loop over the available ring is \<open>serve\<close> applied to the body of the loop, which
  says whether the loop goes on, is left at its head, or is left by a \<open>return\<close>.
\<close>

section \<open>Constants and layout\<close>

definition VIRTIO_MMIO_MAGIC :: usize where "VIRTIO_MMIO_MAGIC = 0x000"
definition VIRTIO_MMIO_MAGIC_VALUE :: u32 where "VIRTIO_MMIO_MAGIC_VALUE = 0x74726976"
definition VIRTIO_MMIO_VERSION :: usize where "VIRTIO_MMIO_VERSION = 0x04"
definition VIRTIO_MMIO_DEVICE_ID :: usize where "VIRTIO_MMIO_DEVICE_ID = 0x008"
definition VIRTIO_MMIO_VENDOR_ID :: usize where "VIRTIO_MMIO_VENDOR_ID = 0x00c"
definition VIRTIO_MMIO_DEVICE_FEATURES :: usize where "VIRTIO_MMIO_DEVICE_FEATURES = 0x010"
definition VIRTIO_MMIO_DEVICE_FEATURES_SEL :: usize where "VIRTIO_MMIO_DEVICE_FEATURES_SEL = 0x014"
definition VIRTIO_MMIO_DRIVER_FEATURES :: usize where "VIRTIO_MMIO_DRIVER_FEATURES = 0x020"
definition VIRTIO_MMIO_DRIVER_FEATURES_SEL :: usize where "VIRTIO_MMIO_DRIVER_FEATURES_SEL = 0x024"
definition VIRTIO_MMIO_GUEST_PAGE_SIZE :: usize where "VIRTIO_MMIO_GUEST_PAGE_SIZE = 0x028"
definition VIRTIO_MMIO_QUEUE_SEL :: usize where "VIRTIO_MMIO_QUEUE_SEL = 0x030"
definition VIRTIO_MMIO_QUEUE_NUM_MAX :: usize where "VIRTIO_MMIO_QUEUE_NUM_MAX = 0x034"
definition VIRTIO_MMIO_QUEUE_NUM :: usize where "VIRTIO_MMIO_QUEUE_NUM = 0x038"
definition VIRTIO_MMIO_QUEUE_PFN :: usize where "VIRTIO_MMIO_QUEUE_PFN = 0x040"
definition VIRTIO_MMIO_QUEUE_READY :: usize where "VIRTIO_MMIO_QUEUE_READY = 0x044"
definition VIRTIO_MMIO_QUEUE_NOTIFY :: usize where "VIRTIO_MMIO_QUEUE_NOTIFY = 0x050"
definition VIRTIO_MMIO_INTERRUPT_STATUS :: usize where "VIRTIO_MMIO_INTERRUPT_STATUS = 0x060"
definition VIRTIO_MMIO_INTERRUPT_ACK :: usize where "VIRTIO_MMIO_INTERRUPT_ACK = 0x064"
definition VIRTIO_MMIO_STATUS :: usize where "VIRTIO_MMIO_STATUS = 0x070"
definition VIRTIO_ID_NET :: u32 where "VIRTIO_ID_NET = 1"
definition VIRTIO_CONFIG_OFFSET :: usize where "VIRTIO_CONFIG_OFFSET = 0x100"
definition VIRT_QUEUE_DESC_FLAGS_NEXT :: u16 where "VIRT_QUEUE_DESC_FLAGS_NEXT = 1"

lemmas virtio_offsets = VIRTIO_MMIO_MAGIC_def VIRTIO_MMIO_VERSION_def VIRTIO_MMIO_DEVICE_ID_def
  VIRTIO_MMIO_VENDOR_ID_def VIRTIO_MMIO_DEVICE_FEATURES_def VIRTIO_MMIO_DEVICE_FEATURES_SEL_def
  VIRTIO_MMIO_DRIVER_FEATURES_def VIRTIO_MMIO_DRIVER_FEATURES_SEL_def VIRTIO_MMIO_GUEST_PAGE_SIZE_def
  VIRTIO_MMIO_QUEUE_SEL_def VIRTIO_MMIO_QUEUE_NUM_MAX_def VIRTIO_MMIO_QUEUE_NUM_def
  VIRTIO_MMIO_QUEUE_PFN_def VIRTIO_MMIO_QUEUE_READY_def VIRTIO_MMIO_QUEUE_NOTIFY_def
  VIRTIO_MMIO_INTERRUPT_STATUS_def VIRTIO_MMIO_INTERRUPT_ACK_def VIRTIO_MMIO_STATUS_def
  VIRTIO_CONFIG_OFFSET_def

record VirtQueueDesc =
  vd_address :: u64
  vd_length :: u32
  vd_flags :: u16
  vd_next :: u16

definition load_desc :: "bmem \<Rightarrow> usize \<Rightarrow> VirtQueueDesc" where
  "load_desc m a = \<lparr>vd_address = of_nat (load_le 8 m a), vd_length = of_nat (load_le 4 m (a + 8)),
     vd_flags = of_nat (load_le 2 m (a + 12)), vd_next = of_nat (load_le 2 m (a + 14))\<rparr>"

section \<open>The queue\<close>

record QueueState =
  queue_size :: usize
  descriptor :: usize
  avail_ring :: usize
  used_ring :: usize
  last_avail_id :: u16
  used_id :: u16

definition QueueState_new :: QueueState where
  "QueueState_new = \<lparr>queue_size = 0, descriptor = 0, avail_ring = 0, used_ring = 0, last_avail_id = 0, used_id = 0\<rparr>"

definition get_descriptor :: "QueueState \<Rightarrow> bmem \<Rightarrow> u16 \<Rightarrow> VirtQueueDesc option option" where
  "get_descriptor q m i =
     (if descriptor q \<noteq> 0 then do {
        a \<leftarrow> uadd (descriptor q) (16 * unat i);
        Some (Some (load_desc m a)) }
      else Some None)"

definition get_descriptor_id :: "QueueState \<Rightarrow> bmem \<Rightarrow> u16 \<Rightarrow> u16 option option" where
  "get_descriptor_id q m i =
     (if avail_ring q \<noteq> 0 then do {
        a \<leftarrow> uadd (avail_ring q) 4;
        a \<leftarrow> uadd a (2 * unat i);
        Some (Some (of_nat (load_le 2 m a))) }
      else Some None)"

definition avail_idx :: "QueueState \<Rightarrow> bmem \<Rightarrow> u16" where
  "avail_idx q m = of_nat (load_le 2 m (avail_ring q + 2))"

definition get_next_avail_id :: "QueueState \<Rightarrow> bmem \<Rightarrow> (u16 option \<times> QueueState) option" where
  "get_next_avail_id q m =
     (if avail_ring q = 0 \<or> queue_size q = 0 then Some (None, q)
      else if last_avail_id q = avail_idx q m then Some (None, q)
      else do {
        n \<leftarrow> wmod (last_avail_id q) (of_nat (queue_size q));
        l \<leftarrow> wadd (last_avail_id q) 1;
        Some (Some n, q\<lparr>last_avail_id := l\<rparr>) })"

definition write_used :: "u16 \<Rightarrow> u32 \<Rightarrow> QueueState \<Rightarrow> bmem \<Rightarrow> (QueueState \<times> bmem) option" where
  "write_used i len q m = do {
     n \<leftarrow> wmod (used_id q) (of_nat (queue_size q));
     u \<leftarrow> wadd (used_id q) 1;
     a \<leftarrow> uadd (used_ring q) 4;
     a \<leftarrow> uadd a (8 * unat n);
     let m = store_le 4 a (unat i) m;
     let m = store_le 4 (a + 4) (unat len) m;
     Some (q\<lparr>used_id := u\<rparr>, store_le 2 (used_ring q + 2) (unat u) m) }"

definition recompute_rings :: "usize \<Rightarrow> QueueState \<Rightarrow> QueueState option" where
  "recompute_rings page_size q = do {
     t \<leftarrow> umul 16 (queue_size q);
     avail \<leftarrow> uadd (descriptor q) t;
     n \<leftarrow> uadd 3 (queue_size q);
     t \<leftarrow> umul 2 n;
     e \<leftarrow> uadd avail t;
     e \<leftarrow> usub e 1;
     _ \<leftarrow> usub page_size 1;
     used \<leftarrow> uadd (clear_low e page_size) page_size;
     Some (q\<lparr>avail_ring := avail, used_ring := used\<rparr>) }"

definition QueueState_reset :: "QueueState \<Rightarrow> QueueState" where
  "QueueState_reset q = QueueState_new"

section \<open>Guest memory\<close>

record guest_ram =
  ram_virtual_base_address :: usize
  ram_physical_base_address :: usize
  ram_size :: usize

definition get_physical_address :: "guest_ram \<Rightarrow> usize \<Rightarrow> usize option option" where
  "get_physical_address vm virtual_address =
     translate_guest_physical_address virtual_address (ram_virtual_base_address vm)
       (ram_physical_base_address vm) (ram_size vm)"

section \<open>Serving a queue\<close>

datatype progress = Again | Empty | Return

partial_function (option) serve :: "('s \<Rightarrow> (progress \<times> 's) option) \<Rightarrow> 's \<Rightarrow> (progress \<times> 's) option" where
  "serve step s = do {
     (p, s) \<leftarrow> step s;
     (case p of Again \<Rightarrow> serve step s | _ \<Rightarrow> Some (p, s)) }"

text \<open>The same loop for a number of rounds: \<open>None\<close> when they are not enough, otherwise
  what the loop gives, \<open>Some None\<close> for a panic.\<close>

fun serve_within :: "nat \<Rightarrow> ('s \<Rightarrow> (progress \<times> 's) option) \<Rightarrow> 's \<Rightarrow> (progress \<times> 's) option option" where
  "serve_within 0 step s = None"
| "serve_within (Suc n) step s =
     (case step s of
        None \<Rightarrow> Some None
      | Some (p, s) \<Rightarrow> (case p of Again \<Rightarrow> serve_within n step s | _ \<Rightarrow> Some (Some (p, s))))"

lemma serve_within_serve: "serve_within n step s = Some r \<Longrightarrow> serve step s = r"
proof (induction n arbitrary: s)
  case (Suc n)
  show ?case
  proof (cases "step s")
    case None
    with Suc.prems show ?thesis by (simp add: serve.simps [of step s])
  next
    case (Some ps)
    obtain p s' where "ps = (p, s')" by (cases ps)
    with Suc Some show ?thesis by (cases p) (auto simp: serve.simps [of step s])
  qed
qed simp

text \<open>What a loop body promises: an invariant that every round keeps, and a measure that every
  round after which the loop goes on decreases.\<close>

locale queue_server =
  fixes step :: "'s \<Rightarrow> (progress \<times> 's) option"
    and inv :: "'s \<Rightarrow> bool"
    and left :: "'s \<Rightarrow> nat"
  assumes kept: "inv s \<Longrightarrow> step s = Some (p, s') \<Longrightarrow> inv s'"
    and decreases: "inv s \<Longrightarrow> step s = Some (Again, s') \<Longrightarrow> left s' < left s"
begin

lemma serve_ends: "inv s \<Longrightarrow> left s < n \<Longrightarrow> serve_within n step s = Some (serve step s)"
proof (induction n arbitrary: s)
  case (Suc n)
  show ?case
  proof (cases "step s")
    case None
    then show ?thesis by (simp add: serve.simps [of step s])
  next
    case (Some ps)
    obtain p s' where ps: "ps = (p, s')" by (cases ps)
    show ?thesis
    proof (cases p)
      case Again
      with Some ps have "step s = Some (Again, s')" by simp
      with Suc.prems have "inv s'" "left s' < n" using kept decreases by fastforce+
      from Suc.IH [OF this] Some ps Again show ?thesis by (simp add: serve.simps [of step s])
    qed (use Some ps in \<open>simp_all add: serve.simps [of step s]\<close>)
  qed
qed simp

lemma serve_within_kept: "inv s \<Longrightarrow> serve_within n step s = Some (Some (p, s')) \<Longrightarrow> inv s' \<and> p \<noteq> Again"
proof (induction n arbitrary: s)
  case (Suc n)
  from Suc.prems(2) obtain p1 s1 where s1: "step s = Some (p1, s1)" by (cases "step s") auto
  have "inv s1" by (rule kept [OF Suc.prems(1) s1])
  with Suc s1 show ?case by (cases p1) auto
qed simp

lemma serve_kept: "inv s \<Longrightarrow> serve step s = Some (p, s') \<Longrightarrow> inv s' \<and> p \<noteq> Again"
  using serve_within_kept [of s "Suc (left s)"] serve_ends [of s "Suc (left s)"] by simp

end

text \<open>Rules that follow the body of an operation to each of its results.\<close>

lemma body_bind: "(\<And>v. m = Some v \<Longrightarrow> ensures (f v) Q) \<Longrightarrow> ensures (Option.bind m f) Q"
  by (auto simp: ensures_def bind_eq_Some_conv)

lemma body_option:
  "(x = None \<Longrightarrow> ensures a Q) \<Longrightarrow> (\<And>v. x = Some v \<Longrightarrow> ensures (f v) Q) \<Longrightarrow>
   ensures (case x of None \<Rightarrow> a | Some v \<Rightarrow> f v) Q"
  by (cases x) simp_all

lemma body_prod: "(\<And>a b. x = (a, b) \<Longrightarrow> ensures (f a b) Q) \<Longrightarrow> ensures (case x of (a, b) \<Rightarrow> f a b) Q"
  by (cases x) simp_all

lemma body_let: "(\<And>v. v = x \<Longrightarrow> ensures (f v) Q) \<Longrightarrow> ensures (let v = x in f v) Q"
  by simp

lemma body_Some: "Q v \<Longrightarrow> ensures (Some v) Q"
  by simp

lemma body_sum:
  "(\<And>a. x = Inl a \<Longrightarrow> ensures (g a) Q) \<Longrightarrow> (\<And>b. x = Inr b \<Longrightarrow> ensures (h b) Q) \<Longrightarrow>
   ensures (case x of Inl a \<Rightarrow> g a | Inr b \<Rightarrow> h b) Q"
  by (cases x) simp_all

lemma body_result: "m = Some v \<Longrightarrow> ensures m Q \<Longrightarrow> Q v"
  by (simp add: ensures_def)

lemmas body_intros = body_bind body_option body_prod body_let ensures_if body_Some

section \<open>The shape of a queue\<close>

definition queue_wf :: "QueueState \<Rightarrow> bool" where
  "queue_wf q \<longleftrightarrow> queue_size q < usize_limit \<and> descriptor q < usize_limit \<and>
     avail_ring q < usize_limit \<and> used_ring q < usize_limit"

lemma queue_wf_new [simp]: "queue_wf QueueState_new"
  by (simp add: queue_wf_def QueueState_new_def usize_limit_def)

lemma queue_wf_update [simp]:
  "queue_wf (q\<lparr>last_avail_id := l\<rparr>) = queue_wf q"
  "queue_wf (q\<lparr>used_id := l\<rparr>) = queue_wf q"
  by (simp_all add: queue_wf_def)

lemma queue_wf_bounds: "queue_wf q \<Longrightarrow> queue_size q < usize_limit \<and> descriptor q < usize_limit"
  by (simp add: queue_wf_def)

lemma list_all_update: "list_all P xs \<Longrightarrow> P x \<Longrightarrow> list_all P (xs[i := x])"
  by (auto simp: list_all_iff dest!: set_update_subset_insert [THEN subsetD])

lemma list_all_nth: "list_all P xs \<Longrightarrow> i < length xs \<Longrightarrow> P (xs ! i)"
  by (simp add: list_all_length)

lemma wadd_one: "wadd x 1 = Some y \<Longrightarrow> y = x + 1 \<and> unat y = Suc (unat x)" for x :: "'a::len word"
  by (auto simp: wadd_def unat_word_ariths split: if_splits)

text \<open>How many requests the queue can still serve before its free-running index is used up.\<close>

definition avail_left :: "QueueState \<Rightarrow> nat" where
  "avail_left q = 65535 - unat (last_avail_id q)"

lemma avail_left_less: "avail_left q < 65536"
  by (simp add: avail_left_def)

lemma avail_left_taken [simp]: "unat l = Suc (unat (last_avail_id q)) \<Longrightarrow> avail_left (q\<lparr>last_avail_id := l\<rparr>) < avail_left q"
proof -
  assume l: "unat l = Suc (unat (last_avail_id q))"
  have "unat l < 65536" using unsigned_less [of l] by simp
  with l show ?thesis by (simp add: avail_left_def)
qed

lemma avail_left_used [simp]: "avail_left (q\<lparr>used_id := u\<rparr>) = avail_left q"
  by (simp add: avail_left_def)

lemma get_next_avail_idE:
  assumes "get_next_avail_id q m = Some (r, q')"
  obtains "r = None" "q' = q"
  | i l where "r = Some i" "q' = q\<lparr>last_avail_id := l\<rparr>" "unat l = Suc (unat (last_avail_id q))"
  using assms by (auto simp: get_next_avail_id_def bind_eq_Some_conv dest!: wadd_one split: if_splits)

lemma write_usedE:
  assumes "write_used i len q m = Some (q', m')"
  obtains u where "q' = q\<lparr>used_id := u\<rparr>" "unat u = Suc (unat (used_id q))"
  using assms by (auto simp: write_used_def bind_eq_Some_conv Let_def dest!: wadd_one)

lemma recompute_rings_wf:
  "recompute_rings page_size q = Some q' \<Longrightarrow> queue_size q < usize_limit \<Longrightarrow> descriptor q < usize_limit \<Longrightarrow> queue_wf q'"
  by (auto simp: recompute_rings_def queue_wf_def bind_eq_Some_conv uadd_def split: if_splits)

lemma get_physical_address_limit: "get_physical_address vm a = Some (Some x) \<Longrightarrow> x < usize_limit"
  by (auto simp: get_physical_address_def translate_guest_physical_address_def bind_eq_Some_conv uadd_def usub_def split: if_splits)

lemma unat_limit [simp]: "unat (x :: u64) < usize_limit"
  using unsigned_less [of x] by (simp add: usize_limit_def)


lemma queue_sel_less: "v < 2 \<Longrightarrow> unat v < 2" for v :: u64
  using unat_mono [of v 2] by simp

end
