(* ===== verification/Virtio_Net.thy ===== *)
theory Virtio_Net
  imports Virtio_Queue
begin

text \<open>
  The emulated network device: \<^verbatim>\<open>mmio/virtio_net.rs\<close>.  The physical network driver is the
  parameter \<open>send\<close>: it is given the address and length of the frame and the memory, and
  changes only its own state.  Lines printed for diagnosis are left out.
\<close>

definition VIRTIO_NET_INT_ID :: u32 where "VIRTIO_NET_INT_ID = 49"
definition GUEST_QUEUE_SIZE :: usize where "GUEST_QUEUE_SIZE = 32"
definition VIRTIO_NET_HDR_SIZE :: usize where "VIRTIO_NET_HDR_SIZE = 10"
definition VIRTIO_NET_F_MAC :: u32 where "VIRTIO_NET_F_MAC = push_bit 5 1"
definition QUEUE_INDEX_RX :: nat where "QUEUE_INDEX_RX = 0"
definition QUEUE_INDEX_TX :: nat where "QUEUE_INDEX_TX = 1"

record VirtioNetMmio =
  mac :: "u8 list"
  net_interrupt_status :: u32
  net_status :: u32
  net_page_size :: usize
  net_queue_sel :: usize
  net_device_features_sel :: u32
  net_queues :: "QueueState list"

record 'n net_env =
  ne_mem :: bmem
  ne_gic :: "gicd \<times> pcpu"
  ne_physical :: "'n option"

definition VirtioNetMmio_new :: "u8 list \<Rightarrow> VirtioNetMmio" where
  "VirtioNetMmio_new a = \<lparr>mac = a, net_interrupt_status = 0, net_status = 0, net_page_size = 2 ^ 12,
     net_queue_sel = 0, net_device_features_sel = 0, net_queues = [QueueState_new, QueueState_new]\<rparr>"

definition net_put_queue :: "nat \<Rightarrow> QueueState \<Rightarrow> VirtioNetMmio \<Rightarrow> VirtioNetMmio" where
  "net_put_queue i q d = d\<lparr>net_queues := (net_queues d)[i := q]\<rparr>"

definition net_interrupt :: "VirtioNetMmio \<times> 'n net_env \<Rightarrow> (VirtioNetMmio \<times> 'n net_env) option" where
  "net_interrupt = (\<lambda>(d, e). do {
     (g, p, injected) \<leftarrow> trigger_interrupt VIRTIO_NET_INT_ID None (ne_gic e);
     Some (d\<lparr>net_interrupt_status := net_interrupt_status d OR 1\<rparr>, e\<lparr>ne_gic := (g, p)\<rparr>) })"

definition net_push_rx :: "guest_ram \<Rightarrow> u8 list \<Rightarrow> VirtioNetMmio \<times> 'n net_env \<Rightarrow> (VirtioNetMmio \<times> 'n net_env) option" where
  "net_push_rx vm data = (\<lambda>(d, e). do {
     rx \<leftarrow> get_at (net_queues d) QUEUE_INDEX_RX;
     (r, rx) \<leftarrow> get_next_avail_id rx (ne_mem e);
     let d = net_put_queue QUEUE_INDEX_RX rx d;
     (case r of
        None \<Rightarrow> Some (d, e)
      | Some i \<Rightarrow> do {
          r \<leftarrow> get_descriptor_id rx (ne_mem e) i;
          (case r of
             None \<Rightarrow> Some (d, e)
           | Some descriptor_id \<Rightarrow> do {
               r \<leftarrow> get_descriptor rx (ne_mem e) descriptor_id;
               (case r of
                  None \<Rightarrow> Some (d, e)
                | Some desc \<Rightarrow>
                    if unat (vd_length desc) < VIRTIO_NET_HDR_SIZE + length data then Some (d, e)
                    else do {
                      r \<leftarrow> get_physical_address vm (unat (vd_address desc));
                      (case r of
                         None \<Rightarrow> Some (d, e)
                       | Some address \<Rightarrow> do {
                           let m = put_bytes address (replicate VIRTIO_NET_HDR_SIZE 0) (ne_mem e);
                           b \<leftarrow> uadd address VIRTIO_NET_HDR_SIZE;
                           let m = put_bytes b data m;
                           (rx, m) \<leftarrow> write_used descriptor_id (of_nat (VIRTIO_NET_HDR_SIZE + length data)) rx m;
                           net_interrupt (net_put_queue QUEUE_INDEX_RX rx d, e\<lparr>ne_mem := m\<rparr>) }) }) }) }) })"

definition physical_send :: "(usize \<Rightarrow> usize \<Rightarrow> bmem \<Rightarrow> 'n \<Rightarrow> (unit + unit) \<times> 'n) \<Rightarrow> usize \<Rightarrow> usize \<Rightarrow> 'n net_env \<Rightarrow> 'n net_env" where
  "physical_send send address len e =
     e\<lparr>ne_physical := map_option (\<lambda>n. snd (send address len (ne_mem e) n)) (ne_physical e)\<rparr>"

definition net_tx_step ::
  "(usize \<Rightarrow> usize \<Rightarrow> bmem \<Rightarrow> 'n \<Rightarrow> (unit + unit) \<times> 'n) \<Rightarrow> guest_ram \<Rightarrow> VirtioNetMmio \<times> 'n net_env \<Rightarrow>
   (progress \<times> VirtioNetMmio \<times> 'n net_env) option" where
  "net_tx_step send vm = (\<lambda>(d, e). do {
     tx \<leftarrow> get_at (net_queues d) QUEUE_INDEX_TX;
     (r, tx) \<leftarrow> get_next_avail_id tx (ne_mem e);
     let d = net_put_queue QUEUE_INDEX_TX tx d;
     (case r of
        None \<Rightarrow> Some (Empty, d, e)
      | Some i \<Rightarrow> do {
          r \<leftarrow> get_descriptor_id tx (ne_mem e) i;
          (case r of
             None \<Rightarrow> Some (Return, d, e)
           | Some descriptor_id \<Rightarrow> do {
               r \<leftarrow> get_descriptor tx (ne_mem e) descriptor_id;
               (case r of
                  None \<Rightarrow> Some (Return, d, e)
                | Some header \<Rightarrow>
                    if vd_flags header AND VIRT_QUEUE_DESC_FLAGS_NEXT = 0 then Some (Again, d, e)
                    else do {
                      r \<leftarrow> get_descriptor tx (ne_mem e) (vd_next header);
                      (case r of
                         None \<Rightarrow> Some (Return, d, e)
                       | Some desc \<Rightarrow> do {
                           total_length \<leftarrow> wadd (vd_length header) (vd_length desc);
                           r \<leftarrow> get_physical_address vm (unat (vd_address desc));
                           let e = (case r of None \<Rightarrow> e
                                    | Some address \<Rightarrow> physical_send send address (unat (vd_length desc)) e);
                           (tx, m) \<leftarrow> write_used descriptor_id total_length tx (ne_mem e);
                           Some (Again, net_put_queue QUEUE_INDEX_TX tx d, e\<lparr>ne_mem := m\<rparr>) }) }) }) }) })"

definition net_process_tx ::
  "(usize \<Rightarrow> usize \<Rightarrow> bmem \<Rightarrow> 'n \<Rightarrow> (unit + unit) \<times> 'n) \<Rightarrow> guest_ram \<Rightarrow> VirtioNetMmio \<times> 'n net_env \<Rightarrow>
   (VirtioNetMmio \<times> 'n net_env) option" where
  "net_process_tx send vm s = do {
     (p, s) \<leftarrow> serve (net_tx_step send vm) s;
     if p = Return then Some s else net_interrupt s }"

section \<open>Registers\<close>

definition net_read :: "usize \<Rightarrow> u64 \<Rightarrow> VirtioNetMmio \<Rightarrow> ((unit + u64) \<times> VirtioNetMmio) option" where
  "net_read offset access_width d = do {
     v \<leftarrow> (if offset = VIRTIO_MMIO_MAGIC then Some (ucast VIRTIO_MMIO_MAGIC_VALUE)
       else if offset = VIRTIO_MMIO_VERSION then Some 0x01
       else if offset = VIRTIO_MMIO_DEVICE_ID then Some (ucast VIRTIO_ID_NET)
       else if offset = VIRTIO_MMIO_VENDOR_ID then Some 0x554d4551
       else if offset = VIRTIO_MMIO_DEVICE_FEATURES then
         Some (if net_device_features_sel d = 0 then ucast VIRTIO_NET_F_MAC else 0)
       else if offset = VIRTIO_MMIO_QUEUE_NUM_MAX then Some (of_nat GUEST_QUEUE_SIZE)
       else if offset = VIRTIO_MMIO_QUEUE_PFN then do {
         q \<leftarrow> get_at (net_queues d) (net_queue_sel d);
         n \<leftarrow> udiv (descriptor q) (net_page_size d);
         Some (of_nat n) }
       else if offset = VIRTIO_MMIO_INTERRUPT_STATUS then Some (ucast (net_interrupt_status d))
       else if offset = VIRTIO_MMIO_STATUS then Some (ucast (net_status d))
       else if VIRTIO_CONFIG_OFFSET \<le> offset then
         (let config_offset = offset - VIRTIO_CONFIG_OFFSET
          in if config_offset < 6 then map_option ucast (get_at (mac d) config_offset)
             else if config_offset = 6 then Some 1 else Some 0)
       else Some 0);
     Some (Inr v, d) }"

definition net_write ::
  "(usize \<Rightarrow> usize \<Rightarrow> bmem \<Rightarrow> 'n \<Rightarrow> (unit + unit) \<times> 'n) \<Rightarrow> guest_ram \<Rightarrow> usize \<Rightarrow> u64 \<Rightarrow> u64 \<Rightarrow> VirtioNetMmio \<times> 'n net_env \<Rightarrow>
   ((unit + unit) \<times> VirtioNetMmio \<times> 'n net_env) option" where
  "net_write send vm offset access_width v = (\<lambda>(d, e). do {
     s \<leftarrow> (if offset = VIRTIO_MMIO_DEVICE_FEATURES_SEL then Some (d\<lparr>net_device_features_sel := ucast v\<rparr>, e)
       else if offset = VIRTIO_MMIO_DRIVER_FEATURES_SEL \<or> offset = VIRTIO_MMIO_DRIVER_FEATURES then Some (d, e)
       else if offset = VIRTIO_MMIO_GUEST_PAGE_SIZE then Some (d\<lparr>net_page_size := unat v\<rparr>, e)
       else if offset = VIRTIO_MMIO_QUEUE_SEL then
         Some (if v < 2 then d\<lparr>net_queue_sel := unat v\<rparr> else d, e)
       else if offset = VIRTIO_MMIO_QUEUE_NUM then do {
         q \<leftarrow> get_at (net_queues d) (net_queue_sel d);
         q \<leftarrow> recompute_rings (net_page_size d) (q\<lparr>queue_size := unat v\<rparr>);
         Some (net_put_queue (net_queue_sel d) q d, e) }
       else if offset = VIRTIO_MMIO_QUEUE_PFN then do {
         a \<leftarrow> umul (unat v) (net_page_size d);
         r \<leftarrow> get_physical_address vm a;
         (case r of
            None \<Rightarrow> Some (d, e)
          | Some address \<Rightarrow> do {
              q \<leftarrow> get_at (net_queues d) (net_queue_sel d);
              q \<leftarrow> recompute_rings (net_page_size d) (q\<lparr>descriptor := address\<rparr>);
              Some (net_put_queue (net_queue_sel d) q d, e) }) }
       else if offset = VIRTIO_MMIO_QUEUE_NOTIFY then
         (if unat v = QUEUE_INDEX_TX then net_process_tx send vm (d, e) else Some (d, e))
       else if offset = VIRTIO_MMIO_INTERRUPT_ACK then
         Some (d\<lparr>net_interrupt_status := net_interrupt_status d AND NOT (ucast v)\<rparr>, e)
       else if offset = VIRTIO_MMIO_STATUS then
         Some (if v = 0
               then d\<lparr>net_page_size := 2 ^ 12, net_interrupt_status := 0, net_status := 0, net_queue_sel := 0,
                      net_device_features_sel := 0, net_queues := map QueueState_reset (net_queues d)\<rparr>
               else d\<lparr>net_status := ucast v\<rparr>, e)
       else Some (d, e));
     Some (Inr (), s) })"

section \<open>The shape of the device\<close>

definition net_wf :: "VirtioNetMmio \<Rightarrow> bool" where
  "net_wf d \<longleftrightarrow> length (mac d) = 6 \<and> net_page_size d < usize_limit \<and> net_queue_sel d < 2 \<and>
     length (net_queues d) = 2 \<and> list_all queue_wf (net_queues d)"

lemma net_wf_new: "length a = 6 \<Longrightarrow> net_wf (VirtioNetMmio_new a)"
  by (simp add: net_wf_def VirtioNetMmio_new_def usize_limit_def)

lemma net_wf_fields [simp]:
  "net_wf (d\<lparr>net_device_features_sel := x\<rparr>) = net_wf d"
  "net_wf (d\<lparr>net_interrupt_status := x\<rparr>) = net_wf d"
  "net_wf (d\<lparr>net_status := x\<rparr>) = net_wf d"
  "net_wf d \<Longrightarrow> net_wf (d\<lparr>net_page_size := unat (v :: u64)\<rparr>)"
  by (simp_all add: net_wf_def)

lemma net_wf_put [simp]: "net_wf d \<Longrightarrow> queue_wf q \<Longrightarrow> net_wf (net_put_queue i q d)"
  by (simp add: net_wf_def net_put_queue_def list_all_update)

lemma net_wf_queue: "net_wf d \<Longrightarrow> get_at (net_queues d) i = Some q \<Longrightarrow> queue_wf q"
  by (auto simp: net_wf_def get_at_def list_all_nth split: if_splits)

lemma net_interrupt_wf: "net_interrupt (d, e) = Some (d', e') \<Longrightarrow> net_wf d \<Longrightarrow> net_wf d'"
  by (auto simp: net_interrupt_def net_wf_def bind_eq_Some_conv)

lemma net_put_put [simp]: "net_put_queue i q (net_put_queue i q' d) = net_put_queue i q d"
  by (simp add: net_put_queue_def)

lemma net_tx_step_spec:
  "ensures (net_tx_step send vm (d, e)) (\<lambda>(p, d', e'). \<exists>q q'. get_at (net_queues d) QUEUE_INDEX_TX = Some q \<and>
     d' = net_put_queue QUEUE_INDEX_TX q' d \<and> queue_wf q' = queue_wf q \<and>
     (p = Again \<longrightarrow> avail_left q' < avail_left q))"
  unfolding net_tx_step_def prod.case
  by (intro body_intros) (auto elim!: get_next_avail_idE write_usedE)

lemmas net_tx_stepE = net_tx_step_spec [unfolded ensures_def, rule_format, elim_format]

interpretation net_tx: queue_server "net_tx_step send vm" "\<lambda>(d, e). net_wf d"
  "\<lambda>(d, e). avail_left (net_queues d ! QUEUE_INDEX_TX)" for send vm
proof
  fix s s' :: "VirtioNetMmio \<times> 'a net_env" and p
  obtain d e d' e' where s: "s = (d, e)" "s' = (d', e')" by (cases s; cases s')
  {
    assume "case s of (d, e) \<Rightarrow> net_wf d" "net_tx_step send vm s = Some (p, s')"
    then show "case s' of (d, e) \<Rightarrow> net_wf d" unfolding s prod.case
      by (elim net_tx_stepE) (auto simp: net_wf_queue)
  next
    assume "case s of (d, e) \<Rightarrow> net_wf d" "net_tx_step send vm s = Some (Again, s')"
    then show "(case s' of (d, e) \<Rightarrow> avail_left (net_queues d ! QUEUE_INDEX_TX))
      < (case s of (d, e) \<Rightarrow> avail_left (net_queues d ! QUEUE_INDEX_TX))" unfolding s prod.case
      by (elim net_tx_stepE) (auto simp: net_put_queue_def get_at_def split: if_splits)
  }
qed


lemma net_process_tx_wf:
  assumes "net_process_tx send vm (d, e) = Some (d', e')" "net_wf d"
  shows "net_wf d'"
proof -
  from assms(1) obtain p d1 e1 where s: "serve (net_tx_step send vm) (d, e) = Some (p, d1, e1)"
    and r: "(if p = Return then Some (d1, e1) else net_interrupt (d1, e1)) = Some (d', e')"
    by (auto simp: net_process_tx_def bind_eq_Some_conv)
  from net_tx.serve_kept [OF _ s] assms(2) have "net_wf d1" by simp
  with r show ?thesis by (auto split: if_splits dest: net_interrupt_wf)
qed

lemma net_push_rx_wf: "net_wf d \<Longrightarrow> ensures (net_push_rx vm data (d, e)) (\<lambda>(d', e'). net_wf d')"
  unfolding net_push_rx_def prod.case
  by (intro body_intros)
    (auto elim!: get_next_avail_idE write_usedE simp: net_wf_queue ensures_def dest!: net_interrupt_wf)

lemma net_write_wf:
  assumes "net_wf d"
  shows "ensures (net_write send vm offset width v (d, e)) (\<lambda>(r, d', e'). r = Inr () \<and> net_wf d')"
proof -
  have q: "net_wf (d\<lparr>net_queue_sel := unat v\<rparr>)" if "v < 2" using assms that by (simp add: net_wf_def queue_sel_less)
  have n: "net_wf (net_put_queue i q' d)"
    if "get_at (net_queues d) i = Some q" "recompute_rings p (q\<lparr>queue_size := unat v\<rparr>) = Some q'" for i p q q'
    using assms recompute_rings_wf [OF that(2)] queue_wf_bounds [OF net_wf_queue [OF assms that(1)]] by simp
  have f: "net_wf (net_put_queue i q' d)"
    if "get_at (net_queues d) i = Some q" "recompute_rings p (q\<lparr>descriptor := x\<rparr>) = Some q'"
      "get_physical_address vm a = Some (Some x)" for i p q q' a x
    using assms recompute_rings_wf [OF that(2)] queue_wf_bounds [OF net_wf_queue [OF assms that(1)]]
      get_physical_address_limit [OF that(3)] by simp
  have z: "net_wf (d\<lparr>net_page_size := 4096, net_interrupt_status := 0, net_status := 0, net_queue_sel := 0,
                      net_device_features_sel := 0, net_queues := map QueueState_reset (net_queues d)\<rparr>)"
    using assms by (auto simp: net_wf_def usize_limit_def QueueState_reset_def list_all_iff)
  show ?thesis unfolding net_write_def prod.case
    by (intro body_intros) (auto split: if_splits option.splits simp: bind_eq_Some_conv assms q z dest: n f net_process_tx_wf)
qed


lemma net_read_spec:
  assumes "net_wf d"
  shows "net_read offset width d = None \<longleftrightarrow> offset = VIRTIO_MMIO_QUEUE_PFN \<and> net_page_size d = 0"
    and "ensures (net_read offset width d) (\<lambda>(r, d'). d' = d \<and> \<not> isl r)"
proof -
  have q: "get_at (net_queues d) (net_queue_sel d) = Some (net_queues d ! net_queue_sel d)"
    using assms by (simp add: net_wf_def)
  have m: "get_at (mac d) i = Some (mac d ! i)" if "i < 6" for i using assms that by (simp add: net_wf_def)
  show "net_read offset width d = None \<longleftrightarrow> offset = VIRTIO_MMIO_QUEUE_PFN \<and> net_page_size d = 0"
    by (simp add: net_read_def udiv_def virtio_offsets Let_def q m)
  show "ensures (net_read offset width d) (\<lambda>(r, d'). d' = d \<and> \<not> isl r)"
    unfolding net_read_def by (intro body_intros) simp
qed

end
