(* ===== verification/Virtio_Console.thy ===== *)
theory Virtio_Console
  imports Virtio_Queue
begin

text \<open>
  The emulated console: \<^verbatim>\<open>mmio/virtio_console.rs\<close>.  What the guest writes is printed on
  the serial port, what arrives from it waits in a staging buffer until the guest has posted a
  receive buffer.  Lines printed for diagnosis are left out.
\<close>

definition VIRTIO_CONSOLE_INT_ID :: u32 where "VIRTIO_CONSOLE_INT_ID = 50"
definition CONSOLE_QUEUE_SIZE :: usize where "CONSOLE_QUEUE_SIZE = 32"
definition VIRTIO_ID_CONSOLE :: u32 where "VIRTIO_ID_CONSOLE = 3"
definition CONSOLE_QUEUE_RX :: nat where "CONSOLE_QUEUE_RX = 0"
definition CONSOLE_QUEUE_TX :: nat where "CONSOLE_QUEUE_TX = 1"
definition RX_STAGING_SIZE :: nat where "RX_STAGING_SIZE = 256"

record VirtioConsoleMmio =
  con_interrupt_status :: u32
  con_status :: u32
  con_page_size :: usize
  con_queue_sel :: usize
  con_device_features_sel :: u32
  con_queues :: "QueueState list"
  rx_staging :: "u8 list"
  rx_staging_len :: nat

record con_env =
  ce_mem :: bmem
  ce_gic :: "gicd \<times> pcpu"
  ce_serial :: serial
  VCONSOLE_TX_BUFS :: u64
  VCONSOLE_TX_BYTES :: u64

definition VirtioConsoleMmio_new :: VirtioConsoleMmio where
  "VirtioConsoleMmio_new = \<lparr>con_interrupt_status = 0, con_status = 0, con_page_size = 2 ^ 12, con_queue_sel = 0,
     con_device_features_sel = 0, con_queues = [QueueState_new, QueueState_new],
     rx_staging = replicate RX_STAGING_SIZE 0, rx_staging_len = 0\<rparr>"

definition con_put_queue :: "nat \<Rightarrow> QueueState \<Rightarrow> VirtioConsoleMmio \<Rightarrow> VirtioConsoleMmio" where
  "con_put_queue i q d = d\<lparr>con_queues := (con_queues d)[i := q]\<rparr>"

definition con_interrupt :: "VirtioConsoleMmio \<times> con_env \<Rightarrow> (VirtioConsoleMmio \<times> con_env) option" where
  "con_interrupt = (\<lambda>(d, e). do {
     (g, p, injected) \<leftarrow> trigger_interrupt VIRTIO_CONSOLE_INT_ID None (ce_gic e);
     Some (d\<lparr>con_interrupt_status := con_interrupt_status d OR 1\<rparr>, e\<lparr>ce_gic := (g, p)\<rparr>) })"

section \<open>Input\<close>

text \<open>The first byte leaves the staging buffer: \<open>copy_within(1..len, 0)\<close> and one byte less.\<close>

definition unstage :: "VirtioConsoleMmio \<Rightarrow> VirtioConsoleMmio" where
  "unstage d =
     (let n = rx_staging_len d
      in d\<lparr>rx_staging := drop 1 (take n (rx_staging d)) @ drop (n - 1) (rx_staging d), rx_staging_len := n - 1\<rparr>)"

text \<open>The state of the loop includes the flag \<open>injected\<close>.\<close>

definition flush_rx_step :: "guest_ram \<Rightarrow> VirtioConsoleMmio \<times> con_env \<times> bool \<Rightarrow>
    (progress \<times> VirtioConsoleMmio \<times> con_env \<times> bool) option" where
  "flush_rx_step vm = (\<lambda>(d, e, injected).
     if rx_staging_len d = 0 then Some (Empty, d, e, injected)
     else do {
       rx \<leftarrow> get_at (con_queues d) CONSOLE_QUEUE_RX;
       (r, rx) \<leftarrow> get_next_avail_id rx (ce_mem e);
       let d = con_put_queue CONSOLE_QUEUE_RX rx d;
       (case r of
          None \<Rightarrow> Some (Empty, d, e, injected)
        | Some i \<Rightarrow> do {
            r \<leftarrow> get_descriptor_id rx (ce_mem e) i;
            (case r of
               None \<Rightarrow> Some (Empty, d, e, injected)
             | Some descriptor_id \<Rightarrow> do {
                 r \<leftarrow> get_descriptor rx (ce_mem e) descriptor_id;
                 (case r of
                    None \<Rightarrow> Some (Empty, d, e, injected)
                  | Some desc \<Rightarrow>
                      if vd_length desc = 0 then Some (Empty, d, e, injected)
                      else do {
                        r \<leftarrow> get_physical_address vm (unat (vd_address desc));
                        (case r of
                           None \<Rightarrow> Some (Empty, d, e, injected)
                         | Some address \<Rightarrow> do {
                             data \<leftarrow> get_at (rx_staging d) 0;
                             let m = put_bytes address [data] (ce_mem e);
                             let d = unstage d;
                             (rx, m) \<leftarrow> write_used descriptor_id 1 rx m;
                             Some (Again, con_put_queue CONSOLE_QUEUE_RX rx d, e\<lparr>ce_mem := m\<rparr>, True) }) }) }) }) })"

definition flush_rx :: "guest_ram \<Rightarrow> VirtioConsoleMmio \<times> con_env \<Rightarrow> (VirtioConsoleMmio \<times> con_env) option" where
  "flush_rx vm = (\<lambda>(d, e). do {
     (p, d, e, injected) \<leftarrow> serve (flush_rx_step vm) (d, e, False);
     if injected then con_interrupt (d, e) else Some (d, e) })"

definition stage :: "u8 \<Rightarrow> VirtioConsoleMmio \<Rightarrow> VirtioConsoleMmio option" where
  "stage data d =
     (if rx_staging_len d < RX_STAGING_SIZE then do {
        s \<leftarrow> set_at (rx_staging d) (rx_staging_len d) data;
        Some (d\<lparr>rx_staging := s, rx_staging_len := rx_staging_len d + 1\<rparr>) }
      else Some d)"

definition con_push_rx :: "guest_ram \<Rightarrow> u8 \<Rightarrow> VirtioConsoleMmio \<times> con_env \<Rightarrow> (VirtioConsoleMmio \<times> con_env) option" where
  "con_push_rx vm data = (\<lambda>(d, e). do {
     d \<leftarrow> stage data d;
     flush_rx vm (d, e) })"

section \<open>Output\<close>

definition print_buffer :: "u8 list \<Rightarrow> serial \<Rightarrow> serial" where
  "print_buffer bytes out =
     (if utf8_valid bytes then print bytes out else fold (\<lambda>b. print (encode_char b)) bytes out)"

definition con_tx_step :: "guest_ram \<Rightarrow> VirtioConsoleMmio \<times> con_env \<times> bool \<Rightarrow>
    (progress \<times> VirtioConsoleMmio \<times> con_env \<times> bool) option" where
  "con_tx_step vm = (\<lambda>(d, e, handled). do {
     tx \<leftarrow> get_at (con_queues d) CONSOLE_QUEUE_TX;
     (r, tx) \<leftarrow> get_next_avail_id tx (ce_mem e);
     let d = con_put_queue CONSOLE_QUEUE_TX tx d;
     (case r of
        None \<Rightarrow> Some (Empty, d, e, handled)
      | Some i \<Rightarrow> do {
          r \<leftarrow> get_descriptor_id tx (ce_mem e) i;
          (case r of
             None \<Rightarrow> Some (Return, d, e, handled)
           | Some descriptor_id \<Rightarrow> do {
               r \<leftarrow> get_descriptor tx (ce_mem e) descriptor_id;
               (case r of
                  None \<Rightarrow> Some (Return, d, e, handled)
                | Some desc \<Rightarrow> do {
                    r \<leftarrow> get_physical_address vm (unat (vd_address desc));
                    (case r of
                       None \<Rightarrow> Some (Return, d, e, handled)
                     | Some address \<Rightarrow> do {
                         let bytes = get_bytes (ce_mem e) address (unat (vd_length desc));
                         let e = e\<lparr>ce_serial := print_buffer bytes (ce_serial e),
                                   VCONSOLE_TX_BUFS := VCONSOLE_TX_BUFS e + 1,
                                   VCONSOLE_TX_BYTES := VCONSOLE_TX_BYTES e + ucast (vd_length desc)\<rparr>;
                         (tx, m) \<leftarrow> write_used descriptor_id (vd_length desc) tx (ce_mem e);
                         Some (Again, con_put_queue CONSOLE_QUEUE_TX tx d, e\<lparr>ce_mem := m\<rparr>, True) }) }) }) }) })"

definition con_process_tx :: "guest_ram \<Rightarrow> VirtioConsoleMmio \<times> con_env \<Rightarrow> (VirtioConsoleMmio \<times> con_env) option" where
  "con_process_tx vm = (\<lambda>(d, e). do {
     (p, d, e, handled) \<leftarrow> serve (con_tx_step vm) (d, e, False);
     if p \<noteq> Return \<and> handled then con_interrupt (d, e) else Some (d, e) })"

section \<open>Registers\<close>

definition con_read :: "usize \<Rightarrow> u64 \<Rightarrow> VirtioConsoleMmio \<Rightarrow> ((unit + u64) \<times> VirtioConsoleMmio) option" where
  "con_read offset access_width d = do {
     v \<leftarrow> (if offset = VIRTIO_MMIO_MAGIC then Some (ucast VIRTIO_MMIO_MAGIC_VALUE)
       else if offset = VIRTIO_MMIO_VERSION then Some 0x01
       else if offset = VIRTIO_MMIO_DEVICE_ID then Some (ucast VIRTIO_ID_CONSOLE)
       else if offset = VIRTIO_MMIO_VENDOR_ID then Some 0x554d4551
       else if offset = VIRTIO_MMIO_DEVICE_FEATURES then Some 0
       else if offset = VIRTIO_MMIO_QUEUE_NUM_MAX then Some (of_nat CONSOLE_QUEUE_SIZE)
       else if offset = VIRTIO_MMIO_QUEUE_PFN then do {
         q \<leftarrow> get_at (con_queues d) (con_queue_sel d);
         n \<leftarrow> udiv (descriptor q) (con_page_size d);
         Some (of_nat n) }
       else if offset = VIRTIO_MMIO_INTERRUPT_STATUS then Some (ucast (con_interrupt_status d))
       else if offset = VIRTIO_MMIO_STATUS then Some (ucast (con_status d))
       else Some 0);
     Some (Inr v, d) }"

definition con_write :: "guest_ram \<Rightarrow> usize \<Rightarrow> u64 \<Rightarrow> u64 \<Rightarrow> VirtioConsoleMmio \<times> con_env \<Rightarrow>
    ((unit + unit) \<times> VirtioConsoleMmio \<times> con_env) option" where
  "con_write vm offset access_width v = (\<lambda>(d, e). do {
     s \<leftarrow> (if offset = VIRTIO_MMIO_DEVICE_FEATURES_SEL then Some (d\<lparr>con_device_features_sel := ucast v\<rparr>, e)
       else if offset = VIRTIO_MMIO_DRIVER_FEATURES_SEL \<or> offset = VIRTIO_MMIO_DRIVER_FEATURES then Some (d, e)
       else if offset = VIRTIO_MMIO_GUEST_PAGE_SIZE then Some (d\<lparr>con_page_size := unat v\<rparr>, e)
       else if offset = VIRTIO_MMIO_QUEUE_SEL then
         Some (if v < 2 then d\<lparr>con_queue_sel := unat v\<rparr> else d, e)
       else if offset = VIRTIO_MMIO_QUEUE_NUM then do {
         q \<leftarrow> get_at (con_queues d) (con_queue_sel d);
         q \<leftarrow> recompute_rings (con_page_size d) (q\<lparr>queue_size := unat v\<rparr>);
         Some (con_put_queue (con_queue_sel d) q d, e) }
       else if offset = VIRTIO_MMIO_QUEUE_PFN then do {
         a \<leftarrow> umul (unat v) (con_page_size d);
         r \<leftarrow> get_physical_address vm a;
         (case r of
            None \<Rightarrow> Some (d, e)
          | Some address \<Rightarrow> do {
              q \<leftarrow> get_at (con_queues d) (con_queue_sel d);
              q \<leftarrow> recompute_rings (con_page_size d) (q\<lparr>descriptor := address\<rparr>);
              Some (con_put_queue (con_queue_sel d) q d, e) }) }
       else if offset = VIRTIO_MMIO_QUEUE_NOTIFY then
         (if unat v = CONSOLE_QUEUE_TX then con_process_tx vm (d, e)
          else if unat v = CONSOLE_QUEUE_RX then flush_rx vm (d, e) else Some (d, e))
       else if offset = VIRTIO_MMIO_INTERRUPT_ACK then
         Some (d\<lparr>con_interrupt_status := con_interrupt_status d AND NOT (ucast v)\<rparr>, e)
       else if offset = VIRTIO_MMIO_STATUS then
         Some (if v = 0
               then d\<lparr>con_page_size := 2 ^ 12, con_interrupt_status := 0, con_status := 0, con_queue_sel := 0,
                      con_device_features_sel := 0, con_queues := map QueueState_reset (con_queues d), rx_staging_len := 0\<rparr>
               else d\<lparr>con_status := ucast v\<rparr>, e)
       else Some (d, e));
     Some (Inr (), s) })"

section \<open>The shape of the device\<close>

definition con_wf :: "VirtioConsoleMmio \<Rightarrow> bool" where
  "con_wf d \<longleftrightarrow> con_page_size d < usize_limit \<and> con_queue_sel d < 2 \<and> length (con_queues d) = 2 \<and>
     list_all queue_wf (con_queues d) \<and> length (rx_staging d) = RX_STAGING_SIZE \<and> rx_staging_len d \<le> RX_STAGING_SIZE"

lemma con_wf_new: "con_wf VirtioConsoleMmio_new"
  by (simp add: con_wf_def VirtioConsoleMmio_new_def usize_limit_def)

lemma con_wf_fields [simp]:
  "con_wf (d\<lparr>con_device_features_sel := x\<rparr>) = con_wf d"
  "con_wf (d\<lparr>con_interrupt_status := x\<rparr>) = con_wf d"
  "con_wf (d\<lparr>con_status := x\<rparr>) = con_wf d"
  "con_wf d \<Longrightarrow> con_wf (d\<lparr>con_page_size := unat (v :: u64)\<rparr>)"
  by (simp_all add: con_wf_def)

lemma con_wf_put [simp]: "con_wf d \<Longrightarrow> queue_wf q \<Longrightarrow> con_wf (con_put_queue i q d)"
  by (simp add: con_wf_def con_put_queue_def list_all_update)

lemma con_wf_queue: "con_wf d \<Longrightarrow> get_at (con_queues d) i = Some q \<Longrightarrow> queue_wf q"
  by (auto simp: con_wf_def get_at_def list_all_nth split: if_splits)

lemma con_put_put [simp]: "con_put_queue i q (con_put_queue i q' d) = con_put_queue i q d"
  by (simp add: con_put_queue_def)

lemma con_put_staging [simp]:
  "rx_staging (con_put_queue i q d) = rx_staging d" "rx_staging_len (con_put_queue i q d) = rx_staging_len d"
  by (simp_all add: con_put_queue_def)

lemma con_interrupt_wf: "con_interrupt (d, e) = Some (d', e') \<Longrightarrow> con_wf d \<Longrightarrow> con_wf d'"
  by (auto simp: con_interrupt_def bind_eq_Some_conv)

lemma unstage_wf: "con_wf d \<Longrightarrow> 0 < rx_staging_len d \<Longrightarrow> con_wf (unstage d)"
  by (auto simp: con_wf_def unstage_def Let_def)

lemma stage_wf: "con_wf d \<Longrightarrow> returns (stage c d) con_wf"
  by (auto simp: con_wf_def stage_def returns_def set_at_def)

lemma flush_rx_step_spec:
  assumes "con_wf d"
  shows "ensures (flush_rx_step vm (d, e, h)) (\<lambda>(p, d', e', h'). con_wf d' \<and> (p = Again \<longrightarrow> rx_staging_len d' < rx_staging_len d))"
proof -
  have u: "rx_staging_len (unstage (con_put_queue i q d)) < rx_staging_len d" if "0 < rx_staging_len d" for i q
    using that by (simp add: unstage_def Let_def)
  show ?thesis unfolding flush_rx_step_def prod.case
    by (intro body_intros)
      (auto elim!: get_next_avail_idE write_usedE simp: unstage_wf u assms dest!: con_wf_queue [OF assms])
qed

lemma con_tx_step_spec:
  "ensures (con_tx_step vm (d, e, h)) (\<lambda>(p, d', e', h'). \<exists>q q'. get_at (con_queues d) CONSOLE_QUEUE_TX = Some q \<and>
     d' = con_put_queue CONSOLE_QUEUE_TX q' d \<and> queue_wf q' = queue_wf q \<and> (p = Again \<longrightarrow> avail_left q' < avail_left q))"
  unfolding con_tx_step_def prod.case
  by (intro body_intros) (auto elim!: get_next_avail_idE write_usedE)

interpretation con_rx: queue_server "flush_rx_step vm" "\<lambda>(d, e, h). con_wf d" "\<lambda>(d, e, h). rx_staging_len d" for vm
  by unfold_locales (use flush_rx_step_spec in \<open>fastforce simp: ensures_def split_beta\<close>)+

lemma con_tx_step_kept:
  assumes "con_wf d" "con_tx_step vm (d, e, h) = Some (p, d', e', h')"
  shows "con_wf d' \<and> (p = Again \<longrightarrow> avail_left (con_queues d' ! CONSOLE_QUEUE_TX) < avail_left (con_queues d ! CONSOLE_QUEUE_TX))"
proof -
  from con_tx_step_spec [of vm d e h] assms(2) obtain q q' where q: "get_at (con_queues d) CONSOLE_QUEUE_TX = Some q"
    "d' = con_put_queue CONSOLE_QUEUE_TX q' d" "queue_wf q' = queue_wf q" "p = Again \<longrightarrow> avail_left q' < avail_left q"
    by (auto simp: ensures_def)
  moreover from q(1) have "con_queues (con_put_queue CONSOLE_QUEUE_TX q' d) ! CONSOLE_QUEUE_TX = q'" "con_queues d ! CONSOLE_QUEUE_TX = q"
    by (auto simp: con_put_queue_def get_at_eq_Some_iff)
  ultimately show ?thesis using assms(1) con_wf_queue [OF assms(1) q(1)] by simp
qed

interpretation con_tx: queue_server "con_tx_step vm" "\<lambda>(d, e, h). con_wf d"
  "\<lambda>(d, e, h). avail_left (con_queues d ! CONSOLE_QUEUE_TX)" for vm
  by unfold_locales (auto dest: con_tx_step_kept)

lemma flush_rx_wf: "con_wf d \<Longrightarrow> ensures (flush_rx vm (d, e)) (\<lambda>(d', e'). con_wf d')"
  by (auto simp: flush_rx_def ensures_def bind_eq_Some_conv dest!: con_rx.serve_kept [rotated] con_interrupt_wf split: if_splits)

lemma con_process_tx_wf: "con_wf d \<Longrightarrow> ensures (con_process_tx vm (d, e)) (\<lambda>(d', e'). con_wf d')"
  by (auto simp: con_process_tx_def ensures_def bind_eq_Some_conv dest!: con_tx.serve_kept [rotated] con_interrupt_wf split: if_splits)


lemma con_push_rx_wf: "con_wf d \<Longrightarrow> ensures (con_push_rx vm c (d, e)) (\<lambda>(d', e'). con_wf d')"
  using stage_wf [of d c] flush_rx_wf by (auto simp: con_push_rx_def ensures_def returns_def) blast

lemma con_write_wf:
  assumes "con_wf d"
  shows "ensures (con_write vm offset width v (d, e)) (\<lambda>(r, d', e'). r = Inr () \<and> con_wf d')"
proof -
  have q: "con_wf (d\<lparr>con_queue_sel := unat v\<rparr>)" if "v < 2" using assms that by (simp add: con_wf_def queue_sel_less)
  have n: "con_wf (con_put_queue i q' d)"
    if "get_at (con_queues d) i = Some q" "recompute_rings p (q\<lparr>queue_size := unat v\<rparr>) = Some q'" for i p q q'
    using assms recompute_rings_wf [OF that(2)] queue_wf_bounds [OF con_wf_queue [OF assms that(1)]] by simp
  have f: "con_wf (con_put_queue i q' d)"
    if "get_at (con_queues d) i = Some q" "recompute_rings p (q\<lparr>descriptor := x\<rparr>) = Some q'"
      "get_physical_address vm a = Some (Some x)" for i p q q' a x
    using assms recompute_rings_wf [OF that(2)] queue_wf_bounds [OF con_wf_queue [OF assms that(1)]]
      get_physical_address_limit [OF that(3)] by simp
  have z: "con_wf (d\<lparr>con_page_size := 4096, con_interrupt_status := 0, con_status := 0, con_queue_sel := 0,
                      con_device_features_sel := 0, con_queues := map QueueState_reset (con_queues d), rx_staging_len := 0\<rparr>)"
    using assms by (auto simp: con_wf_def usize_limit_def QueueState_reset_def list_all_iff)
  have t: "con_wf d'" if "con_process_tx vm (d, e) = Some (d', e')" for d' e'
    using con_process_tx_wf [OF assms, of vm e] that by (simp add: ensures_def)
  have l: "con_wf d'" if "flush_rx vm (d, e) = Some (d', e')" for d' e'
    using flush_rx_wf [OF assms, of vm e] that by (simp add: ensures_def)
  show ?thesis unfolding con_write_def prod.case
    by (intro body_intros) (auto split: if_splits option.splits simp: bind_eq_Some_conv assms q z dest: n f t l)
qed

lemma con_read_spec:
  assumes "con_wf d"
  shows "con_read offset width d = None \<longleftrightarrow> offset = VIRTIO_MMIO_QUEUE_PFN \<and> con_page_size d = 0"
    and "ensures (con_read offset width d) (\<lambda>(r, d'). d' = d \<and> \<not> isl r)"
proof -
  have q: "get_at (con_queues d) (con_queue_sel d) = Some (con_queues d ! con_queue_sel d)"
    using assms by (simp add: con_wf_def)
  show "con_read offset width d = None \<longleftrightarrow> offset = VIRTIO_MMIO_QUEUE_PFN \<and> con_page_size d = 0"
    by (simp add: con_read_def udiv_def virtio_offsets Let_def q)
  show "ensures (con_read offset width d) (\<lambda>(r, d'). d' = d \<and> \<not> isl r)"
    unfolding con_read_def by (intro body_intros) simp
qed

end
