(* ===== verification/Virtio_Blk.thy ===== *)
theory Virtio_Blk
  imports Virtio_Queue Fat32
begin

text \<open>
  The emulated disk: \<^verbatim>\<open>mmio/virtio_blk.rs\<close>, backed by a file of the FAT32 file system.  The
  device has its own copy of the queue fields and operations; other than those of \<open>QueueState\<close>,
  \<open>get_next_avail_id\<close> does not test for a null ring, and reading through a null pointer is
  \<open>None\<close>.  The physical counter is the parameter \<open>cntpct\<close>, which gives the value of
  each of its readings.  Lines printed for diagnosis are left out.
\<close>

definition VIRTIO_BLK_INT_ID :: u32 where "VIRTIO_BLK_INT_ID = 40"
definition VIRTIO_BLK_TYPE_IN :: u32 where "VIRTIO_BLK_TYPE_IN = 0"
definition VIRTIO_BLK_TYPE_OUT :: u32 where "VIRTIO_BLK_TYPE_OUT = 1"
definition VIRTIO_BLK_S_OK :: u8 where "VIRTIO_BLK_S_OK = 0"
definition VIRTIO_BLK_S_IOERR :: u8 where "VIRTIO_BLK_S_IOERR = 1"

record VirtioBlkReq =
  req_type :: u32
  req_reserved :: u32
  req_sector :: u64

definition load_req :: "bmem \<Rightarrow> usize \<Rightarrow> VirtioBlkReq" where
  "load_req m a = \<lparr>req_type = of_nat (load_le 4 m a), req_reserved = of_nat (load_le 4 m (a + 4)),
     req_sector = of_nat (load_le 8 m (a + 8))\<rparr>"

record VirtioBlkMmio = QueueState +
  blk_file :: FileInfo
  blk_interrupt_status :: u32
  blk_status :: u32
  blk_queue_ready :: bool
  blk_page_size :: usize
  config_read_logged :: bool

record 'd blk_env =
  be_fs :: "'d fsw"
  be_gic :: "gicd \<times> pcpu"
  be_readings :: nat
  VBLK_REQUESTS :: u64
  VBLK_BYTES :: u64
  VBLK_CYCLES_TOTAL :: u64
  VBLK_CYCLES_MAX :: u64

abbreviation be_mem :: "'d blk_env \<Rightarrow> bmem" where
  "be_mem e \<equiv> fs_mem (be_fs e)"

definition be_set_mem :: "bmem \<Rightarrow> 'd blk_env \<Rightarrow> 'd blk_env" where
  "be_set_mem m e = e\<lparr>be_fs := (be_fs e)\<lparr>fs_mem := m\<rparr>\<rparr>"

definition VirtioBlkMmio_new :: "FileInfo \<Rightarrow> VirtioBlkMmio option" where
  "VirtioBlkMmio_new fi =
     (if get_file_size fi mod 512 \<noteq> 0 then None
      else Some \<lparr>queue_size = 0, descriptor = 0, avail_ring = 0, used_ring = 0, last_avail_id = 0, used_id = 0,
        blk_file = fi, blk_interrupt_status = 0, blk_status = 0, blk_queue_ready = False,
        blk_page_size = 2 ^ 12, config_read_logged = False\<rparr>)"

section \<open>The queue\<close>

definition blk_get_descriptor :: "VirtioBlkMmio \<Rightarrow> bmem \<Rightarrow> u16 \<Rightarrow> VirtQueueDesc option option" where
  "blk_get_descriptor d m i =
     (if descriptor d \<noteq> 0 then do {
        a \<leftarrow> uadd (descriptor d) (16 * unat i);
        Some (Some (load_desc m a)) }
      else Some None)"

definition blk_get_descriptor_id :: "VirtioBlkMmio \<Rightarrow> bmem \<Rightarrow> u16 \<Rightarrow> u16 option option" where
  "blk_get_descriptor_id d m i =
     (if avail_ring d \<noteq> 0 then do {
        a \<leftarrow> uadd (avail_ring d) 4;
        a \<leftarrow> uadd a (2 * unat i);
        Some (Some (of_nat (load_le 2 m a))) }
      else Some None)"

definition blk_get_next_avail_id :: "VirtioBlkMmio \<Rightarrow> bmem \<Rightarrow> (u16 option \<times> VirtioBlkMmio) option" where
  "blk_get_next_avail_id d m =
     (if avail_ring d = 0 then None
      else if last_avail_id d = of_nat (load_le 2 m (avail_ring d + 2)) then Some (None, d)
      else do {
        n \<leftarrow> wmod (last_avail_id d) (of_nat (queue_size d));
        l \<leftarrow> wadd (last_avail_id d) 1;
        Some (Some n, d\<lparr>last_avail_id := l\<rparr>) })"

definition blk_write_used :: "u16 \<Rightarrow> u32 \<Rightarrow> VirtioBlkMmio \<Rightarrow> bmem \<Rightarrow> (VirtioBlkMmio \<times> bmem) option" where
  "blk_write_used i len d m = do {
     n \<leftarrow> wmod (used_id d) (of_nat (queue_size d));
     u \<leftarrow> wadd (used_id d) 1;
     a \<leftarrow> uadd (used_ring d) 4;
     a \<leftarrow> uadd a (8 * unat n);
     let m = store_le 4 a (unat i) m;
     let m = store_le 4 (a + 4) (unat len) m;
     Some (d\<lparr>used_id := u\<rparr>, store_le 2 (used_ring d + 2) (unat u) m) }"

definition blk_place_rings :: "VirtioBlkMmio \<Rightarrow> VirtioBlkMmio option" where
  "blk_place_rings d = do {
     t \<leftarrow> umul 16 (queue_size d);
     avail \<leftarrow> uadd (descriptor d) t;
     n \<leftarrow> uadd 3 (queue_size d);
     t \<leftarrow> umul 2 n;
     e \<leftarrow> uadd avail t;
     e \<leftarrow> usub e 1;
     _ \<leftarrow> usub (blk_page_size d) 1;
     used \<leftarrow> uadd (clear_low e (blk_page_size d)) (blk_page_size d);
     Some (d\<lparr>avail_ring := avail, used_ring := used\<rparr>) }"

section \<open>Requests\<close>

text \<open>One data descriptor: the transfer between the file and the guest's buffer.  The result says
  whether it succeeded.\<close>

definition blk_transfer ::
  "'d block_device \<Rightarrow> Fat32 \<Rightarrow> bool \<Rightarrow> usize \<Rightarrow> usize \<Rightarrow> usize \<Rightarrow> VirtioBlkMmio \<times> 'd blk_env \<Rightarrow>
   (bool \<times> VirtioBlkMmio \<times> 'd blk_env) option" where
  "blk_transfer blk f is_write address offset len = (\<lambda>(d, e). do {
     (r, fi, w) \<leftarrow>
       (if is_write then Fat32_write blk f (blk_file d) address offset len (be_fs e)
        else Fat32_read blk f (blk_file d) address offset len (be_fs e));
     Some (\<not> isl r, d\<lparr>blk_file := fi\<rparr>, e\<lparr>be_fs := w\<rparr>) })"

text \<open>The loop over the chain.  It ends at the first descriptor that has no successor, the one of
  the status byte, and returns it with the number of bytes and the status; it returns \<open>None\<close>
  in place of a descriptor when there is no table of descriptors.\<close>

partial_function (option) blk_chain ::
  "'d block_device \<Rightarrow> Fat32 \<Rightarrow> guest_ram \<Rightarrow> bool \<Rightarrow> usize \<Rightarrow> u32 \<Rightarrow> u8 \<Rightarrow> u16 \<Rightarrow> VirtioBlkMmio \<times> 'd blk_env \<Rightarrow>
   (VirtQueueDesc option \<times> u32 \<times> u8 \<times> VirtioBlkMmio \<times> 'd blk_env) option" where
  "blk_chain blk f vm is_write offset total_size status nxt s = do {
     r \<leftarrow> blk_get_descriptor (fst s) (be_mem (snd s)) nxt;
     (case r of
        None \<Rightarrow> Some (None, total_size, status, s)
      | Some desc \<Rightarrow>
          if vd_flags desc AND VIRT_QUEUE_DESC_FLAGS_NEXT = 0 then Some (Some desc, total_size, status, s)
          else do {
            total_size \<leftarrow> wadd total_size (vd_length desc);
            a \<leftarrow> get_physical_address vm (unat (vd_address desc));
            (case a of
               None \<Rightarrow> blk_chain blk f vm is_write offset total_size VIRTIO_BLK_S_IOERR (vd_next desc) s
             | Some address \<Rightarrow> do {
                 (ok, s) \<leftarrow> blk_transfer blk f is_write address offset (unat (vd_length desc)) s;
                 offset \<leftarrow> uadd offset (unat (vd_length desc));
                 blk_chain blk f vm is_write offset total_size (if ok then status else VIRTIO_BLK_S_IOERR)
                   (vd_next desc) s }) }) }"

definition blk_count :: "(nat \<Rightarrow> u64) \<Rightarrow> u64 \<Rightarrow> u32 \<Rightarrow> 'd blk_env \<Rightarrow> 'd blk_env option" where
  "blk_count cntpct start total_size e =
     (let now = cntpct (be_readings e)
      in if now < start then None
         else Some (e\<lparr>be_readings := be_readings e + 1, VBLK_REQUESTS := VBLK_REQUESTS e + 1,
           VBLK_BYTES := VBLK_BYTES e + ucast total_size,
           VBLK_CYCLES_TOTAL := VBLK_CYCLES_TOTAL e + (now - start),
           VBLK_CYCLES_MAX := max (VBLK_CYCLES_MAX e) (now - start)\<rparr>))"

text \<open>The end of a request: the status byte, the used ring and the counters.\<close>

definition blk_complete ::
  "(nat \<Rightarrow> u64) \<Rightarrow> guest_ram \<Rightarrow> u64 \<Rightarrow> u16 \<Rightarrow> VirtQueueDesc \<Rightarrow> u32 \<Rightarrow> u8 \<Rightarrow> VirtioBlkMmio \<times> 'd blk_env \<Rightarrow>
   (VirtioBlkMmio \<times> 'd blk_env) option" where
  "blk_complete cntpct vm start descriptor_id desc total_size status = (\<lambda>(d, e). do {
     a \<leftarrow> get_physical_address vm (unat (vd_address desc));
     (total_size, e) \<leftarrow>
       (case a of
          None \<Rightarrow> Some (total_size, e)
        | Some a \<Rightarrow> do {
            total_size \<leftarrow> wadd total_size (vd_length desc);
            Some (total_size, be_set_mem (put_bytes a [status] (be_mem e)) e) });
     (d, m) \<leftarrow> blk_write_used descriptor_id total_size d (be_mem e);
     e \<leftarrow> blk_count cntpct start total_size (be_set_mem m e);
     Some (d, e) })"

definition blk_step ::
  "(nat \<Rightarrow> u64) \<Rightarrow> 'd block_device \<Rightarrow> Fat32 \<Rightarrow> guest_ram \<Rightarrow> VirtioBlkMmio \<times> 'd blk_env \<Rightarrow>
   (progress \<times> VirtioBlkMmio \<times> 'd blk_env) option" where
  "blk_step cntpct blk f vm = (\<lambda>(d, e). do {
     (r, d) \<leftarrow> blk_get_next_avail_id d (be_mem e);
     (case r of
        None \<Rightarrow> Some (Empty, d, e)
      | Some i \<Rightarrow> do {
          let start = cntpct (be_readings e);
          let e = e\<lparr>be_readings := be_readings e + 1\<rparr>;
          r \<leftarrow> blk_get_descriptor_id d (be_mem e) i;
          (case r of
             None \<Rightarrow> Some (Return, d, e)
           | Some descriptor_id \<Rightarrow> do {
               r \<leftarrow> blk_get_descriptor d (be_mem e) descriptor_id;
               (case r of
                  None \<Rightarrow> Some (Return, d, e)
                | Some request_descriptor \<Rightarrow>
                    if vd_length request_descriptor \<noteq> 16 then Some (Return, d, e)
                    else do {
                      r \<leftarrow> get_physical_address vm (unat (vd_address request_descriptor));
                      (case r of
                         None \<Rightarrow> Some (Return, d, e)
                       | Some a \<Rightarrow> do {
                           let blk_req = load_req (be_mem e) a;
                           let is_write = (req_type blk_req = VIRTIO_BLK_TYPE_OUT);
                           let offset = unat (push_bit 9 (req_sector blk_req));
                           if vd_flags request_descriptor AND VIRT_QUEUE_DESC_FLAGS_NEXT = 0 then Some (Return, d, e)
                           else do {
                             (last, total_size, status, s) \<leftarrow>
                               blk_chain blk f vm is_write offset 0 VIRTIO_BLK_S_OK (vd_next request_descriptor) (d, e);
                             (case last of
                                None \<Rightarrow> Some (Return, s)
                              | Some desc \<Rightarrow> do {
                                  s \<leftarrow> blk_complete cntpct vm start descriptor_id desc total_size status s;
                                  Some (Again, s) }) } }) }) }) }) })"

definition blk_interrupt :: "VirtioBlkMmio \<times> 'd blk_env \<Rightarrow> (VirtioBlkMmio \<times> 'd blk_env) option" where
  "blk_interrupt = (\<lambda>(d, e). do {
     (g, p, injected) \<leftarrow> trigger_interrupt VIRTIO_BLK_INT_ID None (be_gic e);
     Some (d\<lparr>blk_interrupt_status := blk_interrupt_status d OR 1\<rparr>, e\<lparr>be_gic := (g, p)\<rparr>) })"

definition blk_operation ::
  "(nat \<Rightarrow> u64) \<Rightarrow> 'd block_device \<Rightarrow> Fat32 \<Rightarrow> guest_ram \<Rightarrow> VirtioBlkMmio \<times> 'd blk_env \<Rightarrow>
   (VirtioBlkMmio \<times> 'd blk_env) option" where
  "blk_operation cntpct blk f vm s = do {
     (p, s) \<leftarrow> serve (blk_step cntpct blk f vm) s;
     if p = Return then Some s else blk_interrupt s }"

section \<open>Registers\<close>

definition vblk_read :: "usize \<Rightarrow> u64 \<Rightarrow> VirtioBlkMmio \<Rightarrow> ((unit + u64) \<times> VirtioBlkMmio) option" where
  "vblk_read offset access_width d =
     (if offset = VIRTIO_MMIO_MAGIC then Some (Inr (ucast VIRTIO_MMIO_MAGIC_VALUE), d)
      else if offset = VIRTIO_MMIO_VERSION then Some (Inr 0x01, d)
      else if offset = VIRTIO_MMIO_DEVICE_ID then Some (Inr 0x02, d)
      else if offset = VIRTIO_MMIO_VENDOR_ID then Some (Inr 0x554d4551, d)
      else if offset = VIRTIO_MMIO_DEVICE_FEATURES then Some (Inr 0x00, d)
      else if offset = VIRTIO_MMIO_QUEUE_NUM_MAX then Some (Inr 1024, d)
      else if offset = VIRTIO_MMIO_QUEUE_READY then Some (Inr (if blk_queue_ready d then 1 else 0), d)
      else if offset = VIRTIO_MMIO_QUEUE_PFN then do {
        n \<leftarrow> udiv (descriptor d) (blk_page_size d);
        Some (Inr (of_nat n), d) }
      else if offset = VIRTIO_MMIO_INTERRUPT_STATUS then Some (Inr (ucast (blk_interrupt_status d)), d)
      else if offset = VIRTIO_MMIO_STATUS then Some (Inr (ucast (blk_status d)), d)
      else if VIRTIO_CONFIG_OFFSET \<le> offset then
        (let config_offset = offset - VIRTIO_CONFIG_OFFSET
         in if config_offset < 8
            then Some (Inr (of_nat (get_file_size (blk_file d) div 512 div 2 ^ (config_offset * 8))),
              d\<lparr>config_read_logged := True\<rparr>)
            else Some (Inr 0, d))
      else Some (Inr 0, d))"

definition vblk_write ::
  "(nat \<Rightarrow> u64) \<Rightarrow> 'd block_device \<Rightarrow> Fat32 \<Rightarrow> guest_ram \<Rightarrow> usize \<Rightarrow> u64 \<Rightarrow> u64 \<Rightarrow> VirtioBlkMmio \<times> 'd blk_env \<Rightarrow>
   ((unit + unit) \<times> VirtioBlkMmio \<times> 'd blk_env) option" where
  "vblk_write cntpct blk f vm offset access_width v = (\<lambda>(d, e). do {
     s \<leftarrow> (if offset = VIRTIO_MMIO_GUEST_PAGE_SIZE then Some (d\<lparr>blk_page_size := unat v\<rparr>, e)
       else if offset = VIRTIO_MMIO_QUEUE_NUM then do {
         d \<leftarrow> blk_place_rings (d\<lparr>queue_size := unat v\<rparr>);
         Some (d, e) }
       else if offset = VIRTIO_MMIO_QUEUE_PFN then do {
         a \<leftarrow> umul (unat v) (blk_page_size d);
         r \<leftarrow> get_physical_address vm a;
         (case r of
            None \<Rightarrow> Some (d, e)
          | Some address \<Rightarrow> do {
              d \<leftarrow> blk_place_rings (d\<lparr>descriptor := address\<rparr>);
              Some (d, e) }) }
       else if offset = VIRTIO_MMIO_QUEUE_NOTIFY then
         (if v = 0 then blk_operation cntpct blk f vm (d, e) else Some (d, e))
       else if offset = VIRTIO_MMIO_INTERRUPT_ACK then
         Some (d\<lparr>blk_interrupt_status := blk_interrupt_status d AND NOT (ucast v)\<rparr>, e)
       else if offset = VIRTIO_MMIO_STATUS then
         Some (if v = 0
               then d\<lparr>queue_size := 0, blk_queue_ready := False, blk_page_size := 2 ^ 12, blk_interrupt_status := 0,
                      blk_status := 0, descriptor := 0, avail_ring := 0, used_ring := 0, last_avail_id := 0, used_id := 0\<rparr>
               else d\<lparr>blk_status := ucast v\<rparr>, e)
       else Some (d, e));
     Some (Inr (), s) })"

section \<open>The shape of the device\<close>

text \<open>A transfer changes nothing of a file but the position remembered from the last walk.\<close>

lemma walk_chain_file: "walk_chain f is c fi w = (r, fi', w') \<Longrightarrow> \<exists>h. fi' = fi\<lparr>walk_hint := h\<rparr>"
proof (induction "is" arbitrary: c fi w)
  case Nil
  then show ?case by (auto intro: exI [of _ "walk_hint fi"])
next
  case (Cons i "is")
  show ?case
  proof (cases "get_next_cluster f c w")
    case (Pair n w1)
    show ?thesis
    proof (cases n)
      case None
      with Pair Cons.prems show ?thesis by (auto intro: exI [of _ "walk_hint fi"])
    next
      case (Some c')
      with Pair Cons.prems have "walk_chain f is c' (update_walk_hint (i + 1) c' fi) w1 = (r, fi', w')" by simp
      from Cons.IH [OF this] show ?thesis by (auto simp: update_walk_hint_def)
    qed
  qed
qed

lemma Fat32_read_file: "ensures (Fat32_read blk f fi a off n w) (\<lambda>(r, fi', w'). \<exists>h. fi' = fi\<lparr>walk_hint := h\<rparr>)"
  unfolding Fat32_read_def
  by (intro body_intros body_sum) (auto dest: walk_chain_file sym [THEN walk_chain_file] intro: exI [of _ "walk_hint fi"])

lemma Fat32_write_file: "ensures (Fat32_write blk f fi a off n w) (\<lambda>(r, fi', w'). \<exists>h. fi' = fi\<lparr>walk_hint := h\<rparr>)"
  unfolding Fat32_write_def
  by (intro body_intros body_sum) (auto dest: walk_chain_file sym [THEN walk_chain_file] intro: exI [of _ "walk_hint fi"])

definition same_but_hint :: "VirtioBlkMmio \<Rightarrow> VirtioBlkMmio \<Rightarrow> bool" where
  "same_but_hint d d' \<longleftrightarrow> (\<exists>h. d' = d\<lparr>blk_file := (blk_file d)\<lparr>walk_hint := h\<rparr>\<rparr>)"

lemma same_but_hint_refl [simp]: "same_but_hint d d"
  by (auto simp: same_but_hint_def intro: exI [of _ "walk_hint (blk_file d)"])

lemma same_but_hint_trans [trans]: "same_but_hint d d' \<Longrightarrow> same_but_hint d' d'' \<Longrightarrow> same_but_hint d d''"
  by (auto simp: same_but_hint_def)

lemma blk_transfer_file:
  "blk_transfer blk f is_write a off n (d, e) = Some (ok, d', e') \<Longrightarrow> same_but_hint d d'"
  using Fat32_read_file [of blk f "blk_file d" a off n "be_fs e"] Fat32_write_file [of blk f "blk_file d" a off n "be_fs e"]
  by (fastforce simp: blk_transfer_def bind_eq_Some_conv same_but_hint_def ensures_def split: if_splits)

lemma blk_chain_file:
  assumes "blk_chain blk f vm is_write off tot status nxt s = Some r"
  shows "same_but_hint (fst s) (fst (snd (snd (snd r))))"
proof (rule blk_chain.raw_induct
    [where P = "\<lambda>blk f vm is_write off tot status nxt s r. same_but_hint (fst s) (fst (snd (snd (snd r))))", OF _ assms],
    goal_cases)
  case (1 g blk f vm is_write off tot status nxt s r)
  let ?Q = "\<lambda>s r. same_but_hint (fst s) (fst (snd (snd (snd r))))"
  have rec: "ensures (g blk f vm is_write off tot status nxt s) (?Q s)" for off tot status nxt s
    using 1(1) by (simp add: ensures_def)
  have tr: "ensures (g blk f vm is_write off tot status nxt s1) (?Q s)"
    if "blk_transfer blk f is_write a off' n s = Some (ok, s1)" for off tot status nxt s1 a off' n ok
    using that rec [of off tot status nxt s1] blk_transfer_file [of blk f is_write a off' n "fst s" "snd s" ok "fst s1" "snd s1"]
    by (auto simp: ensures_def intro: same_but_hint_trans)
  show ?case
    by (rule body_result [where Q = "?Q s", OF 1(2)]) (intro body_intros rec tr; simp)
qed


definition blk_wf :: "VirtioBlkMmio \<Rightarrow> bool" where
  "blk_wf d \<longleftrightarrow> queue_size d < usize_limit \<and> descriptor d < usize_limit \<and> avail_ring d < usize_limit \<and>
     used_ring d < usize_limit \<and> blk_page_size d < usize_limit \<and> 512 dvd get_file_size (blk_file d)"

lemma blk_wf_new: "VirtioBlkMmio_new fi = Some d \<Longrightarrow> blk_wf d"
  by (auto simp: blk_wf_def VirtioBlkMmio_new_def usize_limit_def dvd_eq_mod_eq_0 split: if_splits)

lemma blk_wf_fields [simp]:
  "blk_wf (d\<lparr>blk_interrupt_status := x\<rparr>) = blk_wf d"
  "blk_wf (d\<lparr>blk_status := x\<rparr>) = blk_wf d"
  "blk_wf (d\<lparr>last_avail_id := i\<rparr>) = blk_wf d"
  "blk_wf (d\<lparr>used_id := i\<rparr>) = blk_wf d"
  "blk_wf (d\<lparr>config_read_logged := b\<rparr>) = blk_wf d"
  "blk_wf d \<Longrightarrow> blk_wf (d\<lparr>blk_page_size := unat (v :: u64)\<rparr>)"
  by (simp_all add: blk_wf_def)

lemma blk_wf_hint: "same_but_hint d d' \<Longrightarrow> blk_wf d' = blk_wf d \<and> last_avail_id d' = last_avail_id d"
  by (auto simp: same_but_hint_def blk_wf_def get_file_size_def)

lemma blk_get_next_avail_idE:
  assumes "blk_get_next_avail_id d m = Some (r, d')"
  obtains "r = None" "d' = d"
  | i l where "r = Some i" "d' = d\<lparr>last_avail_id := l\<rparr>" "unat l = Suc (unat (last_avail_id d))"
  using assms by (auto simp: blk_get_next_avail_id_def bind_eq_Some_conv dest!: wadd_one split: if_splits)

lemma blk_complete_wf:
  "ensures (blk_complete cntpct vm start i desc tot status (d, e)) (\<lambda>(d', e'). blk_wf d' = blk_wf d \<and> last_avail_id d' = last_avail_id d)"
  by (auto simp: blk_complete_def blk_write_used_def ensures_def bind_eq_Some_conv Let_def)

lemma blk_step_spec:
  "ensures (blk_step cntpct blk f vm (d, e)) (\<lambda>(p, d', e'). blk_wf d' = blk_wf d \<and>
     (p = Again \<longrightarrow> unat (last_avail_id d') = Suc (unat (last_avail_id d))))"
  unfolding blk_step_def prod.case
  by (intro body_intros)
    (auto elim!: blk_get_next_avail_idE dest!: blk_chain_file blk_wf_hint body_result [OF _ blk_complete_wf])

interpretation blk_requests: queue_server "blk_step cntpct blk f vm" "\<lambda>(d, e). blk_wf d"
  "\<lambda>(d, e). 65535 - unat (last_avail_id d)" for cntpct blk f vm
proof
  fix s s' :: "VirtioBlkMmio \<times> 'a blk_env" and p
  obtain d e d' e' where s: "s = (d, e)" "s' = (d', e')" by (cases s; cases s')
  {
    assume "case s of (d, e) \<Rightarrow> blk_wf d" "blk_step cntpct blk f vm s = Some (p, s')"
    with blk_step_spec [of cntpct blk f vm d e] show "case s' of (d, e) \<Rightarrow> blk_wf d" unfolding s by (simp add: ensures_def)
  next
    assume "blk_step cntpct blk f vm s = Some (Again, s')"
    with blk_step_spec [of cntpct blk f vm d e] have "unat (last_avail_id d') = Suc (unat (last_avail_id d))"
      unfolding s by (simp add: ensures_def)
    moreover have "unat (last_avail_id d') < 65536" using unsigned_less [of "last_avail_id d'"] by simp
    ultimately show "(case s' of (d, e) \<Rightarrow> 65535 - unat (last_avail_id d)) < (case s of (d, e) \<Rightarrow> 65535 - unat (last_avail_id d))"
      unfolding s by simp
  }
qed

lemma blk_operation_wf: "blk_wf d \<Longrightarrow> ensures (blk_operation cntpct blk f vm (d, e)) (\<lambda>(d', e'). blk_wf d')"
  by (auto simp: blk_operation_def blk_interrupt_def ensures_def bind_eq_Some_conv dest!: blk_requests.serve_kept [rotated] split: if_splits)

lemma blk_place_rings_wf:
  "blk_place_rings d = Some d' \<Longrightarrow> queue_size d < usize_limit \<Longrightarrow> descriptor d < usize_limit \<Longrightarrow>
   blk_page_size d < usize_limit \<Longrightarrow> 512 dvd get_file_size (blk_file d) \<Longrightarrow> blk_wf d'"
  by (auto simp: blk_place_rings_def blk_wf_def bind_eq_Some_conv uadd_def split: if_splits)

lemma vblk_write_wf:
  assumes "blk_wf d"
  shows "ensures (vblk_write cntpct blk f vm offset width v (d, e)) (\<lambda>(r, d', e'). r = Inr () \<and> blk_wf d')"
proof -
  have n: "blk_wf d'" if "blk_place_rings (d\<lparr>queue_size := unat v\<rparr>) = Some d'" for d'
    using blk_place_rings_wf [OF that] assms by (simp add: blk_wf_def)
  have p: "blk_wf d'" if "blk_place_rings (d\<lparr>descriptor := x\<rparr>) = Some d'" "get_physical_address vm a = Some (Some x)" for d' a x
    using blk_place_rings_wf [OF that(1)] get_physical_address_limit [OF that(2)] assms by (simp add: blk_wf_def)
  have z: "blk_wf (d\<lparr>queue_size := 0, blk_queue_ready := False, blk_page_size := 4096, blk_interrupt_status := 0,
                      blk_status := 0, descriptor := 0, avail_ring := 0, used_ring := 0\<rparr>)"
    using assms by (simp add: blk_wf_def usize_limit_def)
  have o: "blk_wf d'" if "blk_operation cntpct blk f vm (d, e) = Some (d', e')" for d' e'
    using blk_operation_wf [OF assms, of cntpct blk f vm e] that by (simp add: ensures_def)
  show ?thesis unfolding vblk_write_def prod.case
    by (intro body_intros) (auto split: if_splits option.splits simp: bind_eq_Some_conv assms z dest: n p o)
qed

lemma vblk_read_spec:
  "vblk_read offset width d = None \<longleftrightarrow> offset = VIRTIO_MMIO_QUEUE_PFN \<and> blk_page_size d = 0"
  "ensures (vblk_read offset width d) (\<lambda>(r, d'). blk_wf d' = blk_wf d \<and> \<not> isl r)"
  by (auto simp: vblk_read_def udiv_def virtio_offsets Let_def ensures_def bind_eq_Some_conv split: if_splits)

end
