(* ===== verification/Virtio_Disk.thy ===== *)
theory Virtio_Disk
  imports Virtio_Blk Fat32_Files
begin

text \<open>
  A read request of the guest through the emulated disk and the file system: from the write
  to the notification register to the bytes of the file in the guest's buffer.
\<close>

definition blk_desc :: "VirtioBlkMmio \<Rightarrow> bmem \<Rightarrow> u16 \<Rightarrow> VirtQueueDesc" where
  "blk_desc d m i = load_desc m (descriptor d + 16 * unat i)"

abbreviation chained :: "VirtQueueDesc \<Rightarrow> bool" where
  "chained x \<equiv> vd_flags x AND VIRT_QUEUE_DESC_FLAGS_NEXT \<noteq> 0"

text \<open>The rings are in place and the available ring holds exactly one new request, \<open>h\<close>.\<close>

definition one_request :: "VirtioBlkMmio \<Rightarrow> bmem \<Rightarrow> u16 \<Rightarrow> bool" where
  "one_request d m h \<longleftrightarrow> avail_ring d \<noteq> 0 \<and> descriptor d \<noteq> 0 \<and> 0 < queue_size d \<and> queue_size d < 65536 \<and>
     descriptor d + 2 ^ 20 < usize_limit \<and> avail_ring d + 2 ^ 20 < usize_limit \<and> used_ring d + 2 ^ 20 < usize_limit \<and>
     unat (last_avail_id d) < 65535 \<and> unat (used_id d) < 65535 \<and>
     load_le 2 m (avail_ring d + 2) = unat (last_avail_id d) + 1 \<and>
     load_le 2 m (avail_ring d + 4 + 2 * (unat (last_avail_id d) mod queue_size d)) = unat h"

text \<open>The request is to read \<open>len\<close> bytes from a sector: a header, one buffer and the status byte.\<close>

definition read_request :: "guest_ram \<Rightarrow> VirtioBlkMmio \<Rightarrow> bmem \<Rightarrow> u16 \<Rightarrow> nat \<Rightarrow> nat \<Rightarrow> usize \<Rightarrow> usize \<Rightarrow> bool" where
  "read_request vm d m h sector len buf sts \<longleftrightarrow>
     (let head = blk_desc d m h; dat = blk_desc d m (vd_next head); fin = blk_desc d m (vd_next dat)
      in vd_length head = 16 \<and> chained head \<and> chained dat \<and> \<not> chained fin \<and>
         unat (vd_length dat) = len \<and> vd_length fin = 1 \<and>
         (\<exists>a. get_physical_address vm (unat (vd_address head)) = Some (Some a) \<and>
            req_type (load_req m a) = VIRTIO_BLK_TYPE_IN \<and> unat (req_sector (load_req m a)) = sector) \<and>
         get_physical_address vm (unat (vd_address dat)) = Some (Some buf) \<and>
         get_physical_address vm (unat (vd_address fin)) = Some (Some sts))"

definition used_slot :: "VirtioBlkMmio \<Rightarrow> usize" where
  "used_slot d = used_ring d + 4 + 8 * (unat (used_id d) mod queue_size d)"

definition used_bytes :: "VirtioBlkMmio \<Rightarrow> nat set" where
  "used_bytes d = {used_ring d + 2..<used_ring d + 4} \<union> {used_slot d..<used_slot d + 8}"

text \<open>What the device reads or writes after the transfer lies outside the memory the transfer may
  change, and what it writes is neither in the buffer nor read again.\<close>

definition apart :: "VirtioBlkMmio \<Rightarrow> bmem \<Rightarrow> u16 \<Rightarrow> usize \<Rightarrow> nat \<Rightarrow> usize \<Rightarrow> nat set \<Rightarrow> bool" where
  "apart d m h buf len sts changed \<longleftrightarrow>
     (let fin = descriptor d + 16 * unat (vd_next (blk_desc d m (vd_next (blk_desc d m h))))
      in {fin..<fin + 16} \<inter> changed = {} \<and> {avail_ring d + 2..<avail_ring d + 4} \<inter> (changed \<union> insert sts (used_bytes d)) = {} \<and>
         {buf..<buf + len} \<inter> insert sts (used_bytes d) = {} \<and> sts \<notin> used_bytes d)"

lemma load_le_cong: "(\<And>p. p \<in> {a..<a + n} \<Longrightarrow> m' p = m p) \<Longrightarrow> load_le n m' a = load_le n m a"
  unfolding load_le_def by (rule arg_cong [where f = le_nat], rule get_bytes_cong) simp

lemma load_desc_cong: "(\<And>p. p \<in> {a..<a + 16} \<Longrightarrow> m' p = m p) \<Longrightarrow> load_desc m' a = load_desc m a"
  using load_le_cong [of a 8 m' m] load_le_cong [of "a + 8" 4 m' m] load_le_cong [of "a + 12" 2 m' m]
    load_le_cong [of "a + 14" 2 m' m] by (simp add: load_desc_def)

section \<open>The parts of a request\<close>

lemma blk_get_descriptor_Some:
  assumes "descriptor d \<noteq> 0" "descriptor d + 2 ^ 20 < usize_limit"
  shows "blk_get_descriptor d m i = Some (Some (blk_desc d m i))"
proof -
  have "unat i < 65536" using unsigned_less [of i] by simp
  with assms show ?thesis by (simp add: blk_get_descriptor_def uadd_def blk_desc_def)
qed

lemma one_request_next:
  assumes "one_request d m h"
  shows "\<exists>n. blk_get_next_avail_id d m = Some (Some n, d\<lparr>last_avail_id := last_avail_id d + 1\<rparr>) \<and>
    blk_get_descriptor_id (d\<lparr>last_avail_id := last_avail_id d + 1\<rparr>) m n = Some (Some h)"
proof -
  let ?l = "last_avail_id d" and ?q = "of_nat (queue_size d) :: u16"
  have l: "unat ?l + 1 < 65536" and q: "unat ?q = queue_size d" using assms by (simp_all add: one_request_def unat_of_nat)
  have "(of_nat (unat ?l + 1) :: u16) = ?l + 1" by simp
  moreover have "?l \<noteq> ?l + 1" by simp
  moreover have "?q \<noteq> 0" using q assms by (auto simp: one_request_def)
  moreover have "unat (?l mod ?q) = unat ?l mod queue_size d" by (simp add: unat_mod q)
  moreover have "unat ?l mod queue_size d < 65536" using l mod_less_eq_dividend [of "unat ?l" "queue_size d"] by linarith
  ultimately have "blk_get_next_avail_id d m = Some (Some (?l mod ?q), d\<lparr>last_avail_id := ?l + 1\<rparr>)"
    "blk_get_descriptor_id (d\<lparr>last_avail_id := ?l + 1\<rparr>) m (?l mod ?q) = Some (Some h)"
    using assms l by (simp_all add: blk_get_next_avail_id_def blk_get_descriptor_id_def one_request_def wmod_def wadd_def uadd_def)
  then show ?thesis by blast
qed

lemma blk_chain_read:
  assumes "descriptor d \<noteq> 0" "descriptor d + 2 ^ 20 < usize_limit" "chained (blk_desc d (be_mem e) i)"
    "get_physical_address vm (unat (vd_address (blk_desc d (be_mem e) i))) = Some (Some buf)"
    and r: "Fat32_read blk f (blk_file d) buf off (unat (vd_length (blk_desc d (be_mem e) i))) (be_fs e) = Some (Inr n, fi, w)"
    and "off + unat (vd_length (blk_desc d (be_mem e) i)) < usize_limit"
    and "blk_desc d (fs_mem w) (vd_next (blk_desc d (be_mem e) i)) = fin" "\<not> chained fin"
  shows "blk_chain blk f vm False off 0 st i (d, e) =
    Some (Some fin, vd_length (blk_desc d (be_mem e) i), st, d\<lparr>blk_file := fi\<rparr>, e\<lparr>be_fs := w\<rparr>)"
proof -
  have g: "blk_get_descriptor (d\<lparr>blk_file := fi\<rparr>) (fs_mem w) (vd_next (blk_desc d (be_mem e) i)) = Some (Some fin)"
    using blk_get_descriptor_Some [of "d\<lparr>blk_file := fi\<rparr>"] assms(1,2,7) by (simp add: blk_desc_def)
  have e: "blk_chain blk f vm False off' t s (vd_next (blk_desc d (be_mem e) i)) (d\<lparr>blk_file := fi\<rparr>, e\<lparr>be_fs := w\<rparr>) =
    Some (Some fin, t, s, d\<lparr>blk_file := fi\<rparr>, e\<lparr>be_fs := w\<rparr>)" for off' t s
    unfolding blk_chain.simps [of _ _ _ _ _ _ _ "vd_next (blk_desc d (be_mem e) i)"] using g assms(8) by simp
  have "unat (vd_length (blk_desc d (be_mem e) i)) < 4294967296" using unsigned_less [of "vd_length (blk_desc d (be_mem e) i)"] by simp
  then show ?thesis unfolding blk_chain.simps [of _ _ _ _ _ _ _ i]
    using assms(1-4,6,8) r e by (simp add: blk_get_descriptor_Some blk_transfer_def wadd_def uadd_def)
qed

definition completed :: "VirtioBlkMmio \<Rightarrow> u16 \<Rightarrow> nat \<Rightarrow> usize \<Rightarrow> u8 \<Rightarrow> bmem \<Rightarrow> bmem" where
  "completed d h n sts st m =
     store_le 2 (used_ring d + 2) (unat (used_id d) + 1)
       (store_le 4 (used_slot d + 4) n (store_le 4 (used_slot d) (unat h) (put_bytes sts [st] m)))"

lemma blk_complete_Some:
  assumes "get_physical_address vm (unat (vd_address fin)) = Some (Some sts)" "vd_length fin = 1" "unat tot + 1 < 2 ^ 32"
    and "0 < queue_size d" "queue_size d < 65536" "used_ring d + 2 ^ 20 < usize_limit" "unat (used_id d) < 65535"
    and "start \<le> cntpct (be_readings e)"
  shows "\<exists>e'. blk_complete cntpct vm start h fin tot st (d, e) = Some (d\<lparr>used_id := used_id d + 1\<rparr>, e') \<and>
    be_mem e' = completed d h (unat tot + 1) sts st (be_mem e) \<and> fs_dev (be_fs e') = fs_dev (be_fs e) \<and>
    be_gic e' = be_gic e \<and> VBLK_REQUESTS e' = VBLK_REQUESTS e + 1 \<and> VBLK_BYTES e' = VBLK_BYTES e + ucast (tot + 1)"
proof -
  let ?q = "of_nat (queue_size d) :: u16" and ?u = "used_id d"
  have q: "unat ?q = queue_size d" "?q \<noteq> 0" using assms(4,5) by (auto simp: unat_of_nat word_of_nat_eq_0_iff dvd_def)
  have m: "unat (?u mod ?q) = unat ?u mod queue_size d" by (simp add: unat_mod q)
  have ml: "unat ?u mod queue_size d < 65536" using assms(7) mod_less_eq_dividend [of "unat ?u" "queue_size d"] by linarith
  have t: "wadd tot (1 :: u32) = Some (tot + 1)" "unat (tot + 1) = unat tot + 1" using assms(3) by (simp_all add: wadd_def unat_word_ariths)
  have u: "wadd ?u (1 :: u16) = Some (?u + 1)" "unat (?u + 1) = unat ?u + 1" using assms(7) by (simp_all add: wadd_def unat_word_ariths)
  have a: "used_ring d + 4 < usize_limit" "used_ring d + 4 + 8 * (unat ?u mod queue_size d) < usize_limit" using assms(6) ml by simp_all
  have w: "blk_write_used h (tot + 1) d m0 = Some (d\<lparr>used_id := ?u + 1\<rparr>, store_le 2 (used_ring d + 2) (unat ?u + 1)
    (store_le 4 (used_slot d + 4) (unat tot + 1) (store_le 4 (used_slot d) (unat h) m0)))" for m0
    using a by (simp add: blk_write_used_def wmod_def q m t u uadd_def used_slot_def Let_def)
  show ?thesis using assms(1,2,8) by (simp add: blk_complete_def t w completed_def blk_count_def Let_def be_set_mem_def not_less)
qed


lemma completed_other: "p \<notin> insert sts (used_bytes d) \<Longrightarrow> completed d h n sts st m p = m p"
  by (auto simp: completed_def used_bytes_def store_le_other put_bytes_def)

lemma completed_status: "sts \<notin> used_bytes d \<Longrightarrow> completed d h n sts st m sts = st"
  by (auto simp: completed_def used_bytes_def store_le_other put_bytes_def)

lemma completed_used:
  assumes "n < 2 ^ 32" "unat (used_id d) < 65535"
  shows "load_le 4 (completed d h n sts st m) (used_slot d) = unat h"
    "load_le 4 (completed d h n sts st m) (used_slot d + 4) = n"
    "load_le 2 (completed d h n sts st m) (used_ring d + 2) = unat (used_id d) + 1"
proof -
  have s: "used_ring d + 4 \<le> used_slot d" by (simp add: used_slot_def)
  have "unat h < 65536" using unsigned_less [of h] by simp
  then show "load_le 4 (completed d h n sts st m) (used_slot d) = unat h"
    using s by (simp add: completed_def load_store_le_other)
  show "load_le 4 (completed d h n sts st m) (used_slot d + 4) = n"
    using s assms(1) by (simp add: completed_def load_store_le_other)
  show "load_le 2 (completed d h n sts st m) (used_ring d + 2) = unat (used_id d) + 1"
    using assms(2) by (simp add: completed_def)
qed

lemma apartD:
  assumes "apart d m h buf len sts changed"
  shows "p \<in> {fa..<fa + 16} \<Longrightarrow> fa = descriptor d + 16 * unat (vd_next (blk_desc d m (vd_next (blk_desc d m h)))) \<Longrightarrow> p \<notin> changed"
    "p \<in> {avail_ring d + 2..<avail_ring d + 2 + 2} \<Longrightarrow> p \<notin> changed \<and> p \<notin> insert sts (used_bytes d)"
    "i < len \<Longrightarrow> buf + i \<notin> insert sts (used_bytes d)" "sts \<notin> used_bytes d"
proof -
  note a = assms [unfolded apart_def Let_def]
  show "p \<in> {fa..<fa + 16} \<Longrightarrow> fa = descriptor d + 16 * unat (vd_next (blk_desc d m (vd_next (blk_desc d m h)))) \<Longrightarrow> p \<notin> changed"
    using a [THEN conjunct1] by blast
  show "p \<in> {avail_ring d + 2..<avail_ring d + 2 + 2} \<Longrightarrow> p \<notin> changed \<and> p \<notin> insert sts (used_bytes d)"
    using a [THEN conjunct2, THEN conjunct1] by (simp add: disjoint_iff)
  show "i < len \<Longrightarrow> buf + i \<notin> insert sts (used_bytes d)"
    using a [THEN conjunct2, THEN conjunct2, THEN conjunct1] by (simp add: disjoint_iff)
  show "sts \<notin> used_bytes d" using a by blast
qed

lemma file_size_room: "512 dvd get_file_size fi \<Longrightarrow> get_file_size fi + 1 < 2 ^ 32"
proof -
  assume "512 dvd get_file_size fi"
  moreover have "unat (file_size fi) < 4294967296" using unsigned_less [of "file_size fi"] by simp
  ultimately show ?thesis by (auto simp: get_file_size_def dvd_def)
qed

lemma blk_step_read:
  assumes q: "one_request d (be_mem e) h" and r: "read_request vm d (be_mem e) h sector len buf sts"
    and s: "sector * 512 + len + 1 < 2 ^ 32"
    and f: "Fat32_read blk f (blk_file d) buf (sector * 512) len (be_fs e) = Some (Inr n, fi, w)"
    and k: "\<And>p. p \<in> {fa..<fa + 16} \<Longrightarrow> fs_mem w p = be_mem e p"
      "fa = descriptor d + 16 * unat (vd_next (blk_desc d (be_mem e) (vd_next (blk_desc d (be_mem e) h))))"
    and c: "mono cntpct"
  shows "\<exists>e'. blk_step cntpct blk f vm (d, e) =
      Some (Again, d\<lparr>last_avail_id := last_avail_id d + 1, blk_file := fi, used_id := used_id d + 1\<rparr>, e') \<and>
    be_mem e' = completed d h (len + 1) sts VIRTIO_BLK_S_OK (fs_mem w) \<and> fs_dev (be_fs e') = fs_dev w \<and>
    be_gic e' = be_gic e \<and> VBLK_REQUESTS e' = VBLK_REQUESTS e + 1"
proof -
  let ?m = "be_mem e" and ?d1 = "d\<lparr>last_avail_id := last_avail_id d + 1\<rparr>" and ?e1 = "e\<lparr>be_readings := be_readings e + 1\<rparr>"
  let ?head = "blk_desc d ?m h" let ?dat = "blk_desc d ?m (vd_next ?head)" let ?fin = "blk_desc d ?m (vd_next ?dat)"
  obtain a where a: "get_physical_address vm (unat (vd_address ?head)) = Some (Some a)"
    "req_type (load_req ?m a) = VIRTIO_BLK_TYPE_IN" "unat (req_sector (load_req ?m a)) = sector"
    using r by (auto simp: read_request_def Let_def)
  have t: "vd_length ?head = 16" "chained ?head" "chained ?dat" "\<not> chained ?fin" "unat (vd_length ?dat) = len" "vd_length ?fin = 1"
    "get_physical_address vm (unat (vd_address ?dat)) = Some (Some buf)"
    "get_physical_address vm (unat (vd_address ?fin)) = Some (Some sts)"
    using r by (simp_all add: read_request_def Let_def)
  have z: "descriptor d \<noteq> 0" "descriptor d + 2 ^ 20 < usize_limit" "0 < queue_size d" "queue_size d < 65536"
    "used_ring d + 2 ^ 20 < usize_limit" "unat (used_id d) < 65535" using q by (simp_all add: one_request_def)
  obtain i where i: "blk_get_next_avail_id d ?m = Some (Some i, ?d1)" "blk_get_descriptor_id ?d1 ?m i = Some (Some h)"
    using one_request_next [OF q] by blast
  have d1: "blk_desc ?d1 = blk_desc d" by (simp add: blk_desc_def fun_eq_iff)
  have g: "blk_get_descriptor ?d1 ?m h = Some (Some ?head)"
    using blk_get_descriptor_Some [of ?d1] z by (simp add: d1)
  have fin: "blk_desc ?d1 (fs_mem w) (vd_next ?dat) = ?fin" unfolding blk_desc_def
    using load_desc_cong [OF k(1), unfolded k(2)] by (simp add: blk_desc_def)
  have o: "unat (push_bit 9 (req_sector (load_req ?m a))) = sector * 512"
    using a(3) s by (simp add: push_bit_eq_mult unat_word_ariths)
  have x: "blk_chain blk f vm False (sector * 512) 0 VIRTIO_BLK_S_OK (vd_next ?head) (?d1, ?e1) =
    Some (Some ?fin, vd_length ?dat, VIRTIO_BLK_S_OK, ?d1\<lparr>blk_file := fi\<rparr>, ?e1\<lparr>be_fs := w\<rparr>)"
    using blk_chain_read [of ?d1 ?e1 "vd_next ?head" vm buf blk f "sector * 512" n fi w ?fin VIRTIO_BLK_S_OK] z t f fin s
    by (simp add: d1 usize_limit_def)
  have "cntpct (be_readings e) \<le> cntpct (be_readings e + 1)" by (rule monoD [OF c]) simp
  with blk_complete_Some [of vm ?fin sts "vd_length ?dat" "?d1\<lparr>blk_file := fi\<rparr>" "cntpct (be_readings e)" cntpct "?e1\<lparr>be_fs := w\<rparr>" h VIRTIO_BLK_S_OK]
  obtain e' where e': "blk_complete cntpct vm (cntpct (be_readings e)) h ?fin (vd_length ?dat) VIRTIO_BLK_S_OK (?d1\<lparr>blk_file := fi\<rparr>, ?e1\<lparr>be_fs := w\<rparr>)
      = Some (?d1\<lparr>blk_file := fi, used_id := used_id d + 1\<rparr>, e')" "be_mem e' = completed d h (len + 1) sts VIRTIO_BLK_S_OK (fs_mem w)"
    "fs_dev (be_fs e') = fs_dev w" "be_gic e' = be_gic e" "VBLK_REQUESTS e' = VBLK_REQUESTS e + 1"
    using t z s by (simp add: completed_def used_slot_def) blast
  show ?thesis
    using i g t(1,2) a o x e' by (simp add: blk_step_def Let_def VIRTIO_BLK_TYPE_IN_def VIRTIO_BLK_TYPE_OUT_def)
qed


lemma blk_operation_one:
  assumes q: "one_request d m h" and s: "blk_step cntpct blk f vm (d, e) = Some (Again, d1, e1)"
    and d1: "last_avail_id d1 = last_avail_id d + 1" "avail_ring d1 = avail_ring d"
    and idx: "load_le 2 (be_mem e1) (avail_ring d + 2) = load_le 2 m (avail_ring d + 2)" and g: "gicd_wf (fst (be_gic e1))"
  shows "\<exists>g. blk_operation cntpct blk f vm (d, e) =
    Some (d1\<lparr>blk_interrupt_status := blk_interrupt_status d1 OR 1\<rparr>, e1\<lparr>be_gic := g\<rparr>)"
proof -
  have "load_le 2 m (avail_ring d + 2) = unat (last_avail_id d) + 1" "avail_ring d \<noteq> 0" using q by (simp_all add: one_request_def)
  with idx have "(of_nat (load_le 2 (be_mem e1) (avail_ring d + 2)) :: u16) = last_avail_id d + 1" "avail_ring d \<noteq> 0" by simp_all
  then have "blk_get_next_avail_id d1 (be_mem e1) = Some (None, d1)" by (simp add: blk_get_next_avail_id_def d1)
  then have "blk_step cntpct blk f vm (d1, e1) = Some (Empty, d1, e1)" by (simp add: blk_step_def)
  with s have "serve (blk_step cntpct blk f vm) (d, e) = Some (Empty, d1, e1)"
    by (simp add: serve.simps [of _ "(d, e)"] serve.simps [of _ "(d1, e1)"])
  moreover obtain g p inj where "trigger_interrupt VIRTIO_BLK_INT_ID None (be_gic e1) = Some (g, p, inj)"
    by (rule trigger_interrupt_total [OF g, of VIRTIO_BLK_INT_ID None "snd (be_gic e1)"]) (simp_all add: VIRTIO_BLK_INT_ID_def)
  ultimately show ?thesis by (auto simp: blk_operation_def blk_interrupt_def)
qed



definition example_request :: bmem where
  "example_request = fold (\<lambda>(n, a, v). store_le n a v)
     [(8, 65536, 77824), (4, 65544, 16), (2, 65548, 1), (2, 65550, 1),
      (8, 65552, 1048576), (4, 65560, 1024), (2, 65564, 3), (2, 65566, 2),
      (8, 65568, 81920), (4, 65576, 1), (2, 65580, 2), (2, 65582, 0),
      (2, 69634, 1), (2, 69636, 0), (4, 77824, 0), (4, 77828, 0), (8, 77832, 2)] (fs_mem example_world)"

definition example_disk :: VirtioBlkMmio where
  "example_disk = \<lparr>queue_size = 8, descriptor = 65536, avail_ring = 69632, used_ring = 73728, last_avail_id = 0, used_id = 0,
     blk_file = example_file, blk_interrupt_status = 0, blk_status = 7, blk_queue_ready = True,
     blk_page_size = 4096, config_read_logged = False\<rparr>"

definition example_guest :: guest_ram where
  "example_guest = \<lparr>ram_virtual_base_address = 0, ram_physical_base_address = 0, ram_size = 2 ^ 24\<rparr>"

definition example_env :: "(nat \<Rightarrow> u8) blk_env" where
  "example_env = \<lparr>be_fs = example_world\<lparr>fs_mem := example_request\<rparr>, be_gic = (GicDistributorMmio_new 1, pcpu_reset 0),
     be_readings = 0, VBLK_REQUESTS = 0, VBLK_BYTES = 0, VBLK_CYCLES_TOTAL = 0, VBLK_CYCLES_MAX = 0\<rparr>"

lemma example_descriptors:
  "blk_desc example_disk example_request 0 = \<lparr>vd_address = 77824, vd_length = 16, vd_flags = 1, vd_next = 1\<rparr>"
  "blk_desc example_disk example_request 1 = \<lparr>vd_address = 1048576, vd_length = 1024, vd_flags = 3, vd_next = 2\<rparr>"
  "blk_desc example_disk example_request 2 = \<lparr>vd_address = 81920, vd_length = 1, vd_flags = 2, vd_next = 0\<rparr>"
  by (simp_all add: blk_desc_def example_disk_def load_desc_def example_request_def load_store_le_other)

lemma example_one_request: "one_request example_disk example_request 0"
  by (simp add: one_request_def example_disk_def example_request_def load_store_le_other usize_limit_def)

lemma example_read_request: "read_request example_guest example_disk example_request 0 2 1024 1048576 81920"
proof -
  have "load_req example_request 77824 = \<lparr>req_type = 0, req_reserved = 0, req_sector = 2\<rparr>"
    by (simp add: load_req_def example_request_def load_store_le_other)
  then show ?thesis
    by (simp add: read_request_def example_descriptors Let_def VIRT_QUEUE_DESC_FLAGS_NEXT_def get_physical_address_def
        translate_guest_physical_address_def example_guest_def uadd_def usub_def usize_limit_def VIRTIO_BLK_TYPE_IN_def)
qed


lemma example_apart: "apart example_disk example_request 0 1048576 1024 81920 {1048576..<1050624}"
  by (simp only: apart_def Let_def example_descriptors VirtQueueDesc.select_convs)
    (auto simp: used_bytes_def used_slot_def example_disk_def)


end
