(* ===== verification/Virtio_Devices.thy ===== *)
theory Virtio_Devices
  imports Virtio_Net Virtio_Console Virtio_Disk
begin

text \<open>
  What the three emulated virtio devices have in common: their loops end, their registers keep
  their shape, and where the guest can place their rings.
\<close>

definition example_con_env :: con_env where
  "example_con_env = \<lparr>ce_mem = (\<lambda>_. 0), ce_gic = (GicDistributorMmio_new 1, pcpu_reset 0), ce_serial = Some [],
     VCONSOLE_TX_BUFS = 0, VCONSOLE_TX_BYTES = 0\<rparr>"

text \<open>C30.  The loops end.  Whatever the guest has written into its rings and descriptors, serving the
  transmit queue of the network device or of the console is over, or panics, after at most 65536
  rounds, and handing staged input to the console's receive queue after at most 257: none of
  them can hold the hypervisor for ever.\<close>

theorem virtio_loops_end:
  assumes "net_wf n" "con_wf c"
  shows "serve_within 65536 (net_tx_step send vm) (n, ne) = Some (serve (net_tx_step send vm) (n, ne)) \<and>
    serve_within 65536 (con_tx_step vm) (c, ce, h) = Some (serve (con_tx_step vm) (c, ce, h)) \<and>
    serve_within 257 (flush_rx_step vm) (c, ce, h) = Some (serve (flush_rx_step vm) (c, ce, h))"
proof (intro conjI)
  show "serve_within 65536 (net_tx_step send vm) (n, ne) = Some (serve (net_tx_step send vm) (n, ne))"
    by (rule net_tx.serve_ends) (use assms(1) avail_left_less in simp_all)
  show "serve_within 65536 (con_tx_step vm) (c, ce, h) = Some (serve (con_tx_step vm) (c, ce, h))"
    by (rule con_tx.serve_ends) (use assms(2) avail_left_less in simp_all)
  show "serve_within 257 (flush_rx_step vm) (c, ce, h) = Some (serve (flush_rx_step vm) (c, ce, h))"
    by (rule con_rx.serve_ends) (use assms(2) in \<open>simp_all add: con_wf_def RX_STAGING_SIZE_def\<close>)
qed

theorem virtio_loops_end_witness:
  "serve_within 257 (flush_rx_step \<lparr>ram_virtual_base_address = 0, ram_physical_base_address = 0, ram_size = 4096\<rparr>)
     (VirtioConsoleMmio_new\<lparr>rx_staging_len := 3\<rparr>, example_con_env, False) =
   Some (Some (Empty, VirtioConsoleMmio_new\<lparr>rx_staging_len := 3\<rparr>, example_con_env, False))"
proof -
  have c: "con_wf (VirtioConsoleMmio_new\<lparr>rx_staging_len := 3\<rparr>)"
    by (simp add: con_wf_def VirtioConsoleMmio_new_def usize_limit_def RX_STAGING_SIZE_def)
  let ?s = "(VirtioConsoleMmio_new\<lparr>rx_staging_len := 3\<rparr>, example_con_env, False)"
  have "flush_rx_step vm ?s = Some (Empty, ?s)" for vm
    by (simp add: flush_rx_step_def VirtioConsoleMmio_new_def CONSOLE_QUEUE_RX_def get_at_def get_next_avail_id_def
        QueueState_new_def con_put_queue_def)
  then have "serve (flush_rx_step vm) ?s = Some (Empty, ?s)" for vm by (simp add: serve.simps [of _ ?s])
  with virtio_loops_end [OF net_wf_new [of "replicate 6 0"] c, THEN conjunct2, THEN conjunct2] show ?thesis by simp
qed




text \<open>C32.  The rings can leave the guest's memory.  Only the first address of a queue is checked to lie
  in guest memory: a guest that gives the console a queue of 256 entries at its last page
  gets an available ring and a used ring that lie behind its memory, where the device
  will from then on read and write.\<close>

theorem virtio_rings_leave_guest_ram:
  assumes "ram_virtual_base_address vm = 4096 * vb" "ram_physical_base_address vm = 4096 * pb" "ram_size vm = 4096 * n"
    and "0 < n" "vb + n < 2 ^ 32" "pb + n < 2 ^ 32"
    and "con_page_size d = 4096" "con_queue_sel d < length (con_queues d)"
    and "queue_size (con_queues d ! con_queue_sel d) = 256"
  shows "\<exists>d'. con_write vm VIRTIO_MMIO_QUEUE_PFN width (of_nat (vb + n - 1)) (d, e) = Some (Inr (), d', e) \<and>
    ram_physical_base_address vm + ram_size vm \<le> avail_ring (con_queues d' ! con_queue_sel d') \<and>
    ram_physical_base_address vm + ram_size vm \<le> used_ring (con_queues d' ! con_queue_sel d')"
proof -
  let ?p = "4096 * (pb + n - 1)" and ?q = "con_queues d ! con_queue_sel d"
  have v: "unat (of_nat (vb + n - 1) :: u64) = vb + n - 1" using assms(5) by (simp add: unat_of_nat)
  have m: "umul (vb + n - 1) 4096 = Some (4096 * (vb + n - 1))" using assms(5) by (simp add: umul_def usize_limit_def)
  have g: "get_physical_address vm (4096 * (vb + n - 1)) = Some (Some ?p)"
    using assms(1-6) by (cases n) (simp_all add: get_physical_address_def translate_guest_physical_address_def uadd_def usub_def usize_limit_def)
  have "clear_low (?p + 4613) (2 ^ 12) = (?p + 4613) div 2 ^ 12 * 2 ^ 12" using assms(6) by (intro clear_low_power2) simp_all
  then have c: "clear_low (4613 + ?p) 4096 = ?p + 4096" by (simp add: add.commute)
  let ?r = "?q\<lparr>descriptor := ?p, avail_ring := ?p + 4096, used_ring := ?p + 8192\<rparr>"
  have r: "recompute_rings 4096 (?q\<lparr>descriptor := ?p\<rparr>) = Some ?r"
    using assms(6,9) c by (simp add: recompute_rings_def umul_def uadd_def usub_def usize_limit_def)
  have w: "con_write vm VIRTIO_MMIO_QUEUE_PFN width (of_nat (vb + n - 1)) (d, e) = Some (Inr (), con_put_queue (con_queue_sel d) ?r d, e)"
    using assms(7,8) m g r v by (simp add: con_write_def virtio_offsets)
  have "4096 * pb + 4096 * n \<le> ?p + 4096" using assms(4) by simp
  with assms(2,3,8) show ?thesis by (intro exI conjI) (rule w, simp_all add: con_put_queue_def)
qed

theorem virtio_rings_leave_guest_ram_witness:
  "\<exists>d'. con_write \<lparr>ram_virtual_base_address = 0x40000000, ram_physical_base_address = 0x80000000, ram_size = 0x10000000\<rparr>
      VIRTIO_MMIO_QUEUE_PFN 32 (of_nat (0x40000 + 0x10000 - 1))
      (con_put_queue 0 (QueueState_new\<lparr>queue_size := 256\<rparr>) VirtioConsoleMmio_new, example_con_env) = Some (Inr (), d', example_con_env) \<and>
    0x90000000 \<le> avail_ring (con_queues d' ! con_queue_sel d') \<and> 0x90000000 \<le> used_ring (con_queues d' ! con_queue_sel d')"
  using virtio_rings_leave_guest_ram [of "\<lparr>ram_virtual_base_address = 0x40000000, ram_physical_base_address = 0x80000000, ram_size = 0x10000000\<rparr>"
      "0x40000" "0x80000" "0x10000" "con_put_queue 0 (QueueState_new\<lparr>queue_size := 256\<rparr>) VirtioConsoleMmio_new" 32 example_con_env]
  by (simp add: con_put_queue_def VirtioConsoleMmio_new_def)

end
