(* ===== verification/Vm.thy ===== *)
theory Vm
  imports Virtio_Devices Pl011_Mmio
begin

text \<open>
  Virtual machines and their virtual CPUs: \<^verbatim>\<open>vm.rs\<close>, with the trap frame of
  \<^verbatim>\<open>exception.rs\<close>.

  The system registers of the executing CPU are a function from their names, its GIC registers the
  record \<open>pcpu\<close> and its stage-2 registers those of \<open>stage2\<close>; the accessors of \<^verbatim>\<open>asm.rs\<close>, one
  \<^verbatim>\<open>mrs\<close> or \<^verbatim>\<open>msr\<close> instruction each, read and update them.  An \<open>Arc<VM>\<close> is the
  \<open>vm_id\<close> of an entry of \<open>VM_LIST\<close>, so that all its clones see the same context.  Locks are left
  out: the scheduler runs on the CPU that owns the virtual CPUs it switches between.
\<close>

section \<open>The trap frame\<close>

record Registers =
  reg_x0 :: u64
  reg_x1 :: u64
  reg_x2 :: u64
  reg_x3 :: u64
  reg_x4 :: u64
  reg_x5 :: u64
  reg_x6 :: u64
  reg_x7 :: u64
  reg_x8 :: u64
  reg_x9 :: u64
  reg_x10 :: u64
  reg_x11 :: u64
  reg_x12 :: u64
  reg_x13 :: u64
  reg_x14 :: u64
  reg_x15 :: u64
  reg_x16 :: u64
  reg_x17 :: u64
  reg_x18 :: u64
  reg_x19 :: u64
  reg_x20 :: u64
  reg_x21 :: u64
  reg_x22 :: u64
  reg_x23 :: u64
  reg_x24 :: u64
  reg_x25 :: u64
  reg_x26 :: u64
  reg_x27 :: u64
  reg_x28 :: u64
  reg_x29 :: u64
  reg_x30 :: u64
  reg_padding :: u64

definition NUMBER_OF_SLOTS :: nat where "NUMBER_OF_SLOTS = 32"

definition as_array :: "Registers \<Rightarrow> u64 list" where
  "as_array r = [reg_x0 r, reg_x1 r, reg_x2 r, reg_x3 r, reg_x4 r, reg_x5 r, reg_x6 r, reg_x7 r, reg_x8 r,
      reg_x9 r, reg_x10 r, reg_x11 r, reg_x12 r, reg_x13 r, reg_x14 r, reg_x15 r, reg_x16 r, reg_x17 r,
      reg_x18 r, reg_x19 r, reg_x20 r, reg_x21 r, reg_x22 r, reg_x23 r, reg_x24 r, reg_x25 r, reg_x26 r,
      reg_x27 r, reg_x28 r, reg_x29 r, reg_x30 r, reg_padding r]"

definition load_array :: "u64 list \<Rightarrow> Registers" where
  "load_array a = \<lparr>reg_x0 = a ! 0, reg_x1 = a ! 1, reg_x2 = a ! 2, reg_x3 = a ! 3, reg_x4 = a ! 4,
      reg_x5 = a ! 5, reg_x6 = a ! 6, reg_x7 = a ! 7, reg_x8 = a ! 8, reg_x9 = a ! 9, reg_x10 = a ! 10,
      reg_x11 = a ! 11, reg_x12 = a ! 12, reg_x13 = a ! 13, reg_x14 = a ! 14, reg_x15 = a ! 15, reg_x16 = a !
      16, reg_x17 = a ! 17, reg_x18 = a ! 18, reg_x19 = a ! 19, reg_x20 = a ! 20, reg_x21 = a ! 21, reg_x22 =
      a ! 22, reg_x23 = a ! 23, reg_x24 = a ! 24, reg_x25 = a ! 25, reg_x26 = a ! 26, reg_x27 = a ! 27,
      reg_x28 = a ! 28, reg_x29 = a ! 29, reg_x30 = a ! 30, reg_padding = a ! 31\<rparr>"

section \<open>The system registers\<close>

datatype sysreg = SCTLR_EL1 | TTBR0_EL1 | TTBR1_EL1 | TCR_EL1 | MAIR_EL1 | AMAIR_EL1 | VBAR_EL1 | CPACR_EL1
  | CONTEXTIDR_EL1 | ESR_EL1 | FAR_EL1 | PAR_EL1 | AFSR0_EL1 | AFSR1_EL1 | TPIDR_EL0 | TPIDR_EL1 | SP_EL0 | SP_EL1
  | ELR_EL1 | SPSR_EL1 | CNTKCTL_EL1 | CNTV_CTL_EL0 | CNTV_CVAL_EL0
  | ELR_EL2 | SPSR_EL2 | TPIDR_EL2 | VPIDR_EL2 | VMPIDR_EL2 | HCR_EL2 | ESR_EL2 | FAR_EL2 | HPFAR_EL2 | MIDR_EL1 | MPIDR_EL1 | ID_AA64MMFR0_EL1

type_synonym sysregs = "sysreg \<Rightarrow> u64"

record El1Context =
  sctlr_el1 :: u64
  ttbr0_el1 :: u64
  ttbr1_el1 :: u64
  tcr_el1 :: u64
  mair_el1 :: u64
  amair_el1 :: u64
  vbar_el1 :: u64
  cpacr_el1 :: u64
  contextidr_el1 :: u64
  esr_el1 :: u64
  far_el1 :: u64
  par_el1 :: u64
  afsr0_el1 :: u64
  afsr1_el1 :: u64
  tpidr_el0 :: u64
  tpidr_el1 :: u64
  sp_el0 :: u64
  sp_el1 :: u64
  elr_el1 :: u64
  spsr_el1 :: u64
  cntkctl_el1 :: u64
  cntv_ctl_el0 :: u64
  cntv_cval_el0 :: u64

definition capture_current :: "sysregs \<Rightarrow> El1Context" where
  "capture_current s = \<lparr>sctlr_el1 = s SCTLR_EL1, ttbr0_el1 = s TTBR0_EL1, ttbr1_el1 = s TTBR1_EL1,
      tcr_el1 = s TCR_EL1, mair_el1 = s MAIR_EL1, amair_el1 = s AMAIR_EL1, vbar_el1 = s VBAR_EL1, cpacr_el1 =
      s CPACR_EL1, contextidr_el1 = s CONTEXTIDR_EL1, esr_el1 = s ESR_EL1, far_el1 = s FAR_EL1, par_el1 = s
      PAR_EL1, afsr0_el1 = s AFSR0_EL1, afsr1_el1 = s AFSR1_EL1, tpidr_el0 = s TPIDR_EL0, tpidr_el1 = s
      TPIDR_EL1, sp_el0 = s SP_EL0, sp_el1 = s SP_EL1, elr_el1 = s ELR_EL1, spsr_el1 = s SPSR_EL1, cntkctl_el1
      = s CNTKCTL_EL1, cntv_ctl_el0 = s CNTV_CTL_EL0, cntv_cval_el0 = s CNTV_CVAL_EL0\<rparr>"

definition El1Context_activate :: "El1Context \<Rightarrow> sysregs \<Rightarrow> sysregs" where
  "El1Context_activate c s = s(SCTLR_EL1 := sctlr_el1 c, TTBR0_EL1 := ttbr0_el1 c, TTBR1_EL1 := ttbr1_el1 c,
      TCR_EL1 := tcr_el1 c, MAIR_EL1 := mair_el1 c, AMAIR_EL1 := amair_el1 c, VBAR_EL1 := vbar_el1 c,
      CPACR_EL1 := cpacr_el1 c, CONTEXTIDR_EL1 := contextidr_el1 c, ESR_EL1 := esr_el1 c, FAR_EL1 := far_el1
      c, PAR_EL1 := par_el1 c, AFSR0_EL1 := afsr0_el1 c, AFSR1_EL1 := afsr1_el1 c, TPIDR_EL0 := tpidr_el0 c,
      TPIDR_EL1 := tpidr_el1 c, SP_EL0 := sp_el0 c, SP_EL1 := sp_el1 c, ELR_EL1 := elr_el1 c, SPSR_EL1 :=
      spsr_el1 c, CNTKCTL_EL1 := cntkctl_el1 c, CNTV_CTL_EL0 := cntv_ctl_el0 c, CNTV_CVAL_EL0 := cntv_cval_el0
      c)"

definition advance_elr_el2 :: "sysregs \<Rightarrow> sysregs option" where
  "advance_elr_el2 s = do {
     a \<leftarrow> wadd (s ELR_EL2) 4;
     Some (s(ELR_EL2 := a)) }"

definition mpidr_to_affinity :: "u64 \<Rightarrow> u64" where
  "mpidr_to_affinity mpidr = mpidr AND NOT (push_bit 31 1 OR push_bit 30 1)"

section \<open>Virtual machines\<close>

record VcpuContext =
  vc_regs :: "u64 list"
  vc_elr_el2 :: u64
  vc_spsr_el2 :: u64
  vc_gich_lr :: "u32 list"
  vc_el1 :: El1Context

datatype mmio_device = Pl011Device | BlkDevice | GicdDevice | NetDevice | ConsoleDevice

record MmioEntry =
  base_address :: usize
  mmio_length :: usize
  handler :: mmio_device

record devices =
  dv_pl011 :: pl011
  dv_blk :: VirtioBlkMmio
  dv_gicd :: gicd
  dv_net :: VirtioNetMmio
  dv_console :: VirtioConsoleMmio

record VM = guest_ram +
  vm_id :: usize
  owner_affinity :: u64
  stage2_table_address :: usize
  vmid :: u64
  mmio_handlers :: "MmioEntry list"
  vm_devices :: devices
  vm_context :: VcpuContext

text \<open>What the hypervisor keeps, and the registers of the executing CPU.\<close>

record hyp =
  VM_LIST :: "VM list"
  NEXT_VM_ID :: usize
  ACTIVE_VM :: "usize option"
  NEXT_VMID :: usize
  RESET_EL1_CONTEXT :: "El1Context option"
  sys :: sysregs
  cpu_gic :: pcpu
  cpu_stage2 :: stage2

definition reset_el1_context :: "hyp \<Rightarrow> El1Context \<times> hyp" where
  "reset_el1_context h =
     (case RESET_EL1_CONTEXT h of
        Some c \<Rightarrow> (c, h)
      | None \<Rightarrow> (capture_current (sys h), h\<lparr>RESET_EL1_CONTEXT := Some (capture_current (sys h))\<rparr>))"

definition VcpuContext_new :: "hyp \<Rightarrow> VcpuContext \<times> hyp" where
  "VcpuContext_new h =
     (let (c, h) = reset_el1_context h
      in (\<lparr>vc_regs = replicate NUMBER_OF_SLOTS 0, vc_elr_el2 = 0, vc_spsr_el2 = 0,
           vc_gich_lr = replicate NUMBER_OF_SUPPORTED_LRS 0, vc_el1 = c\<rparr>, h))"

definition allocate_vmid :: "hyp \<Rightarrow> u64 \<times> hyp" where
  "allocate_vmid h = (of_nat (NEXT_VMID h mod 256), h\<lparr>NEXT_VMID := (NEXT_VMID h + 1) mod usize_limit\<rparr>)"

definition VM_new :: "usize \<Rightarrow> u64 \<Rightarrow> usize \<Rightarrow> u64 \<Rightarrow> usize \<Rightarrow> usize \<Rightarrow> usize \<Rightarrow> MmioEntry list \<Rightarrow> devices \<Rightarrow> hyp \<Rightarrow> VM \<times> hyp" where
  "VM_new i affinity table v ram_virtual ram_physical ram handlers devs h =
     (let (c, h) = VcpuContext_new h
      in (\<lparr>ram_virtual_base_address = ram_virtual, ram_physical_base_address = ram_physical, ram_size = ram, vm_id = i,
           owner_affinity = affinity, stage2_table_address = table, vmid = v, mmio_handlers = handlers,
           vm_devices = devs, vm_context = c\<rparr>, h))"

definition SPSR_EL2_M_EL1H :: u64 where "SPSR_EL2_M_EL1H = 5"

definition set_initial_context :: "usize \<Rightarrow> usize \<Rightarrow> VM \<Rightarrow> VM option" where
  "set_initial_context boot_entry_point boot_argument v = do {
     regs \<leftarrow> set_at (vc_regs (vm_context v)) 0 (of_nat boot_argument);
     Some (v\<lparr>vm_context := (vm_context v)\<lparr>vc_regs := regs, vc_elr_el2 := of_nat boot_entry_point,
       vc_spsr_el2 := SPSR_EL2_M_EL1H\<rparr>\<rparr>) }"

definition save_context :: "Registers \<Rightarrow> u64 \<Rightarrow> u64 \<Rightarrow> sysregs \<Rightarrow> pcpu \<Rightarrow> VM \<Rightarrow> VM option" where
  "save_context registers elr_el2 spsr_el2 s p v = do {
     lrs \<leftarrow> for_each [0..<NUMBER_OF_SUPPORTED_LRS] (\<lambda>i lrs. set_at lrs i (get_gich_lr i p)) (vc_gich_lr (vm_context v));
     Some (v\<lparr>vm_context := \<lparr>vc_regs = as_array registers, vc_elr_el2 = elr_el2, vc_spsr_el2 = spsr_el2,
       vc_gich_lr = lrs, vc_el1 = capture_current s\<rparr>\<rparr>) }"

definition restore_context :: "VM \<Rightarrow> sysregs \<Rightarrow> pcpu \<Rightarrow> (u64 \<times> u64 \<times> Registers \<times> sysregs \<times> pcpu) option" where
  "restore_context v s p = do {
     let c = vm_context v;
     p \<leftarrow> for_each [0..<NUMBER_OF_SUPPORTED_LRS]
       (\<lambda>i p. map_option (\<lambda>lr. set_gich_lr i lr p) (get_at (vc_gich_lr c) i)) p;
     Some (vc_elr_el2 c, vc_spsr_el2 c, load_array (vc_regs c), El1Context_activate (vc_el1 c) s, p) }"

section \<open>Finding virtual machines\<close>

definition find_vm :: "usize \<Rightarrow> hyp \<Rightarrow> VM option" where
  "find_vm i h = find (\<lambda>v. vm_id v = i) (VM_LIST h)"

fun update_vm :: "usize \<Rightarrow> VM \<Rightarrow> VM list \<Rightarrow> VM list" where
  "update_vm i v' [] = []"
| "update_vm i v' (v # vs) = (if vm_id v = i then v' # vs else v # update_vm i v' vs)"

definition get_current_vm :: "hyp \<Rightarrow> VM option" where
  "get_current_vm h = find_vm (unat (sys h TPIDR_EL2)) h"

definition get_active_vm :: "hyp \<Rightarrow> VM option" where
  "get_active_vm h = do { i \<leftarrow> ACTIVE_VM h; find_vm i h }"

definition switch_active_vm :: "usize \<Rightarrow> hyp \<Rightarrow> bool \<times> hyp" where
  "switch_active_vm i h =
     (case find_vm i h of
        Some v \<Rightarrow> (True, h\<lparr>ACTIVE_VM := Some (vm_id v)\<rparr>)
      | None \<Rightarrow> (False, h))"

definition find_next_same_affinity_vcpu :: "usize \<Rightarrow> u64 \<Rightarrow> hyp \<Rightarrow> VM option" where
  "find_next_same_affinity_vcpu current_vm_id affinity h =
     (let candidates = filter (\<lambda>v. owner_affinity v = affinity) (VM_LIST h)
      in if length candidates \<le> 1 then None
         else (case find (\<lambda>i. vm_id (candidates ! i) = current_vm_id) [0..<length candidates] of
                 None \<Rightarrow> None
               | Some position \<Rightarrow> Some (candidates ! ((position + 1) mod length candidates))))"

definition find_other_same_affinity_vcpu :: "usize \<Rightarrow> u64 \<Rightarrow> hyp \<Rightarrow> VM option" where
  "find_other_same_affinity_vcpu retiring_vm_id affinity h =
     find (\<lambda>v. owner_affinity v = affinity \<and> vm_id v \<noteq> retiring_vm_id) (VM_LIST h)"

section \<open>Switching\<close>

definition HCR_EL2_value :: u64 where
  "HCR_EL2_value = push_bit 31 1 OR push_bit 41 1 OR push_bit 5 1 OR push_bit 4 1 OR push_bit 3 1 OR push_bit 13 1
     OR push_bit 19 1 OR push_bit 0 1"

definition setup_hypervisor_registers :: "sysregs \<Rightarrow> sysregs" where
  "setup_hypervisor_registers s = s(VPIDR_EL2 := s MIDR_EL1, VMPIDR_EL2 := s MPIDR_EL1, HCR_EL2 := HCR_EL2_value)"

definition activate_vm_on_this_pcpu :: "VM \<Rightarrow> hyp \<Rightarrow> hyp" where
  "activate_vm_on_this_pcpu v h =
     (let s = setup_hypervisor_registers (sys h);
          t = set_vtcr_el2_for_this_pcpu (s ID_AA64MMFR0_EL1) (cpu_stage2 h);
          s = s(SCTLR_EL1 := s SCTLR_EL1 AND NOT 1);
          t = activate_stage2_translation_table (stage2_table_address v) (vmid v) t
      in h\<lparr>sys := s(TPIDR_EL2 := of_nat (vm_id v)), cpu_stage2 := t\<rparr>)"

text \<open>The part both switches share: the context of \<open>next\<close> is loaded into the CPU.\<close>

definition resume_vcpu :: "VM \<Rightarrow> hyp \<Rightarrow> (Registers \<times> hyp) option" where
  "resume_vcpu nxt h = do {
     (elr, spsr, registers, s, p) \<leftarrow> restore_context nxt (sys h) (cpu_gic h);
     let t = activate_stage2_translation_table (stage2_table_address nxt) (vmid nxt) (cpu_stage2 h);
     Some (registers, h\<lparr>sys := s(ELR_EL2 := elr, SPSR_EL2 := spsr, TPIDR_EL2 := of_nat (vm_id nxt)),
       cpu_gic := p, cpu_stage2 := t, ACTIVE_VM := Some (vm_id nxt)\<rparr>) }"

definition switch_to_other_vcpu_on_retire :: "usize \<Rightarrow> Registers \<Rightarrow> hyp \<Rightarrow> (bool \<times> Registers \<times> hyp) option" where
  "switch_to_other_vcpu_on_retire retiring_vm_id registers h =
     (case find_other_same_affinity_vcpu retiring_vm_id (mpidr_to_affinity (sys h MPIDR_EL1)) h of
        None \<Rightarrow> Some (False, registers, h)
      | Some nxt \<Rightarrow> do {
          (registers, h) \<leftarrow> resume_vcpu nxt h;
          Some (True, registers, h) })"

definition try_yield_to_next_vcpu :: "Registers \<Rightarrow> hyp \<Rightarrow> (bool \<times> Registers \<times> hyp) option" where
  "try_yield_to_next_vcpu registers h = do {
     current \<leftarrow> get_current_vm h;
     (case find_next_same_affinity_vcpu (vm_id current) (mpidr_to_affinity (sys h MPIDR_EL1)) h of
        None \<Rightarrow> Some (False, registers, h)
      | Some nxt \<Rightarrow> do {
          s \<leftarrow> advance_elr_el2 (sys h);
          current' \<leftarrow> save_context registers (s ELR_EL2) (s SPSR_EL2) s (cpu_gic h) current;
          let h = h\<lparr>sys := s, VM_LIST := update_vm (vm_id current) current' (VM_LIST h)\<rparr>;
          nxt \<leftarrow> find_vm (vm_id nxt) h;
          (registers, h) \<leftarrow> resume_vcpu nxt h;
          Some (True, registers, h) }) }"

section \<open>Saving and restoring\<close>

lemma load_as_array [simp]: "load_array (as_array r) = r"
  by (simp add: load_array_def as_array_def)

lemma length_as_array [simp]: "length (as_array r) = NUMBER_OF_SLOTS"
  by (simp add: as_array_def NUMBER_OF_SLOTS_def)

lemma capture_activate [simp]: "capture_current (El1Context_activate c s) = c"
  by (simp add: capture_current_def El1Context_activate_def)

text \<open>The registers a context does not hold: those of EL2 and the identification registers.\<close>

fun el2_register :: "sysreg \<Rightarrow> bool" where
  "el2_register r = (r \<in> {ELR_EL2, SPSR_EL2, TPIDR_EL2, VPIDR_EL2, VMPIDR_EL2, HCR_EL2, ESR_EL2, FAR_EL2, HPFAR_EL2,
     MIDR_EL1, MPIDR_EL1, ID_AA64MMFR0_EL1})"

lemma activate_el2 [simp]: "el2_register r \<Longrightarrow> El1Context_activate c s r = s r"
  by (auto simp: El1Context_activate_def)

lemma activate_captured: "\<not> el2_register r \<Longrightarrow> El1Context_activate (capture_current s) s' r = s r"
  by (cases r) (simp_all add: El1Context_activate_def capture_current_def)

lemma capture_el2 [simp]: "el2_register r \<Longrightarrow> capture_current (s(r := x)) = capture_current s"
  by (auto simp: capture_current_def)

definition context_wf :: "VcpuContext \<Rightarrow> bool" where
  "context_wf c \<longleftrightarrow> length (vc_regs c) = NUMBER_OF_SLOTS \<and> length (vc_gich_lr c) = NUMBER_OF_SUPPORTED_LRS"

definition snapshot :: "Registers \<Rightarrow> sysregs \<Rightarrow> pcpu \<Rightarrow> VcpuContext" where
  "snapshot r s p = \<lparr>vc_regs = as_array r, vc_elr_el2 = s ELR_EL2 + 4, vc_spsr_el2 = s SPSR_EL2,
     vc_gich_lr = map (gich_lr p) [0..<NUMBER_OF_SUPPORTED_LRS], vc_el1 = capture_current s\<rparr>"

lemma context_wf_snapshot [simp]: "context_wf (snapshot r s p)"
  by (simp add: context_wf_def snapshot_def)

lemma upt_lrs: "[0..<NUMBER_OF_SUPPORTED_LRS] = [0, 1, 2, 3]"
  by (simp add: NUMBER_OF_SUPPORTED_LRS_def upt_rec)

lemma save_context_Some:
  assumes "context_wf (vm_context v)"
  shows "save_context r elr spsr s p v = Some (v\<lparr>vm_context := \<lparr>vc_regs = as_array r, vc_elr_el2 = elr, vc_spsr_el2 = spsr,
    vc_gich_lr = map (gich_lr p) [0..<NUMBER_OF_SUPPORTED_LRS], vc_el1 = capture_current s\<rparr>\<rparr>)"
proof -
  obtain a b c d where "vc_gich_lr (vm_context v) = [a, b, c, d]"
    using assms by (auto simp: context_wf_def NUMBER_OF_SUPPORTED_LRS_def length_Suc_conv numeral_eq_Suc)
  then show ?thesis by (simp add: save_context_def upt_lrs set_at_def get_gich_lr_def)
qed

lemma restore_context_Some:
  assumes "context_wf (vm_context v)"
  shows "restore_context v s p = Some (vc_elr_el2 (vm_context v), vc_spsr_el2 (vm_context v), load_array (vc_regs (vm_context v)),
    El1Context_activate (vc_el1 (vm_context v)) s,
    p\<lparr>gich_lr := \<lambda>i. if i < NUMBER_OF_SUPPORTED_LRS then vc_gich_lr (vm_context v) ! i else gich_lr p i\<rparr>)"
proof -
  obtain a b c d where l: "vc_gich_lr (vm_context v) = [a, b, c, d]"
    using assms by (auto simp: context_wf_def NUMBER_OF_SUPPORTED_LRS_def length_Suc_conv numeral_eq_Suc)
  have "(gich_lr p)(0 := a, Suc 0 := b, 2 := c, 3 := d) = (\<lambda>i. if i < 4 then [a, b, c, d] ! i else gich_lr p i)"
    by (auto simp: fun_eq_iff numeral_eq_Suc less_Suc_eq)
  then show ?thesis unfolding restore_context_def upt_lrs Let_def l
    by (simp add: get_at_def set_gich_lr_def NUMBER_OF_SUPPORTED_LRS_def Let_def)
qed

text \<open>The CPU runs what a context holds.\<close>

definition resumed :: "VcpuContext \<Rightarrow> Registers \<Rightarrow> hyp \<Rightarrow> bool" where
  "resumed c r h \<longleftrightarrow> r = load_array (vc_regs c) \<and> sys h ELR_EL2 = vc_elr_el2 c \<and> sys h SPSR_EL2 = vc_spsr_el2 c \<and>
     capture_current (sys h) = vc_el1 c \<and> (\<forall>i < NUMBER_OF_SUPPORTED_LRS. gich_lr (cpu_gic h) i = vc_gich_lr c ! i)"

lemma resume_vcpu_Some:
  assumes "context_wf (vm_context v)"
  shows "\<exists>r h'. resume_vcpu v h = Some (r, h') \<and> resumed (vm_context v) r h' \<and> VM_LIST h' = VM_LIST h \<and>
    sys h' TPIDR_EL2 = of_nat (vm_id v) \<and> sys h' MPIDR_EL1 = sys h MPIDR_EL1 \<and> ACTIVE_VM h' = Some (vm_id v) \<and>
    vttbr_el2 (cpu_stage2 h') = (push_bit VTTBR_VMID_BITS_OFFSET (vmid v) AND VTTBR_VMID) OR (of_nat (stage2_table_address v) AND VTTBR_BADDR)"
  by (simp add: resume_vcpu_def restore_context_Some [OF assms] resumed_def activate_stage2_translation_table_def)


section \<open>The turns of the virtual CPUs\<close>

definition roster :: "hyp \<Rightarrow> (usize \<times> u64) list" where
  "roster h = map (\<lambda>v. (vm_id v, owner_affinity v)) (VM_LIST h)"

text \<open>The virtual machines of this CPU, in the order of the list.\<close>

definition vcpus :: "hyp \<Rightarrow> usize list" where
  "vcpus h = map fst (filter (\<lambda>x. snd x = mpidr_to_affinity (sys h MPIDR_EL1)) (roster h))"

definition vms_wf :: "hyp \<Rightarrow> bool" where
  "vms_wf h \<longleftrightarrow> distinct (map vm_id (VM_LIST h)) \<and>
     (\<forall>v \<in> set (VM_LIST h). vm_id v < usize_limit \<and> context_wf (vm_context v))"

lemma vcpus_filter: "vcpus h = map vm_id (filter (\<lambda>v. owner_affinity v = mpidr_to_affinity (sys h MPIDR_EL1)) (VM_LIST h))"
  by (simp add: vcpus_def roster_def filter_map comp_def)

lemma find_distinct: "distinct (map f xs) \<Longrightarrow> x \<in> set xs \<Longrightarrow> find (\<lambda>y. f y = f x) xs = Some x"
  by (induction xs) auto

lemma find_index: "distinct xs \<Longrightarrow> p < length xs \<Longrightarrow> find (\<lambda>i. xs ! i = xs ! p) [0..<length xs] = Some p"
  by (auto simp: find_Some_iff nth_eq_iff_index_eq intro!: exI [of _ p])

lemma vcpus_distinct: "vms_wf h \<Longrightarrow> distinct (vcpus h)"
  by (simp add: vcpus_filter vms_wf_def distinct_map_filter)

lemma find_vm_vcpu:
  assumes "vms_wf h" "p < length (vcpus h)"
  obtains v where "find_vm (vcpus h ! p) h = Some v" "vm_id v = vcpus h ! p" "v \<in> set (VM_LIST h)"
    "filter (\<lambda>v. owner_affinity v = mpidr_to_affinity (sys h MPIDR_EL1)) (VM_LIST h) ! p = v"
proof -
  let ?c = "filter (\<lambda>v. owner_affinity v = mpidr_to_affinity (sys h MPIDR_EL1)) (VM_LIST h)"
  have p: "p < length ?c" "vcpus h ! p = vm_id (?c ! p)" using assms(2) by (simp_all add: vcpus_filter)
  have m: "?c ! p \<in> set (VM_LIST h)" using nth_mem [OF p(1)] by simp
  show thesis by (rule that [OF _ _ m]) (use p m assms(1) in \<open>auto simp: find_vm_def vms_wf_def intro: find_distinct\<close>)
qed

lemma find_next_vcpu:
  assumes "vms_wf h" "p < length (vcpus h)" "1 < length (vcpus h)"
  obtains v where "find_next_same_affinity_vcpu (vcpus h ! p) (mpidr_to_affinity (sys h MPIDR_EL1)) h = Some v"
    "vm_id v = vcpus h ! (Suc p mod length (vcpus h))" "find_vm (vm_id v) h = Some v" "v \<in> set (VM_LIST h)"
proof -
  let ?c = "filter (\<lambda>v. owner_affinity v = mpidr_to_affinity (sys h MPIDR_EL1)) (VM_LIST h)"
  have l: "length ?c = length (vcpus h)" by (simp add: vcpus_filter)
  have "find (\<lambda>i. vm_id (?c ! i) = vcpus h ! p) [0..<length ?c] = find (\<lambda>i. vcpus h ! i = vcpus h ! p) [0..<length (vcpus h)]"
    unfolding l by (rule find_cong) (simp_all add: vcpus_filter)
  also have "\<dots> = Some p" by (rule find_index [OF vcpus_distinct [OF assms(1)] assms(2)])
  finally have f: "find_next_same_affinity_vcpu (vcpus h ! p) (mpidr_to_affinity (sys h MPIDR_EL1)) h = Some (?c ! (Suc p mod length (vcpus h)))"
    using assms(3) l by (simp add: find_next_same_affinity_vcpu_def Let_def)
  have q: "Suc p mod length (vcpus h) < length (vcpus h)" by (rule mod_less_divisor) (use assms(3) in linarith)
  show thesis by (rule find_vm_vcpu [OF assms(1) q]) (use f that in auto)
qed

lemma update_vm_roster:
  assumes "\<And>v. find (\<lambda>v. vm_id v = i) vs = Some v \<Longrightarrow> vm_id v' = vm_id v \<and> owner_affinity v' = owner_affinity v"
  shows "map (\<lambda>v. (vm_id v, owner_affinity v)) (update_vm i v' vs) = map (\<lambda>v. (vm_id v, owner_affinity v)) vs"
  using assms by (induction vs) auto

lemma update_vm_set: "v \<in> set (update_vm i v' vs) \<Longrightarrow> v = v' \<or> v \<in> set vs"
  by (induction vs) (auto split: if_splits)

lemma find_update_vm:
  "find (\<lambda>v. vm_id v = j) (update_vm i v' vs) =
     (if j = i then map_option (\<lambda>_. v') (find (\<lambda>v. vm_id v = i) vs) else find (\<lambda>v. vm_id v = j) vs)"
  if "vm_id v' = i"
  using that by (induction vs) auto


text \<open>One switch: the interrupted virtual CPU is saved, the next one of this CPU resumed.\<close>

lemma yield_step:
  assumes wf: "vms_wf h" and n: "p < length (vcpus h)" "1 < length (vcpus h)"
    and cur: "unat (sys h TPIDR_EL2) = vcpus h ! p" and e: "unat (sys h ELR_EL2) + 4 < 2 ^ 64"
  obtains r' h' v where "try_yield_to_next_vcpu r h = Some (True, r', h')" "vms_wf h'" "vcpus h' = vcpus h"
    "unat (sys h' TPIDR_EL2) = vcpus h ! (Suc p mod length (vcpus h))"
    "find_vm (vcpus h ! p) h' = Some v" "vm_context v = snapshot r (sys h) (cpu_gic h)"
    "\<And>j. j \<noteq> vcpus h ! p \<Longrightarrow> find_vm j h' = find_vm j h"
    "\<And>w. find_vm (vcpus h ! (Suc p mod length (vcpus h))) h = Some w \<Longrightarrow> resumed (vm_context w) r' h'"
proof -
  obtain c where c: "find_vm (vcpus h ! p) h = Some c" "vm_id c = vcpus h ! p" "c \<in> set (VM_LIST h)"
    by (rule find_vm_vcpu [OF wf n(1)])
  obtain w where w: "find_next_same_affinity_vcpu (vcpus h ! p) (mpidr_to_affinity (sys h MPIDR_EL1)) h = Some w"
    "vm_id w = vcpus h ! (Suc p mod length (vcpus h))" "find_vm (vm_id w) h = Some w" "w \<in> set (VM_LIST h)"
    by (rule find_next_vcpu [OF wf n])
  have "Suc p mod length (vcpus h) \<noteq> p" using n by (cases "Suc p = length (vcpus h)") simp_all
  moreover have "Suc p mod length (vcpus h) < length (vcpus h)" by (rule mod_less_divisor) (use n in linarith)
  ultimately have neq: "vm_id w \<noteq> vm_id c"
    using w(2) c(2) n vcpus_distinct [OF wf] nth_eq_iff_index_eq [of "vcpus h" "Suc p mod length (vcpus h)" p] by simp
  let ?s = "(sys h)(ELR_EL2 := sys h ELR_EL2 + 4)" and ?c = "c\<lparr>vm_context := snapshot r (sys h) (cpu_gic h)\<rparr>"
  let ?h = "h\<lparr>sys := ?s, VM_LIST := update_vm (vm_id c) ?c (VM_LIST h)\<rparr>"
  have a: "advance_elr_el2 (sys h) = Some ?s" using e by (simp add: advance_elr_el2_def wadd_def)
  have cc: "context_wf (vm_context c)" "context_wf (vm_context w)" using wf c(3) w(4) by (simp_all add: vms_wf_def)
  have s: "save_context r (?s ELR_EL2) (?s SPSR_EL2) ?s (cpu_gic h) c = Some ?c"
    by (simp add: save_context_Some [OF cc(1)] snapshot_def)
  have f: "find_vm j ?h = (if j = vm_id c then Some ?c else find_vm j h)" for j
    using c(1,2) by (simp add: find_vm_def find_update_vm)
  obtain r' h' where r: "resume_vcpu w ?h = Some (r', h')" "resumed (vm_context w) r' h'" "VM_LIST h' = VM_LIST ?h"
    "sys h' TPIDR_EL2 = of_nat (vm_id w)" "sys h' MPIDR_EL1 = sys ?h MPIDR_EL1"
    using resume_vcpu_Some [OF cc(2), of ?h] by blast
  have "VM_LIST h' = update_vm (vm_id c) ?c (VM_LIST h)" by (simp add: r(3))
  then have ros: "roster h' = roster h" unfolding roster_def
    using c(1,2) by (simp only:) (rule update_vm_roster, simp add: find_vm_def)
  have ids: "map vm_id (VM_LIST h') = map vm_id (VM_LIST h)" using arg_cong [OF ros, of "map fst"] by (simp add: roster_def comp_def)
  have lim: "unat (of_nat (vm_id w) :: u64) = vm_id w" using wf w(4) by (simp add: vms_wf_def unat_of_nat usize_limit_def)
  have fh: "find_vm j h' = find_vm j ?h" for j by (simp add: find_vm_def r(3))
  show thesis
  proof (rule that)
    show "try_yield_to_next_vcpu r h = Some (True, r', h')"
      using c w cur a s f [of "vm_id w"] neq r(1) by (simp add: try_yield_to_next_vcpu_def get_current_vm_def)
    show "vms_wf h'" using wf ids c(2,3) unfolding vms_wf_def r(3)
      by (auto dest!: update_vm_set)
    show "vcpus h' = vcpus h" by (simp add: vcpus_def ros r(5))
    show "unat (sys h' TPIDR_EL2) = vcpus h ! (Suc p mod length (vcpus h))" unfolding r(4) lim by (rule w(2))
    show "find_vm (vcpus h ! p) h' = Some ?c" unfolding fh f c(2) [symmetric] by simp
    show "find_vm j h' = find_vm j h" if "j \<noteq> vcpus h ! p" for j using that unfolding fh f by (simp add: c(2))
    show "resumed (vm_context w') r' h'" if "find_vm (vcpus h ! (Suc p mod length (vcpus h))) h = Some w'" for w'
      using that r(2) w(2,3) by simp
  qed simp
qed


section \<open>Turns\<close>

text \<open>Between two switches a guest runs: it may change the trap frame, the registers of EL1 and the
  list registers in any way, and a trap sets the return registers, but the registers that name the
  virtual machine and the CPU stay.\<close>

type_synonym guest_run = "Registers \<times> sysregs \<times> pcpu \<Rightarrow> Registers \<times> sysregs \<times> pcpu"

definition guest_run_ok :: "guest_run \<Rightarrow> bool" where
  "guest_run_ok g \<longleftrightarrow> (\<forall>r s p. case g (r, s, p) of (r', s', p') \<Rightarrow>
     s' TPIDR_EL2 = s TPIDR_EL2 \<and> s' MPIDR_EL1 = s MPIDR_EL1 \<and> unat (s' ELR_EL2) + 4 < 2 ^ 64)"

definition trapped :: "guest_run \<Rightarrow> Registers \<times> hyp \<Rightarrow> Registers \<times> hyp" where
  "trapped g = (\<lambda>(r, h). case g (r, sys h, cpu_gic h) of (r', s', p') \<Rightarrow> (r', h\<lparr>sys := s', cpu_gic := p'\<rparr>))"

definition guest_turn :: "guest_run \<Rightarrow> Registers \<times> hyp \<Rightarrow> (Registers \<times> hyp) option" where
  "guest_turn g st = do {
     (switched, r, h) \<leftarrow> (case trapped g st of (r, h) \<Rightarrow> try_yield_to_next_vcpu r h);
     Some (r, h) }"

fun turns :: "guest_run list \<Rightarrow> Registers \<times> hyp \<Rightarrow> (Registers \<times> hyp) option" where
  "turns [] st = Some st"
| "turns (g # gs) st = do { st \<leftarrow> guest_turn g st; turns gs st }"

text \<open>The virtual CPU at a position runs.\<close>

definition running :: "nat \<Rightarrow> hyp \<Rightarrow> bool" where
  "running p h \<longleftrightarrow> vms_wf h \<and> p < length (vcpus h) \<and> 1 < length (vcpus h) \<and> unat (sys h TPIDR_EL2) = vcpus h ! p"

lemma turn_step:
  assumes run: "running p h" and g: "guest_run_ok g"
  obtains r' h' v where "guest_turn g (r, h) = Some (r', h')" "running (Suc p mod length (vcpus h)) h'" "vcpus h' = vcpus h"
    "find_vm (vcpus h ! p) h' = Some v"
    "vm_context v = (case trapped g (r, h) of (r1, h1) \<Rightarrow> snapshot r1 (sys h1) (cpu_gic h1))"
    "\<And>j. j \<noteq> vcpus h ! p \<Longrightarrow> find_vm j h' = find_vm j h"
    "\<And>w. find_vm (vcpus h ! (Suc p mod length (vcpus h))) h = Some w \<Longrightarrow> resumed (vm_context w) r' h'"
proof -
  obtain r1 s1 p1 where g1: "g (r, sys h, cpu_gic h) = (r1, s1, p1)" by (cases "g (r, sys h, cpu_gic h)")
  let ?h = "h\<lparr>sys := s1, cpu_gic := p1\<rparr>"
  have s1: "s1 TPIDR_EL2 = sys h TPIDR_EL2" "s1 MPIDR_EL1 = sys h MPIDR_EL1" "unat (s1 ELR_EL2) + 4 < 2 ^ 64"
    using g [unfolded guest_run_ok_def, THEN spec [of _ r], THEN spec [of _ "sys h"], THEN spec [of _ "cpu_gic h"]] g1 by simp_all
  have v: "vcpus ?h = vcpus h" "vms_wf ?h = vms_wf h" "find_vm j ?h = find_vm j h" for j
    using s1(2) by (simp_all add: vcpus_def roster_def vms_wf_def find_vm_def)
  have t: "trapped g (r, h) = (r1, ?h)" by (simp add: trapped_def g1)
  have pre: "vms_wf ?h" "p < length (vcpus ?h)" "1 < length (vcpus ?h)" "unat (sys ?h TPIDR_EL2) = vcpus ?h ! p"
    "unat (sys ?h ELR_EL2) + 4 < 2 ^ 64" using run s1(1,3) v by (simp_all add: running_def)
  obtain r' h' w where y: "try_yield_to_next_vcpu r1 ?h = Some (True, r', h')" "vms_wf h'" "vcpus h' = vcpus ?h"
    "unat (sys h' TPIDR_EL2) = vcpus ?h ! (Suc p mod length (vcpus ?h))"
    "find_vm (vcpus ?h ! p) h' = Some w" "vm_context w = snapshot r1 (sys ?h) (cpu_gic ?h)"
    "\<And>j. j \<noteq> vcpus ?h ! p \<Longrightarrow> find_vm j h' = find_vm j ?h"
    "\<And>w. find_vm (vcpus ?h ! (Suc p mod length (vcpus ?h))) ?h = Some w \<Longrightarrow> resumed (vm_context w) r' h'"
    by (rule yield_step [OF pre, of r1]) (rule that, assumption+)
  have "Suc p mod length (vcpus h) < length (vcpus h)" by (rule mod_less_divisor) (use run [unfolded running_def] in linarith)
  then have "running (Suc p mod length (vcpus h)) h'" using y(2-4) pre(3) v by (simp add: running_def)
  moreover have "guest_turn g (r, h) = Some (r', h')" by (simp add: guest_turn_def t y(1))
  ultimately show thesis using that [of r' h' w] y(3,5-8) v t by simp
qed

lemma turns_in_order:
  assumes "running p h" "\<forall>g \<in> set gs. guest_run_ok g"
  shows "\<exists>r' h'. turns gs (r, h) = Some (r', h') \<and> vcpus h' = vcpus h \<and> running ((p + length gs) mod length (vcpus h)) h'"
  using assms
proof (induction gs arbitrary: p r h)
  case Nil
  then show ?case by (simp add: running_def)
next
  case (Cons g gs)
  obtain r1 h1 v where t: "guest_turn g (r, h) = Some (r1, h1)" "running (Suc p mod length (vcpus h)) h1" "vcpus h1 = vcpus h"
    by (rule turn_step [OF Cons.prems(1), of g r]) (use Cons.prems(2) in auto)
  from Cons.IH [OF t(2), of r1] Cons.prems(2) show ?case by (simp add: t(1,3) mod_simps)
qed

lemma waits_unchanged:
  assumes "running p h" "\<forall>g \<in> set gs. guest_run_ok g" "gs \<noteq> []" "find_vm a h = Some v"
    and "vcpus h ! ((p + length gs) mod length (vcpus h)) = a"
    and "\<And>j. j < length gs \<Longrightarrow> vcpus h ! ((p + j) mod length (vcpus h)) \<noteq> a"
  shows "\<exists>r' h'. turns gs (r, h) = Some (r', h') \<and> resumed (vm_context v) r' h'"
  using assms
proof (induction gs arbitrary: p r h)
  case (Cons g gs)
  have p: "p < length (vcpus h)" using Cons.prems(1) by (simp add: running_def)
  obtain r1 h1 u where t: "guest_turn g (r, h) = Some (r1, h1)" "running (Suc p mod length (vcpus h)) h1" "vcpus h1 = vcpus h"
    "\<And>j. j \<noteq> vcpus h ! p \<Longrightarrow> find_vm j h1 = find_vm j h"
    "\<And>w. find_vm (vcpus h ! (Suc p mod length (vcpus h))) h = Some w \<Longrightarrow> resumed (vm_context w) r1 h1"
    by (rule turn_step [OF Cons.prems(1), of g r]) (use Cons.prems(2) in auto)
  show ?case
  proof (cases "gs = []")
    case True
    with Cons.prems(4,5) t(1,5) show ?thesis by simp
  next
    case False
    have "a \<noteq> vcpus h ! p" using Cons.prems(6) [of 0] p by auto
    then have "find_vm a h1 = Some v" using t(4) Cons.prems(4) by simp
    moreover have "vcpus h1 ! ((Suc p mod length (vcpus h) + j) mod length (vcpus h1)) \<noteq> a" if "j < length gs" for j
      using Cons.prems(6) [of "Suc j"] that by (simp add: t(3) mod_simps)
    ultimately show ?thesis using Cons.IH [OF t(2) _ False, of r1] Cons.prems(2,5) by (simp add: t(1,3) mod_simps)
  qed
qed simp


lemma capture_current_eq: "capture_current s = capture_current s' \<Longrightarrow> \<not> el2_register x \<Longrightarrow> s x = s' x"
  using activate_captured [of x s s'] activate_captured [of x s' s'] by simp

section \<open>The properties\<close>

definition example_devices :: devices where
  "example_devices = \<lparr>dv_pl011 = Pl011Mmio_new, dv_blk = example_disk, dv_gicd = GicDistributorMmio_new 1,
     dv_net = VirtioNetMmio_new (replicate 6 0), dv_console = VirtioConsoleMmio_new\<rparr>"

definition example_hyp :: hyp where
  "example_hyp =
     (let h = \<lparr>VM_LIST = [], NEXT_VM_ID = 2, ACTIVE_VM = Some 0, NEXT_VMID = 2, RESET_EL1_CONTEXT = None,
            sys = (\<lambda>_. 0), cpu_gic = pcpu_reset 1,
            cpu_stage2 = \<lparr>s2_mem = (\<lambda>_. 0), s2_heap = MemoryAllocator_new, vtcr_el2 = 0, vttbr_el2 = 0, tlb_flushes = 0\<rparr>\<rparr>;
          (v, h) = VM_new 0 0 4096 0 0x40000000 0x80000000 0x10000000 [] example_devices h;
          (w, h) = VM_new 1 0 8192 1 0x40000000 0x90000000 0x10000000 [] example_devices h
      in h\<lparr>VM_LIST := [v, w]\<rparr>)"

definition example_run :: guest_run where
  "example_run = (\<lambda>(r, s, p). (r\<lparr>reg_x0 := 7\<rparr>, s(ELR_EL2 := 0x40080000, SCTLR_EL1 := 5), p))"

lemma example_running: "running 0 example_hyp" "vcpus example_hyp = [0, 1]"
proof -
  show v: "vcpus example_hyp = [0, 1]"
    by (simp add: vcpus_filter example_hyp_def VM_new_def VcpuContext_new_def reset_el1_context_def mpidr_to_affinity_def)
  show "running 0 example_hyp" unfolding running_def v
    by (simp add: vms_wf_def context_wf_def example_hyp_def VM_new_def VcpuContext_new_def reset_el1_context_def usize_limit_def)
qed

lemma example_run_ok: "guest_run_ok example_run"
  by (simp add: guest_run_ok_def example_run_def)

lemma mod_other: "(Suc p + j) mod n \<noteq> p" if "p < n" "Suc j < n" for n :: nat
proof (cases "Suc p + j < n")
  case True
  then show ?thesis by simp
next
  case False
  with that have "(Suc p + j) mod n = Suc p + j - n" by (simp add: le_mod_geq)
  with False that show ?thesis by linarith
qed

text \<open>C33.  A virtual CPU that has given up the processor is resumed exactly where it was.  It yields, every
  other virtual CPU of the same processor has its turn and may do anything that EL1 can do, and
  when the turn is its own again, all general registers, all EL1 system registers, the list
  registers of the GIC and the saved status are what they were at its trap, and it goes on at
  the instruction after it.\<close>

theorem vcpu_switch_roundtrip:
  assumes "running p h" "guest_run_ok g" "\<forall>g \<in> set gs. guest_run_ok g" "Suc (length gs) = length (vcpus h)"
    and "trapped g (r, h) = (r1, h1)"
  shows "\<exists>h'. turns (g # gs) (r, h) = Some (r1, h') \<and> (\<forall>x. \<not> el2_register x \<longrightarrow> sys h' x = sys h1 x) \<and>
    sys h' ELR_EL2 = sys h1 ELR_EL2 + 4 \<and> sys h' SPSR_EL2 = sys h1 SPSR_EL2 \<and>
    (\<forall>i < NUMBER_OF_SUPPORTED_LRS. gich_lr (cpu_gic h') i = gich_lr (cpu_gic h1) i)"
proof -
  let ?n = "length (vcpus h)" and ?a = "vcpus h ! p"
  have p: "p < ?n" "1 < ?n" "distinct (vcpus h)" using assms(1) vcpus_distinct by (auto simp: running_def)
  obtain r2 h2 v where t: "guest_turn g (r, h) = Some (r2, h2)" "running (Suc p mod ?n) h2" "vcpus h2 = vcpus h"
    "find_vm ?a h2 = Some v" "vm_context v = snapshot r1 (sys h1) (cpu_gic h1)"
    by (rule turn_step [OF assms(1,2), of r]) (use assms(5) in auto)
  have home: "vcpus h2 ! ((Suc p mod ?n + length gs) mod length (vcpus h2)) = ?a"
  proof -
    have "Suc p + length gs = p + ?n" using assms(4) by linarith
    then have "(Suc p + length gs) mod ?n = p" using p(1) by (simp only: mod_add_self2 mod_less)
    then show ?thesis by (simp add: t(3) mod_simps)
  qed
  have others: "vcpus h2 ! ((Suc p mod ?n + j) mod length (vcpus h2)) \<noteq> ?a" if "j < length gs" for j
  proof -
    have "(Suc p + j) mod ?n \<noteq> p" by (rule mod_other [OF p(1)]) (use that assms(4) in linarith)
    moreover have "(Suc p + j) mod ?n < ?n" by (rule mod_less_divisor) (use p(2) in linarith)
    ultimately show ?thesis using p nth_eq_iff_index_eq [OF p(3), of "(Suc p + j) mod ?n" p] by (simp add: t(3) mod_simps)
  qed
  have "gs \<noteq> []" using assms(4) p(2) by auto
  from waits_unchanged [OF t(2) assms(3) this t(4) home others, of r2] obtain r3 h3 where
    r: "turns gs (r2, h2) = Some (r3, h3)" "resumed (snapshot r1 (sys h1) (cpu_gic h1)) r3 h3" by (auto simp: t(5))
  moreover have "\<forall>x. \<not> el2_register x \<longrightarrow> sys h3 x = sys h1 x"
    using r(2) capture_current_eq [of "sys h3" "sys h1"] by (simp add: resumed_def snapshot_def)
  ultimately show ?thesis using t(1) by (intro exI [of _ h3]) (simp add: resumed_def snapshot_def)
qed

theorem vcpu_switch_roundtrip_witness:
  "\<exists>h'. turns [example_run, example_run] (load_array (replicate 32 3), example_hyp) =
      Some ((load_array (replicate 32 3))\<lparr>reg_x0 := 7\<rparr>, h') \<and> sys h' ELR_EL2 = 0x40080004 \<and> sys h' SCTLR_EL1 = 5"
proof -
  have t: "trapped example_run (load_array (replicate 32 3), example_hyp) = ((load_array (replicate 32 3))\<lparr>reg_x0 := 7\<rparr>,
    example_hyp\<lparr>sys := (sys example_hyp)(ELR_EL2 := 0x40080000, SCTLR_EL1 := 5), cpu_gic := cpu_gic example_hyp\<rparr>)"
    by (simp add: trapped_def example_run_def)
  from vcpu_switch_roundtrip [OF example_running(1) example_run_ok _ _ t, of "[example_run]"] example_run_ok example_running(2)
  show ?thesis by (auto intro: exI)
qed

text \<open>C34.  The virtual CPUs of a processor take turns in the order of the list.  Whatever the guests do in
  between, no switch panics, and after any number of switches the virtual CPU that runs is the one that
  many places further on, counted round the list: none is passed over, so each of \<open>n\<close> runs again
  after \<open>n\<close> switches.\<close>

theorem vcpu_round_robin:
  assumes "running p h" "\<forall>g \<in> set gs. guest_run_ok g"
  shows "\<exists>r' h'. turns gs (r, h) = Some (r', h') \<and>
    unat (sys h' TPIDR_EL2) = vcpus h ! ((p + length gs) mod length (vcpus h)) \<and> vcpus h' = vcpus h"
  using turns_in_order [OF assms, of r] by (auto simp: running_def)

theorem vcpu_round_robin_witness:
  "\<exists>r' h'. turns [example_run, example_run, example_run] (load_array (replicate 32 3), example_hyp) = Some (r', h') \<and>
     unat (sys h' TPIDR_EL2) = 1"
  using vcpu_round_robin [OF example_running(1), of "[example_run, example_run, example_run]" "load_array (replicate 32 3)"] example_run_ok
  by (auto simp: example_running(2) mod_Suc simp del: turns.simps)

end
