(* ===== verification/Exception.thy ===== *)
theory Exception
  imports Vm
begin

text \<open>
  Traps of the guest: the dispatch of a trapped device access (\<open>data_abort_handler\<close> of
  \<^verbatim>\<open>exception.rs\<close>, \<open>handle_mmio_read\<close> and \<open>handle_mmio_write\<close> of \<^verbatim>\<open>vm.rs\<close>) to the
  device models, and the devices \<open>create_vm\<close> installs.

  A device handler, an \<open>Arc<Mutex<dyn MmioHandler>>\<close>, is the name of the device; its state is
  in the record \<open>devices\<close> of the virtual machine.  The record \<open>machine\<close> holds what the devices
  reach outside of it: guest memory and the file system (\<open>mc_blk\<close>), the serial port and the
  counters of the console (\<open>mc_con\<close>), the physical network (\<open>mc_net\<close>).  Memory is kept in
  \<open>mc_blk\<close> and the interrupt controller in the devices and the CPU; a device is given
  them when it is called, and what it returns is stored back.
\<close>

section \<open>The devices of a virtual machine\<close>

definition GicDistributorMmio_MMIO_SIZE :: usize where "GicDistributorMmio_MMIO_SIZE = 0x10000"

definition mmio_layout :: "MmioEntry list" where
  "mmio_layout =
     [\<lparr>base_address = 0x9000000, mmio_length = 0x1000, handler = Pl011Device\<rparr>,
      \<lparr>base_address = 0xa000000, mmio_length = 0x0200, handler = BlkDevice\<rparr>,
      \<lparr>base_address = 0x8000000, mmio_length = GicDistributorMmio_MMIO_SIZE, handler = GicdDevice\<rparr>,
      \<lparr>base_address = 0xa000200, mmio_length = 0x0200, handler = NetDevice\<rparr>,
      \<lparr>base_address = 0xa000400, mmio_length = 0x0200, handler = ConsoleDevice\<rparr>]"

text \<open>The file name is \<open>DISK\<close> and the last digit of the number of the machine, which overflows or
  is no character beyond ASCII for large numbers.\<close>

definition disk_file_name :: "usize \<Rightarrow> u8 list option" where
  "disk_file_name i = do {
     c \<leftarrow> wadd (48 :: u8) (of_nat i);
     if utf8_valid [68, 73, 83, 75, c] then Some [68, 73, 83, 75, c] else None }"

definition create_devices :: "Fat32 \<Rightarrow> bmem \<Rightarrow> usize \<Rightarrow> u8 \<Rightarrow> u8 list \<Rightarrow> (devices \<times> MmioEntry list) option" where
  "create_devices f m i target net_mac = do {
     file_name \<leftarrow> disk_file_name i;
     r \<leftarrow> search_file f m file_name;
     disk_file \<leftarrow> r;
     blk \<leftarrow> VirtioBlkMmio_new disk_file;
     Some (\<lparr>dv_pl011 = Pl011Mmio_new, dv_blk = blk, dv_gicd = GicDistributorMmio_new target,
       dv_net = VirtioNetMmio_new net_mac, dv_console = VirtioConsoleMmio_new\<rparr>, mmio_layout) }"

section \<open>Dispatch\<close>

record ('d, 'n) machine =
  mc_hyp :: hyp
  mc_blk :: "'d blk_env"
  mc_con :: con_env
  mc_net :: "'n option"

text \<open>Everything outside the sources that the devices use.\<close>

record ('d, 'n) platform =
  pf_cntpct :: "nat \<Rightarrow> u64"
  pf_block :: "'d block_device"
  pf_fat32 :: Fat32
  pf_send :: "usize \<Rightarrow> usize \<Rightarrow> bmem \<Rightarrow> 'n \<Rightarrow> (unit + unit) \<times> 'n"

definition ram_of :: "VM \<Rightarrow> guest_ram" where
  "ram_of v = \<lparr>ram_virtual_base_address = ram_virtual_base_address v, ram_physical_base_address = ram_physical_base_address v,
     ram_size = ram_size v\<rparr>"

definition device_read :: "mmio_device \<Rightarrow> usize \<Rightarrow> u64 \<Rightarrow> devices \<Rightarrow> pcpu \<Rightarrow> ((unit + u64) \<times> devices) option" where
  "device_read dev offset access_width ds p =
     (case dev of
        Pl011Device \<Rightarrow> (case pl011_read offset (unat access_width) (dv_pl011 ds) of (r, u) \<Rightarrow> Some (r, ds\<lparr>dv_pl011 := u\<rparr>))
      | GicdDevice \<Rightarrow> map_option (\<lambda>r. (r, ds)) (gicd_read offset (unat access_width) (dv_gicd ds) p)
      | BlkDevice \<Rightarrow> map_option (\<lambda>(r, d). (r, ds\<lparr>dv_blk := d\<rparr>)) (vblk_read offset access_width (dv_blk ds))
      | NetDevice \<Rightarrow> map_option (\<lambda>(r, d). (r, ds\<lparr>dv_net := d\<rparr>)) (net_read offset access_width (dv_net ds))
      | ConsoleDevice \<Rightarrow> map_option (\<lambda>(r, d). (r, ds\<lparr>dv_console := d\<rparr>)) (con_read offset access_width (dv_console ds)))"

definition device_write ::
  "('d, 'n) platform \<Rightarrow> guest_ram \<Rightarrow> mmio_device \<Rightarrow> usize \<Rightarrow> u64 \<Rightarrow> u64 \<Rightarrow> devices \<times> ('d, 'n) machine \<Rightarrow>
   ((unit + unit) \<times> devices \<times> ('d, 'n) machine) option" where
  "device_write pf ram dev offset access_width v = (\<lambda>(ds, m).
     let cpu = cpu_gic (mc_hyp m);
         with_cpu = (\<lambda>p m. m\<lparr>mc_hyp := (mc_hyp m)\<lparr>cpu_gic := p\<rparr>\<rparr>);
         with_mem = (\<lambda>x m. m\<lparr>mc_blk := be_set_mem x (mc_blk m)\<rparr>)
     in case dev of
          Pl011Device \<Rightarrow>
            (case pl011_write offset (unat access_width) v (dv_pl011 ds, ce_serial (mc_con m)) of
               (r, u, out) \<Rightarrow> Some (r, ds\<lparr>dv_pl011 := u\<rparr>, m\<lparr>mc_con := (mc_con m)\<lparr>ce_serial := out\<rparr>\<rparr>))
        | GicdDevice \<Rightarrow> do {
            (r, g, p) \<leftarrow> gicd_write offset (unat access_width) v (dv_gicd ds, cpu);
            Some (r, ds\<lparr>dv_gicd := g\<rparr>, with_cpu p m) }
        | BlkDevice \<Rightarrow> do {
            (r, d, e) \<leftarrow> vblk_write (pf_cntpct pf) (pf_block pf) (pf_fat32 pf) ram offset access_width v
              (dv_blk ds, (mc_blk m)\<lparr>be_gic := (dv_gicd ds, cpu)\<rparr>);
            Some (r, ds\<lparr>dv_blk := d, dv_gicd := fst (be_gic e)\<rparr>, with_cpu (snd (be_gic e)) (m\<lparr>mc_blk := e\<rparr>)) }
        | NetDevice \<Rightarrow> do {
            (r, d, e) \<leftarrow> net_write (pf_send pf) ram offset access_width v
              (dv_net ds, \<lparr>ne_mem = be_mem (mc_blk m), ne_gic = (dv_gicd ds, cpu), ne_physical = mc_net m\<rparr>);
            Some (r, ds\<lparr>dv_net := d, dv_gicd := fst (ne_gic e)\<rparr>,
              with_cpu (snd (ne_gic e)) (with_mem (ne_mem e) (m\<lparr>mc_net := ne_physical e\<rparr>))) }
        | ConsoleDevice \<Rightarrow> do {
            (r, d, e) \<leftarrow> con_write ram offset access_width v
              (dv_console ds, (mc_con m)\<lparr>ce_mem := be_mem (mc_blk m), ce_gic := (dv_gicd ds, cpu)\<rparr>);
            Some (r, ds\<lparr>dv_console := d, dv_gicd := fst (ce_gic e)\<rparr>,
              with_cpu (snd (ce_gic e)) (with_mem (ce_mem e) (m\<lparr>mc_con := e\<rparr>))) })"

text \<open>The first entry whose range holds the address; the end of a range is computed only when its
  start is not above the address.\<close>

fun find_entry :: "usize \<Rightarrow> MmioEntry list \<Rightarrow> MmioEntry option option" where
  "find_entry address [] = Some None"
| "find_entry address (e # es) =
     (if base_address e \<le> address then do {
        x \<leftarrow> uadd (base_address e) (mmio_length e);
        if address < x then Some (Some e) else find_entry address es }
      else find_entry address es)"

definition set_devices :: "VM \<Rightarrow> devices \<Rightarrow> hyp \<Rightarrow> hyp" where
  "set_devices v ds h = h\<lparr>VM_LIST := update_vm (vm_id v) (v\<lparr>vm_devices := ds\<rparr>) (VM_LIST h)\<rparr>"

definition handle_mmio_read :: "VM \<Rightarrow> usize \<Rightarrow> u64 \<Rightarrow> ('d, 'n) machine \<Rightarrow> ((unit + u64) \<times> ('d, 'n) machine) option" where
  "handle_mmio_read v address access_width m = do {
     e \<leftarrow> find_entry address (mmio_handlers v);
     (case e of
        None \<Rightarrow> Some (Inl (), m)
      | Some e \<Rightarrow> do {
          (r, ds) \<leftarrow> device_read (handler e) (address - base_address e) access_width (vm_devices v) (cpu_gic (mc_hyp m));
          Some (r, m\<lparr>mc_hyp := set_devices v ds (mc_hyp m)\<rparr>) }) }"

definition handle_mmio_write ::
  "('d, 'n) platform \<Rightarrow> VM \<Rightarrow> usize \<Rightarrow> u64 \<Rightarrow> u64 \<Rightarrow> ('d, 'n) machine \<Rightarrow> ((unit + unit) \<times> ('d, 'n) machine) option" where
  "handle_mmio_write pf v address access_width val m = do {
     e \<leftarrow> find_entry address (mmio_handlers v);
     (case e of
        None \<Rightarrow> Some (Inl (), m)
      | Some e \<Rightarrow> do {
          (r, ds, m) \<leftarrow> device_write pf (ram_of v) (handler e) (address - base_address e) access_width val (vm_devices v, m);
          Some (r, m\<lparr>mc_hyp := set_devices v ds (mc_hyp m)\<rparr>) }) }"

section \<open>Data aborts\<close>

definition ESR_EL2_EC :: u64 where "ESR_EL2_EC = push_bit 26 63"
definition ESR_EL2_EC_DATA_ABORT :: u64 where "ESR_EL2_EC_DATA_ABORT = push_bit 26 36"
definition ESR_EL2_EC_WFX :: u64 where "ESR_EL2_EC_WFX = push_bit 26 1"
definition ESR_EL2_EC_SMC64 :: u64 where "ESR_EL2_EC_SMC64 = push_bit 26 23"
definition ESR_EL2_ISS_ISV :: u64 where "ESR_EL2_ISS_ISV = push_bit 24 1"
definition ESR_EL2_ISS_SAS :: u64 where "ESR_EL2_ISS_SAS = push_bit 22 3"
definition ESR_EL2_ISS_SRT :: u64 where "ESR_EL2_ISS_SRT = push_bit 16 31"
definition ESR_EL2_ISS_SF :: u64 where "ESR_EL2_ISS_SF = push_bit 15 1"
definition ESR_EL2_ISS_WNR :: u64 where "ESR_EL2_ISS_WNR = push_bit 6 1"
definition HPFAR_EL2_FIPA :: u64 where "HPFAR_EL2_FIPA = mask 44 AND NOT (mask 4)"

definition abort_width :: "u64 \<Rightarrow> u64 option" where
  "abort_width esr_el2 =
     (let sas = drop_bit 22 (esr_el2 AND ESR_EL2_ISS_SAS)
      in if sas = 0 then Some 8 else if sas = 1 then Some 16 else if sas = 2 then Some 32
         else if sas = 3 then Some 64 else None)"

definition abort_register :: "u64 \<Rightarrow> nat" where
  "abort_register esr_el2 = unat (drop_bit 16 (esr_el2 AND ESR_EL2_ISS_SRT))"

definition abort_address :: "sysregs \<Rightarrow> u64" where
  "abort_address s = push_bit 12 (drop_bit 4 (s HPFAR_EL2 AND HPFAR_EL2_FIPA)) OR (s FAR_EL2 AND mask 12)"

definition data_abort_handler ::
  "('d, 'n) platform \<Rightarrow> Registers \<Rightarrow> u64 \<Rightarrow> ('d, 'n) machine \<Rightarrow> (Registers \<times> ('d, 'n) machine) option" where
  "data_abort_handler pf registers esr_el2 m =
     (if esr_el2 AND ESR_EL2_ISS_ISV = 0 then None
      else do {
        access_width \<leftarrow> abort_width esr_el2;
        register \<leftarrow> get_at (as_array registers) (abort_register esr_el2);
        let address = unat (abort_address (sys (mc_hyp m)));
        v \<leftarrow> get_current_vm (mc_hyp m);
        (registers, m) \<leftarrow>
          (if esr_el2 AND ESR_EL2_ISS_WNR \<noteq> 0 then do {
             let register_value = (if esr_el2 AND ESR_EL2_ISS_SF \<noteq> 0 then register else register AND mask 32);
             (r, m) \<leftarrow> handle_mmio_write pf v address access_width register_value m;
             (case r of Inl e \<Rightarrow> None | Inr u \<Rightarrow> Some (registers, m)) }
           else do {
             (r, m) \<leftarrow> handle_mmio_read v address access_width m;
             (case r of
                Inl e \<Rightarrow> None
              | Inr x \<Rightarrow> Some (load_array ((as_array registers)[abort_register esr_el2 := x]), m)) });
        s \<leftarrow> advance_elr_el2 (sys (mc_hyp m));
        Some (registers, m\<lparr>mc_hyp := (mc_hyp m)\<lparr>sys := s\<rparr>\<rparr>) })"

section \<open>Device accesses\<close>

text \<open>The guest's view of the device addresses.\<close>

definition decode :: "usize \<Rightarrow> (mmio_device \<times> usize) option" where
  "decode a =
     (if a \<in> {0x8000000..<0x8010000} then Some (GicdDevice, a - 0x8000000)
      else if a \<in> {0x9000000..<0x9001000} then Some (Pl011Device, a - 0x9000000)
      else if a \<in> {0xa000000..<0xa000200} then Some (BlkDevice, a - 0xa000000)
      else if a \<in> {0xa000200..<0xa000400} then Some (NetDevice, a - 0xa000200)
      else if a \<in> {0xa000400..<0xa000600} then Some (ConsoleDevice, a - 0xa000400)
      else None)"

lemma find_entry_decode:
  "\<exists>e. find_entry a mmio_layout = Some e \<and> decode a = map_option (\<lambda>e. (handler e, a - base_address e)) e"
  by (auto simp: mmio_layout_def decode_def GicDistributorMmio_MMIO_SIZE_def uadd_def usize_limit_def)

definition devices_wf :: "devices \<Rightarrow> bool" where
  "devices_wf ds \<longleftrightarrow> gicd_wf (dv_gicd ds) \<and> blk_wf (dv_blk ds) \<and> net_wf (dv_net ds) \<and> con_wf (dv_console ds)"

definition page_sizes_set :: "devices \<Rightarrow> bool" where
  "page_sizes_set ds \<longleftrightarrow> blk_page_size (dv_blk ds) \<noteq> 0 \<and> net_page_size (dv_net ds) \<noteq> 0 \<and> con_page_size (dv_console ds) \<noteq> 0"

lemma device_read_ok:
  assumes "devices_wf ds" "page_sizes_set ds"
  shows "\<exists>x ds'. device_read dev off w ds p = Some (Inr x, ds') \<and> devices_wf ds'"
proof (cases dev)
  case Pl011Device
  then show ?thesis using assms(1)
    by (auto simp: device_read_def devices_wf_def pl011_read_def split: prod.splits option.splits)
next
  case BlkDevice
  obtain r d where r: "vblk_read off w (dv_blk ds) = Some (r, d)"
    using vblk_read_spec(1) [of off w "dv_blk ds"] assms(2) by (auto simp: page_sizes_set_def)
  with vblk_read_spec(2) [of off w "dv_blk ds"] BlkDevice assms(1) show ?thesis
    by (cases r) (auto simp: device_read_def devices_wf_def ensures_def)
next
  case GicdDevice
  then show ?thesis using assms(1) gicd_read_never_panics [of "dv_gicd ds" off "unat w" p] by (auto simp: device_read_def devices_wf_def)
next
  case NetDevice
  have n: "net_wf (dv_net ds)" using assms(1) by (simp add: devices_wf_def)
  obtain r d where r: "net_read off w (dv_net ds) = Some (r, d)"
    using net_read_spec(1) [OF n, of off w] assms(2) by (auto simp: page_sizes_set_def)
  with net_read_spec(2) [OF n, of off w] NetDevice assms(1) show ?thesis
    by (cases r) (auto simp: device_read_def devices_wf_def ensures_def)
next
  case ConsoleDevice
  have n: "con_wf (dv_console ds)" using assms(1) by (simp add: devices_wf_def)
  obtain r d where r: "con_read off w (dv_console ds) = Some (r, d)"
    using con_read_spec(1) [OF n, of off w] assms(2) by (auto simp: page_sizes_set_def)
  with con_read_spec(2) [OF n, of off w] ConsoleDevice assms(1) show ?thesis
    by (cases r) (auto simp: device_read_def devices_wf_def ensures_def)
qed

lemma abort_width_Some: "\<exists>w. abort_width e = Some w \<and> w = 8 * 2 ^ unat (drop_bit 22 (e AND ESR_EL2_ISS_SAS))"
proof -
  let ?s = "drop_bit 22 (e AND ESR_EL2_ISS_SAS)"
  have sas: "ESR_EL2_ISS_SAS = push_bit 22 (mask 2)" by (simp add: ESR_EL2_ISS_SAS_def mask_eq_exp_minus_1)
  have "?s = take_bit 2 (drop_bit 22 e)"
    by (rule bit_word_eqI) (auto simp: sas bit_simps)
  then have "unat ?s = unat (drop_bit 22 e) mod 4" by (simp only: take_bit_eq_mod unat_mod) simp
  then have "unat ?s < 4" by (simp only: mod_less_divisor zero_less_numeral)
  then have "unat ?s = 0 \<or> unat ?s = 1 \<or> unat ?s = 2 \<or> unat ?s = 3" by linarith
  then have "?s = 0 \<or> ?s = 1 \<or> ?s = 2 \<or> ?s = 3" by (simp add: word_unat_eq_iff)
  then show ?thesis by (auto simp: abort_width_def Let_def)
qed

lemma abort_register_less: "abort_register e < 32"
proof -
  have srt: "ESR_EL2_ISS_SRT = push_bit 16 (mask 5)" by (simp add: ESR_EL2_ISS_SRT_def mask_eq_exp_minus_1)
  have "drop_bit 16 (e AND ESR_EL2_ISS_SRT) = take_bit 5 (drop_bit 16 e)"
    by (rule bit_word_eqI) (auto simp: srt bit_simps)
  then have "abort_register e = unat (drop_bit 16 e) mod 32" by (simp only: abort_register_def take_bit_eq_mod unat_mod) simp
  then show ?thesis by (simp only: mod_less_divisor zero_less_numeral)
qed


definition sas_width :: "u64 \<Rightarrow> u64" where
  "sas_width e = 8 * 2 ^ unat (drop_bit 22 (e AND ESR_EL2_ISS_SAS))"

definition stored_value :: "Registers \<Rightarrow> u64 \<Rightarrow> u64" where
  "stored_value r e =
     (if e AND ESR_EL2_ISS_SF \<noteq> 0 then as_array r ! abort_register e else as_array r ! abort_register e AND mask 32)"

lemma sys_set_devices [simp]: "sys (set_devices v ds h) = sys h"
  by (simp add: set_devices_def)

text \<open>C35.  A trapped device access.  With the devices a new virtual machine is given, a load of the guest
  from a device address is answered by the one device the address belongs to, with the
  offset in its range and the width of the access: the value goes to the register the
  instruction names and to no other, the guest continues after the instruction, and, once the
  page sizes are set, nothing panics.  A store hands the device the value of the register, cut to
  32 bits for a \<open>w\<close> register, leaves the trap frame as it is and panics only where the device
  panics or refuses, or the address of the next instruction overflows.  An access to any other address that traps panics.\<close>

theorem mmio_trap_dispatch:
  assumes v: "get_current_vm (mc_hyp m) = Some v" "mmio_handlers v = mmio_layout" "devices_wf (vm_devices v)" "page_sizes_set (vm_devices v)"
    and e: "esr AND ESR_EL2_ISS_ISV \<noteq> 0" "unat (sys (mc_hyp m) ELR_EL2) + 4 < 2 ^ 64"
  shows "(case decode (unat (abort_address (sys (mc_hyp m)))) of
      None \<Rightarrow> data_abort_handler pf r esr m = None
    | Some (dev, off) \<Rightarrow>
        if esr AND ESR_EL2_ISS_WNR = 0
        then \<exists>x ds. device_read dev off (sas_width esr) (vm_devices v) (cpu_gic (mc_hyp m)) = Some (Inr x, ds) \<and> devices_wf ds \<and>
           data_abort_handler pf r esr m = Some (load_array ((as_array r)[abort_register esr := x]),
             m\<lparr>mc_hyp := (set_devices v ds (mc_hyp m))\<lparr>sys := (sys (mc_hyp m))(ELR_EL2 := sys (mc_hyp m) ELR_EL2 + 4)\<rparr>\<rparr>)
        else data_abort_handler pf r esr m =
          (case device_write pf (ram_of v) dev off (sas_width esr) (stored_value r esr) (vm_devices v, m) of
             Some (Inr u, ds, m') \<Rightarrow> map_option (\<lambda>s. (r, m'\<lparr>mc_hyp := (set_devices v ds (mc_hyp m'))\<lparr>sys := s\<rparr>\<rparr>))
               (advance_elr_el2 (sys (mc_hyp m')))
           | _ \<Rightarrow> None))"
proof -
  let ?a = "unat (abort_address (sys (mc_hyp m)))" and ?s = "sys (mc_hyp m)"
  have w: "abort_width esr = Some (sas_width esr)" using abort_width_Some [of esr] by (auto simp: sas_width_def)
  have g: "get_at (as_array r) (abort_register esr) = Some (as_array r ! abort_register esr)"
    using abort_register_less [of esr] by (simp add: get_at_def NUMBER_OF_SLOTS_def)
  obtain en where en: "find_entry ?a mmio_layout = Some en" "decode ?a = map_option (\<lambda>x. (handler x, ?a - base_address x)) en"
    using find_entry_decode by blast
  show ?thesis
  proof (cases en)
    case None
    with en v(1,2) e(1) w g show ?thesis by (simp add: data_abort_handler_def handle_mmio_read_def handle_mmio_write_def Let_def)
  next
    case (Some x)
    obtain y ds where d: "device_read (handler x) (?a - base_address x) (sas_width esr) (vm_devices v) (cpu_gic (mc_hyp m)) = Some (Inr y, ds)"
      "devices_wf ds" using device_read_ok [OF v(3,4)] by blast
    have "advance_elr_el2 ?s = Some (?s(ELR_EL2 := ?s ELR_EL2 + 4))" using e(2) by (simp add: advance_elr_el2_def wadd_def)
    with Some en v(1,2) e(1) w g d show ?thesis
      by (cases "device_write pf (ram_of v) (handler x) (?a - base_address x) (sas_width esr) (stored_value r esr) (vm_devices v, m)")
        (simp_all add: data_abort_handler_def handle_mmio_read_def handle_mmio_write_def map_conv_bind_option comp_def
          flip: stored_value_def split: sum.splits prod.splits)
  qed
qed


definition example_platform :: "(nat \<Rightarrow> u8, unit) platform" where
  "example_platform = \<lparr>pf_cntpct = (\<lambda>_. 0), pf_block = ram_disk, pf_fat32 = example_fs, pf_send = (\<lambda>_ _ _ n. (Inr (), n))\<rparr>"

text \<open>A load of the UART's flag register (address \<open>0x9000018\<close>) into \<open>x3\<close>.\<close>

definition example_trap :: "(nat \<Rightarrow> u8, unit) machine" where
  "example_trap = \<lparr>mc_hyp = example_hyp\<lparr>VM_LIST := map (\<lambda>v. v\<lparr>mmio_handlers := mmio_layout\<rparr>) (VM_LIST example_hyp),
       sys := (\<lambda>_. 0)(HPFAR_EL2 := 0x90000, FAR_EL2 := 0x18)\<rparr>,
     mc_blk = example_env, mc_con = example_con_env, mc_net = None\<rparr>"

definition example_esr :: u64 where
  "example_esr = 2 ^ 24 + 2 * 2 ^ 22 + 3 * 2 ^ 16"

lemma example_trap_facts:
  "\<exists>v. get_current_vm (mc_hyp example_trap) = Some v \<and> mmio_handlers v = mmio_layout \<and> vm_devices v = example_devices"
  "unat (abort_address (sys (mc_hyp example_trap))) = 0x9000018" "sys (mc_hyp example_trap) ELR_EL2 = 0"
  "example_esr AND ESR_EL2_ISS_ISV \<noteq> 0" "example_esr AND ESR_EL2_ISS_WNR = 0" "abort_register example_esr = 3"
  "devices_wf example_devices" "page_sizes_set example_devices"
proof -
  show "\<exists>v. get_current_vm (mc_hyp example_trap) = Some v \<and> mmio_handlers v = mmio_layout \<and> vm_devices v = example_devices"
    by (simp add: example_trap_def get_current_vm_def find_vm_def example_hyp_def VM_new_def VcpuContext_new_def reset_el1_context_def)
  show "unat (abort_address (sys (mc_hyp example_trap))) = 0x9000018"
    by (simp add: example_trap_def abort_address_def HPFAR_EL2_FIPA_def mask_eq_exp_minus_1)
  show "sys (mc_hyp example_trap) ELR_EL2 = 0" by (simp add: example_trap_def)
  show "example_esr AND ESR_EL2_ISS_ISV \<noteq> 0" "example_esr AND ESR_EL2_ISS_WNR = 0" "abort_register example_esr = 3"
    by (simp_all add: example_esr_def ESR_EL2_ISS_ISV_def ESR_EL2_ISS_WNR_def abort_register_def ESR_EL2_ISS_SRT_def)
  show "devices_wf example_devices" "page_sizes_set example_devices"
    by (simp_all add: devices_wf_def page_sizes_set_def example_devices_def net_wf_new con_wf_new VirtioNetMmio_new_def [THEN arg_cong [of _ _ net_page_size]]
        VirtioConsoleMmio_new_def [THEN arg_cong [of _ _ con_page_size]] blk_wf_def example_disk_def usize_limit_def example_file_def get_file_size_def)
qed

theorem mmio_trap_dispatch_witness:
  "\<exists>m'. data_abort_handler example_platform (load_array (replicate 32 1)) example_esr example_trap =
     Some ((load_array (replicate 32 1))\<lparr>reg_x3 := ucast UART_FR_RXFE\<rparr>, m') \<and> sys (mc_hyp m') ELR_EL2 = 4"
proof -
  obtain v where v: "get_current_vm (mc_hyp example_trap) = Some v" "mmio_handlers v = mmio_layout" "vm_devices v = example_devices"
    using example_trap_facts(1) by blast
  have d: "decode 0x9000018 = Some (Pl011Device, 0x18)" by (simp add: decode_def)
  have r: "device_read Pl011Device 0x18 w example_devices p = Some (Inr (ucast UART_FR_RXFE), example_devices)" for w p
    by (simp add: device_read_def pl011_read_def example_devices_def Pl011Mmio_new_def UART_DR_def UART_FR_def)
  have a: "load_array ((as_array (load_array (replicate 32 1)))[3 := x]) = (load_array (replicate 32 1))\<lparr>reg_x3 := x\<rparr>" for x
    by (simp add: load_array_def as_array_def numeral_eq_Suc)
  from mmio_trap_dispatch [OF v(1,2), unfolded v(3), OF example_trap_facts(7,8,4), of example_platform "load_array (replicate 32 1)"]
  show ?thesis unfolding example_trap_facts(2,3,6) d option.case prod.case r a using example_trap_facts(5) by auto
qed

end
