(* ===== verification/Psci.thy ===== *)
theory Psci
  imports Vm
begin

text \<open>
  Power calls: \<^verbatim>\<open>psci.rs\<close> towards the firmware, and the guest's own calls, which
  \<^verbatim>\<open>main.rs\<close> handles (\<open>handle_guest_smc\<close>, \<open>handle_guest_cpu_on\<close>, \<open>handle_guest_cpu_off\<close>) with
  the processors parked in \<open>smp_park_main\<close>.  The firmware is the parameter \<open>smc\<close>.

  A parked processor and the list \<open>PARKED_CPUS\<close> share an \<open>Arc<ParkedCpu>\<close>: it is an index into
  \<open>parked_cells\<close>, so that a processor that has been taken off the list still sees the
  request written into its cell.  An \<open>Arc<VM>\<close> is its \<open>vm_id\<close>, as in \<open>Vm\<close>.
\<close>

section \<open>The firmware interface\<close>

definition PSCI_VERSION :: u64 where "PSCI_VERSION = 0x84000000"
definition PSCI_SYSTEM_OFF :: u64 where "PSCI_SYSTEM_OFF = 0x84000008"
definition PSCI_SYSTEM_RESET :: u64 where "PSCI_SYSTEM_RESET = 0x84000009"
definition PSCI_CPU_ON :: u64 where "PSCI_CPU_ON = 0xC4000003"
definition PSCI_CPU_OFF :: u64 where "PSCI_CPU_OFF = 0x84000002"

datatype PsciErrorCodes = Success | NotSupported | InvalidParameters | Denied | AlreadyOn | OnPending
  | InternalFailure | NotPresent | Disabled | InvalidAddress | Unknown

definition PsciErrorCodes_from :: "u64 \<Rightarrow> PsciErrorCodes" where
  "PsciErrorCodes_from v =
     (let i = sint (ucast v :: u32)
      in if i = 0 then Success else if i = - 1 then NotSupported else if i = - 2 then InvalidParameters
         else if i = - 3 then Denied else if i = - 4 then AlreadyOn else if i = - 5 then OnPending
         else if i = - 6 then InternalFailure else if i = - 7 then NotPresent else if i = - 8 then Disabled
         else if i = - 9 then InvalidAddress else Unknown)"

definition check_psci_version :: "(u64 \<Rightarrow> u64 \<Rightarrow> u64 \<Rightarrow> u64 \<Rightarrow> u64) \<Rightarrow> PsciErrorCodes + u16 \<times> u16" where
  "check_psci_version smc =
     (let version = smc PSCI_VERSION 0 0 0
      in if sint (ucast version :: u32) = - 1 then Inl NotSupported
         else Inr (ucast (drop_bit 16 version), ucast (version AND mask 16)))"

definition cpu_on :: "(u64 \<Rightarrow> u64 \<Rightarrow> u64 \<Rightarrow> u64 \<Rightarrow> u64) \<Rightarrow> u64 \<Rightarrow> u64 \<Rightarrow> u64 \<Rightarrow> PsciErrorCodes + unit" where
  "cpu_on smc target_cpu entry_point argument =
     (let error_code = PsciErrorCodes_from (smc PSCI_CPU_ON target_cpu entry_point argument)
      in if error_code = Success then Inr () else Inl error_code)"

section \<open>Parked processors\<close>

record SmpLaunchRequest =
  sl_vm :: usize
  sl_entry_point :: usize
  sl_context_id :: usize

record ParkedCpu =
  pk_affinity :: u64
  pk_launch :: "SmpLaunchRequest option"

record power =
  parked_cells :: "ParkedCpu list"
  PARKED_CPUS :: "nat list"
  STACK_TOPS :: "(u64 \<times> u64) list"

text \<open>\<open>smp_park_main\<close>: a processor makes its cell and enters the list; then it looks
  into its cell until there is a request, which it takes.\<close>

definition park_register :: "u64 \<Rightarrow> power \<Rightarrow> nat \<times> power" where
  "park_register affinity pw =
     (let c = length (parked_cells pw)
      in (c, pw\<lparr>parked_cells := parked_cells pw @ [\<lparr>pk_affinity = affinity, pk_launch = None\<rparr>],
           PARKED_CPUS := PARKED_CPUS pw @ [c]\<rparr>))"

definition park_poll :: "nat \<Rightarrow> power \<Rightarrow> SmpLaunchRequest option \<times> power" where
  "park_poll c pw =
     (let cell = parked_cells pw ! c
      in (pk_launch cell, pw\<lparr>parked_cells := (parked_cells pw)[c := cell\<lparr>pk_launch := None\<rparr>]\<rparr>))"

definition PSCI_ALREADY_ON :: u64 where "PSCI_ALREADY_ON = 0xFFFFFFFC"

definition handle_guest_cpu_on :: "hyp \<Rightarrow> u64 \<Rightarrow> usize \<Rightarrow> usize \<Rightarrow> power \<Rightarrow> (u64 \<times> power) option" where
  "handle_guest_cpu_on h target_cpu entry_point context_id pw =
     (case find (\<lambda>i. pk_affinity (parked_cells pw ! (PARKED_CPUS pw ! i)) = mpidr_to_affinity target_cpu)
             [0..<length (PARKED_CPUS pw)] of
        None \<Rightarrow> Some (PSCI_ALREADY_ON, pw)
      | Some index \<Rightarrow> do {
          let c = PARKED_CPUS pw ! index;
          let pw = pw\<lparr>PARKED_CPUS := take index (PARKED_CPUS pw) @ drop (index + 1) (PARKED_CPUS pw)\<rparr>;
          v \<leftarrow> get_current_vm h;
          let request = \<lparr>sl_vm = vm_id v, sl_entry_point = entry_point, sl_context_id = context_id\<rparr>;
          Some (0, pw\<lparr>parked_cells := (parked_cells pw)[c := (parked_cells pw ! c)\<lparr>pk_launch := Some request\<rparr>]\<rparr>) })"

text \<open>What becomes of a processor after a power call: it goes on with a trap frame, it is parked
  again on the stack it was started with, or it stays in a loop.\<close>

datatype smc_outcome = Go Registers hyp power | Repark u64 | Halt

definition handle_guest_cpu_off :: "Registers \<Rightarrow> hyp \<Rightarrow> power \<Rightarrow> smc_outcome option" where
  "handle_guest_cpu_off registers h pw = do {
     (switched, registers, h) \<leftarrow> switch_to_other_vcpu_on_retire (unat (sys h TPIDR_EL2)) registers h;
     if switched then Some (Go registers h pw)
     else do {
       (_, stack_top) \<leftarrow> find (\<lambda>(cpu_affinity, _). cpu_affinity = mpidr_to_affinity (sys h MPIDR_EL1)) (STACK_TOPS pw);
       Some (Repark stack_top) } }"

definition handle_guest_smc :: "(u64 \<Rightarrow> u64 \<Rightarrow> u64 \<Rightarrow> u64 \<Rightarrow> u64) \<Rightarrow> bool \<Rightarrow> Registers \<Rightarrow> hyp \<Rightarrow> power \<Rightarrow> smc_outcome option" where
  "handle_guest_smc smc has_psci registers h pw =
     (if reg_x0 registers = PSCI_CPU_ON then do {
        (r, pw) \<leftarrow> handle_guest_cpu_on h (reg_x1 registers) (unat (reg_x2 registers)) (unat (reg_x3 registers)) pw;
        s \<leftarrow> advance_elr_el2 (sys h);
        Some (Go (registers\<lparr>reg_x0 := r\<rparr>) (h\<lparr>sys := s\<rparr>) pw) }
      else if reg_x0 registers = PSCI_CPU_OFF then handle_guest_cpu_off registers h pw
      else if has_psci then do {
        let r = smc (reg_x0 registers) (reg_x1 registers) (reg_x2 registers) (reg_x3 registers);
        s \<leftarrow> advance_elr_el2 (sys h);
        Some (Go (registers\<lparr>reg_x0 := r\<rparr>) (h\<lparr>sys := s\<rparr>) pw) }
      else if reg_x0 registers = PSCI_SYSTEM_OFF \<or> reg_x0 registers = PSCI_SYSTEM_RESET then Some Halt
      else do {
        let r = (if reg_x0 registers = PSCI_VERSION then 2 else - 1);
        s \<leftarrow> advance_elr_el2 (sys h);
        Some (Go (registers\<lparr>reg_x0 := r\<rparr>) (h\<lparr>sys := s\<rparr>) pw) })"

section \<open>The life of a processor\<close>

text \<open>A processor is idle (before \<open>smp_park_main\<close>), waits in a cell or runs a guest.  The steps of all
  processors interleave; each is one critical section of \<open>PARKED_CPUS\<close> or of a cell, and
  \<open>handle_guest_cpu_on\<close>, which releases the first before it takes the second, has by then removed the
  cell from the list, so that nobody else writes to it.\<close>

datatype phase = Idle | Waiting nat | Guest SmpLaunchRequest

record smp =
  smp_power :: power
  smp_phase :: "u64 \<Rightarrow> phase"

inductive smp_step :: "smp \<Rightarrow> smp \<Rightarrow> bool" where
  park: "smp_phase s a = Idle \<Longrightarrow> park_register a (smp_power s) = (c, pw) \<Longrightarrow>
    smp_step s \<lparr>smp_power = pw, smp_phase = (smp_phase s)(a := Waiting c)\<rparr>"
| turn_on: "handle_guest_cpu_on h target entry cid (smp_power s) = Some (r, pw) \<Longrightarrow>
    smp_step s (s\<lparr>smp_power := pw\<rparr>)"
| launch: "smp_phase s a = Waiting c \<Longrightarrow> park_poll c (smp_power s) = (Some q, pw) \<Longrightarrow>
    smp_step s \<lparr>smp_power = pw, smp_phase = (smp_phase s)(a := Guest q)\<rparr>"
| turn_off: "smp_phase s (mpidr_to_affinity (sys h MPIDR_EL1)) = Guest q \<Longrightarrow>
    handle_guest_cpu_off registers h (smp_power s) = Some (Repark stack_top) \<Longrightarrow>
    smp_step s (s\<lparr>smp_phase := (smp_phase s)(mpidr_to_affinity (sys h MPIDR_EL1) := Idle)\<rparr>)"

inductive smp_reachable :: "smp \<Rightarrow> bool" where
  boot: "smp_reachable \<lparr>smp_power = \<lparr>parked_cells = [], PARKED_CPUS = [], STACK_TOPS = tops\<rparr>, smp_phase = (\<lambda>_. Idle)\<rparr>"
| step: "smp_reachable s \<Longrightarrow> smp_step s s' \<Longrightarrow> smp_reachable s'"

text \<open>A cell is on the list exactly while its processor waits and nobody has asked for it.\<close>

definition smp_inv :: "smp \<Rightarrow> bool" where
  "smp_inv s \<longleftrightarrow>
     (let cells = parked_cells (smp_power s); parked = PARKED_CPUS (smp_power s)
      in distinct parked \<and>
         (\<forall>c \<in> set parked. c < length cells \<and> pk_launch (cells ! c) = None \<and> smp_phase s (pk_affinity (cells ! c)) = Waiting c) \<and>
         (\<forall>a c. smp_phase s a = Waiting c \<longrightarrow> c < length cells \<and> pk_affinity (cells ! c) = a \<and>
            (pk_launch (cells ! c) = None \<longrightarrow> c \<in> set parked)))"


lemma smp_invD:
  assumes "smp_inv s"
  shows "distinct (PARKED_CPUS (smp_power s))"
    "c \<in> set (PARKED_CPUS (smp_power s)) \<Longrightarrow> c < length (parked_cells (smp_power s)) \<and> pk_launch (parked_cells (smp_power s) ! c) = None \<and>
       smp_phase s (pk_affinity (parked_cells (smp_power s) ! c)) = Waiting c"
    "smp_phase s a = Waiting c \<Longrightarrow> c < length (parked_cells (smp_power s)) \<and> pk_affinity (parked_cells (smp_power s) ! c) = a \<and>
       (pk_launch (parked_cells (smp_power s) ! c) = None \<longrightarrow> c \<in> set (PARKED_CPUS (smp_power s)))"
  using assms by (auto simp: smp_inv_def Let_def)

text \<open>The effect of a request to turn a processor on.\<close>

lemma cpu_on_None:
  assumes "smp_inv s" "\<And>c. smp_phase s (mpidr_to_affinity t) = Waiting c \<Longrightarrow> pk_launch (parked_cells (smp_power s) ! c) \<noteq> None"
  shows "handle_guest_cpu_on h t entry cid (smp_power s) = Some (PSCI_ALREADY_ON, smp_power s)"
proof -
  let ?pw = "smp_power s"
  have "pk_affinity (parked_cells ?pw ! c) \<noteq> mpidr_to_affinity t" if "c \<in> set (PARKED_CPUS ?pw)" for c
    using smp_invD(2) [OF assms(1) that] assms(2) [of c] by auto
  then have "find (\<lambda>i. pk_affinity (parked_cells ?pw ! (PARKED_CPUS ?pw ! i)) = mpidr_to_affinity t) [0..<length (PARKED_CPUS ?pw)] = None"
    by (simp add: find_None_iff)
  then show ?thesis by (simp add: handle_guest_cpu_on_def)
qed

lemma cpu_on_Some:
  assumes "smp_inv s" "smp_phase s (mpidr_to_affinity t) = Waiting c" "pk_launch (parked_cells (smp_power s) ! c) = None"
    and "get_current_vm h = Some v"
  shows "handle_guest_cpu_on h t entry cid (smp_power s) = Some (0, (smp_power s)\<lparr>
      parked_cells := (parked_cells (smp_power s))[c := (parked_cells (smp_power s) ! c)
        \<lparr>pk_launch := Some \<lparr>sl_vm = vm_id v, sl_entry_point = entry, sl_context_id = cid\<rparr>\<rparr>],
      PARKED_CPUS := remove1 c (PARKED_CPUS (smp_power s))\<rparr>)"
proof -
  let ?pw = "smp_power s" and ?P = "PARKED_CPUS (smp_power s)"
  have c: "c \<in> set ?P" "pk_affinity (parked_cells ?pw ! c) = mpidr_to_affinity t" using smp_invD(3) [OF assms(1,2)] assms(3) by auto
  then obtain i where i: "i < length ?P" "?P ! i = c" by (auto simp: in_set_conv_nth)
  have "pk_affinity (parked_cells ?pw ! (?P ! j)) = mpidr_to_affinity t \<longleftrightarrow> j = i" if "j < length ?P" for j
    using smp_invD(2) [OF assms(1), of "?P ! j"] that assms(2) i c(2) smp_invD(1) [OF assms(1)]
    by (auto simp: nth_eq_iff_index_eq)
  then have "find (\<lambda>j. pk_affinity (parked_cells ?pw ! (?P ! j)) = mpidr_to_affinity t) [0..<length ?P] = Some i"
    using i(1) by (auto simp: find_Some_iff intro!: exI [of _ i])
  moreover have "take i ?P @ drop (i + 1) ?P = remove1 c ?P"
    using i smp_invD(1) [OF assms(1)] by (metis Suc_eq_plus1 distinct_remove1_removeAll id_take_nth_drop remove1_append remove1.simps(2)
        distinct_take nth_mem not_distinct_conv_prefix)
  ultimately show ?thesis using i(2) assms(4) by (simp add: handle_guest_cpu_on_def)
qed

lemma smp_invI:
  assumes "distinct (PARKED_CPUS (smp_power s))"
    "\<And>c. c \<in> set (PARKED_CPUS (smp_power s)) \<Longrightarrow> c < length (parked_cells (smp_power s)) \<and> pk_launch (parked_cells (smp_power s) ! c) = None \<and>
       smp_phase s (pk_affinity (parked_cells (smp_power s) ! c)) = Waiting c"
    "\<And>a c. smp_phase s a = Waiting c \<Longrightarrow> c < length (parked_cells (smp_power s)) \<and> pk_affinity (parked_cells (smp_power s) ! c) = a \<and>
       (pk_launch (parked_cells (smp_power s) ! c) = None \<longrightarrow> c \<in> set (PARKED_CPUS (smp_power s)))"
  shows "smp_inv s"
  using assms by (auto simp: smp_inv_def Let_def)

lemma park_keeps_inv:
  assumes i: "smp_inv s" and a: "smp_phase s a = Idle" and r: "park_register a (smp_power s) = (c, pw)"
  shows "smp_inv \<lparr>smp_power = pw, smp_phase = (smp_phase s)(a := Waiting c)\<rparr>"
proof -
  have c: "c = length (parked_cells (smp_power s))"
    and pw: "parked_cells pw = parked_cells (smp_power s) @ [\<lparr>pk_affinity = a, pk_launch = None\<rparr>]" "PARKED_CPUS pw = PARKED_CPUS (smp_power s) @ [c]"
    using r by (auto simp: park_register_def Let_def)
  have n: "d < c \<and> d \<noteq> c" if "d \<in> set (PARKED_CPUS (smp_power s))" for d using smp_invD(2) [OF i that] c by simp
  have o: "pk_affinity (parked_cells (smp_power s) ! d) \<noteq> a" if "d \<in> set (PARKED_CPUS (smp_power s))" for d
    using smp_invD(2) [OF i that] a by auto
  show ?thesis
  proof (rule smp_invI, goal_cases)
    case 1
    show ?case using smp_invD(1) [OF i] n by (auto simp: pw)
  next
    case (2 d)
    then show ?case using smp_invD(2) [OF i, of d] n [of d] o [of d] c by (auto simp: pw nth_append)
  next
    case (3 b d)
    then show ?case using smp_invD(3) [OF i, of b d] c by (auto simp: pw nth_append split: if_splits)
  qed
qed

lemma turn_on_keeps_inv:
  assumes i: "smp_inv s" and r: "handle_guest_cpu_on h t entry cid (smp_power s) = Some (r, pw)"
  shows "smp_inv (s\<lparr>smp_power := pw\<rparr>)"
proof (cases "\<exists>c. smp_phase s (mpidr_to_affinity t) = Waiting c \<and> pk_launch (parked_cells (smp_power s) ! c) = None")
  case False
  then have "pw = smp_power s" using cpu_on_None [OF i, of t h entry cid] r by auto
  then show ?thesis using i by simp
next
  case True
  then obtain c where c: "smp_phase s (mpidr_to_affinity t) = Waiting c" "pk_launch (parked_cells (smp_power s) ! c) = None" by blast
  show ?thesis
  proof (cases "get_current_vm h")
    case None
    have "c \<in> set (PARKED_CPUS (smp_power s))" "pk_affinity (parked_cells (smp_power s) ! c) = mpidr_to_affinity t"
      using smp_invD(3) [OF i c(1)] c(2) by auto
    then have "\<exists>i < length (PARKED_CPUS (smp_power s)). pk_affinity (parked_cells (smp_power s) ! (PARKED_CPUS (smp_power s) ! i)) = mpidr_to_affinity t"
      by (auto simp: in_set_conv_nth)
    then have "find (\<lambda>i. pk_affinity (parked_cells (smp_power s) ! (PARKED_CPUS (smp_power s) ! i)) = mpidr_to_affinity t)
      [0..<length (PARKED_CPUS (smp_power s))] \<noteq> None" by (auto simp: find_None_iff)
    with r None show ?thesis by (auto simp: handle_guest_cpu_on_def)
  next
    case (Some v)
    have pw: "parked_cells pw = (parked_cells (smp_power s))[c := (parked_cells (smp_power s) ! c)
        \<lparr>pk_launch := Some \<lparr>sl_vm = vm_id v, sl_entry_point = entry, sl_context_id = cid\<rparr>\<rparr>]"
      "PARKED_CPUS pw = remove1 c (PARKED_CPUS (smp_power s))"
      using cpu_on_Some [OF i c Some, of entry cid] r by auto
    show ?thesis
    proof (rule smp_invI, goal_cases)
      case 1
      show ?case using smp_invD(1) [OF i] by (simp add: pw)
    next
      case (2 d)
      then show ?case using smp_invD(2) [OF i, of d] smp_invD(1) [OF i] by (auto simp: pw nth_list_update)
    next
      case (3 b d)
      then show ?case using smp_invD(3) [OF i, of b d] smp_invD(1) [OF i] by (cases "d = c") (auto simp: pw)
    qed
  qed
qed

lemma launch_keeps_inv:
  assumes i: "smp_inv s" and a: "smp_phase s a = Waiting c" and r: "park_poll c (smp_power s) = (Some q, pw)"
  shows "smp_inv \<lparr>smp_power = pw, smp_phase = (smp_phase s)(a := Guest q)\<rparr>"
proof -
  have pw: "parked_cells pw = (parked_cells (smp_power s))[c := (parked_cells (smp_power s) ! c)\<lparr>pk_launch := None\<rparr>]"
    "PARKED_CPUS pw = PARKED_CPUS (smp_power s)" and q: "pk_launch (parked_cells (smp_power s) ! c) = Some q"
    using r by (auto simp: park_poll_def Let_def)
  have n: "d \<noteq> c \<and> pk_affinity (parked_cells (smp_power s) ! d) \<noteq> a" if "d \<in> set (PARKED_CPUS (smp_power s))" for d
    using smp_invD(2) [OF i that] q a by auto
  show ?thesis
  proof (rule smp_invI, goal_cases)
    case 1
    show ?case using smp_invD(1) [OF i] by (simp add: pw)
  next
    case (2 d)
    then show ?case using smp_invD(2) [OF i, of d] n [of d] by (auto simp: pw)
  next
    case (3 b d)
    then have b: "b \<noteq> a" "smp_phase s b = Waiting d" by (auto split: if_splits)
    moreover have "d \<noteq> c" using smp_invD(3) [OF i b(2)] smp_invD(3) [OF i a] b(1) by auto
    ultimately show ?case using smp_invD(3) [OF i b(2)] by (auto simp: pw)
  qed
qed

lemma smp_reachable_inv: "smp_reachable s \<Longrightarrow> smp_inv s"
proof (induction rule: smp_reachable.induct)
  case (boot tops)
  show ?case by (simp add: smp_inv_def)
next
  case (step s s')
  from step.hyps(2) step.IH show ?case
  proof (induction rule: smp_step.induct)
    case (turn_off s h q registers stack_top)
    show ?case
    proof (rule smp_invI, goal_cases)
      case (2 d)
      then show ?case using smp_invD(2) [OF turn_off.prems, of d] turn_off.hyps by auto
    qed (use smp_invD(1,3) [OF turn_off.prems] in \<open>auto split: if_splits\<close>)
  qed (auto intro: park_keeps_inv turn_on_keeps_inv launch_keeps_inv)
qed

text \<open>C36.  Turning a processor on.  Whatever sequence of parking, power calls and launches has gone
  before, a request for a processor that waits and has not been asked for yet succeeds, the
  processor finds exactly that request with the caller's machine, entry point and context, and
  any further request for it before it has started is refused; a request for any other processor is
  refused with \<open>ALREADY_ON\<close> and changes nothing.  No request is lost or overwritten.\<close>

theorem smp_cpu_on_correct:
  assumes "smp_reachable s" "get_current_vm h = Some v"
  shows "(case smp_phase s (mpidr_to_affinity t) of
      Waiting c \<Rightarrow>
        (if pk_launch (parked_cells (smp_power s) ! c) = None
         then \<exists>pw. handle_guest_cpu_on h t entry cid (smp_power s) = Some (0, pw) \<and>
           fst (park_poll c pw) = Some \<lparr>sl_vm = vm_id v, sl_entry_point = entry, sl_context_id = cid\<rparr> \<and>
           handle_guest_cpu_on h t entry' cid' pw = Some (PSCI_ALREADY_ON, pw)
         else handle_guest_cpu_on h t entry cid (smp_power s) = Some (PSCI_ALREADY_ON, smp_power s))
    | _ \<Rightarrow> handle_guest_cpu_on h t entry cid (smp_power s) = Some (PSCI_ALREADY_ON, smp_power s))"
proof -
  have i: "smp_inv s" by (rule smp_reachable_inv [OF assms(1)])
  show ?thesis
  proof (cases "\<exists>c. smp_phase s (mpidr_to_affinity t) = Waiting c \<and> pk_launch (parked_cells (smp_power s) ! c) = None")
    case False
    then show ?thesis using cpu_on_None [OF i, of t h entry cid] by (auto split: phase.splits)
  next
    case True
    then obtain c where c: "smp_phase s (mpidr_to_affinity t) = Waiting c" "pk_launch (parked_cells (smp_power s) ! c) = None" by blast
    obtain pw where on: "handle_guest_cpu_on h t entry cid (smp_power s) = Some (0, pw)"
      and cell: "pk_launch (parked_cells pw ! c) = Some \<lparr>sl_vm = vm_id v, sl_entry_point = entry, sl_context_id = cid\<rparr>"
      using cpu_on_Some [OF i c assms(2), of entry cid] smp_invD(3) [OF i c(1)] by auto
    have "smp_inv (s\<lparr>smp_power := pw\<rparr>)" by (rule turn_on_keeps_inv [OF i on])
    from cpu_on_None [OF this, of t h entry' cid'] c(1) cell
    have "handle_guest_cpu_on h t entry' cid' pw = Some (PSCI_ALREADY_ON, pw)" by simp
    with c on cell show ?thesis by (auto simp: park_poll_def Let_def)
  qed
qed

text \<open>One processor has been parked.\<close>

definition example_smp :: smp where
  "example_smp = \<lparr>smp_power = \<lparr>parked_cells = [\<lparr>pk_affinity = 1, pk_launch = None\<rparr>], PARKED_CPUS = [0], STACK_TOPS = [(1, 65536)]\<rparr>,
     smp_phase = (\<lambda>_. Idle)(1 := Waiting 0)\<rparr>"

lemma example_smp_reachable: "smp_reachable example_smp"
proof -
  let ?s = "\<lparr>smp_power = \<lparr>parked_cells = [], PARKED_CPUS = [], STACK_TOPS = [(1, 65536)]\<rparr>, smp_phase = (\<lambda>_. Idle)\<rparr>"
  have "smp_step ?s \<lparr>smp_power = smp_power example_smp, smp_phase = (smp_phase ?s)(1 := Waiting 0)\<rparr>"
    by (rule smp_step.park) (simp_all add: park_register_def example_smp_def)
  then have "smp_step ?s example_smp" by (simp add: example_smp_def)
  from smp_reachable.step [OF smp_reachable.boot this] show ?thesis .
qed

theorem smp_cpu_on_correct_witness:
  "\<exists>pw. handle_guest_cpu_on example_hyp 0x80000001 0x40200000 5 (smp_power example_smp) = Some (0, pw) \<and>
     fst (park_poll 0 pw) = Some \<lparr>sl_vm = 0, sl_entry_point = 0x40200000, sl_context_id = 5\<rparr>"
proof -
  obtain v where v: "get_current_vm example_hyp = Some v" "vm_id v = 0"
    by (simp add: get_current_vm_def find_vm_def example_hyp_def VM_new_def VcpuContext_new_def reset_el1_context_def)
  have "mpidr_to_affinity 0x80000001 = 1" by (simp add: mpidr_to_affinity_def)
  with smp_cpu_on_correct [OF example_smp_reachable v(1), of "0x80000001" "0x40200000" 5] v(2)
  show ?thesis by (auto simp: example_smp_def)
qed

end
