(* ===== verification/Dtb.thy ===== *)
theory Dtb
  imports Byte_Memory
begin

text \<open>
  The device tree parser, \<^verbatim>\<open>dtb.rs\<close>: searches by name and by \<open>compatible\<close> string, properties,
  \<open>reg\<close> entries and the translation of bus addresses.

  The blob is read through raw pointers: the functions take the memory.  A function with a \<open>&mut\<close>
  pointer returns the new pointer; where the result is an error its value is never
  read.  \<open>_skip_to_next_node\<close>, \<open>_search_node\<close> and \<open>_search_node_by_compatible\<close> are recursive loops;
  they are total functions here, since every round moves the pointer and no pointer
  leaves the address space.
\<close>

section \<open>The operator \<open>?\<close>\<close>

definition try_result :: "('e + 'a) option \<Rightarrow> ('a \<Rightarrow> ('e + 'b) option) \<Rightarrow> ('e + 'b) option" where
  "try_result r f = Option.bind r (\<lambda>x. case x of Inl e \<Rightarrow> Some (Inl e) | Inr v \<Rightarrow> f v)"

lemma try_result_cong [fundef_cong]:
  "r = r' \<Longrightarrow> (\<And>v. r' = Some (Inr v) \<Longrightarrow> f v = f' v) \<Longrightarrow> try_result r f = try_result r' f'"
  by (cases r') (auto simp: try_result_def split: sum.split)

lemma try_result_simps [simp]:
  "try_result None f = None" "try_result (Some (Inl e)) f = Some (Inl e)" "try_result (Some (Inr v)) f = f v"
  by (simp_all add: try_result_def)

lemma try_result_eq_Inr: "try_result r f = Some (Inr y) \<longleftrightarrow> (\<exists>v. r = Some (Inr v) \<and> f v = Some (Inr y))"
  by (cases r) (auto simp: try_result_def split: sum.splits)

section \<open>The blob\<close>

definition be32 :: "bmem \<Rightarrow> usize \<Rightarrow> u32" where
  "be32 m a = of_nat (be_nat (get_bytes m a 4))"

text \<open>The header, after \<open>u32::from_be\<close> of every field.\<close>

record FdtHeader =
  magic :: u32
  total_size :: u32
  off_dt_struct :: u32
  off_dt_strings :: u32
  off_mem_reserved_map :: u32
  fdt_version :: u32
  last_comp_version :: u32
  boot_cpuid_phys :: u32
  size_dt_strings :: u32
  size_dt_struct :: u32

definition load_header :: "bmem \<Rightarrow> usize \<Rightarrow> FdtHeader" where
  "load_header m a = \<lparr>magic = be32 m a, total_size = be32 m (a + 4), off_dt_struct = be32 m (a + 8),
     off_dt_strings = be32 m (a + 12), off_mem_reserved_map = be32 m (a + 16), fdt_version = be32 m (a + 20),
     last_comp_version = be32 m (a + 24), boot_cpuid_phys = be32 m (a + 28), size_dt_strings = be32 m (a + 32),
     size_dt_struct = be32 m (a + 36)\<rparr>"

record Dtb =
  dtb_header :: usize

record DtbNode =
  node_address :: usize
  node_address_cells :: u32
  node_size_cells :: u32

record DtbProperty =
  prop_address :: usize
  prop_address_cells :: u32
  prop_size_cells :: u32
  prop_len :: u32

definition FDT_MAGIC :: u32 where "FDT_MAGIC = 0xd00dfeed"
definition FDT_VERSION :: u32 where "FDT_VERSION = 17"
definition FDT_BEGIN_NODE :: "u8 list" where "FDT_BEGIN_NODE = [0, 0, 0, 1]"
definition FDT_END_NODE :: "u8 list" where "FDT_END_NODE = [0, 0, 0, 2]"
definition FDT_PROP :: "u8 list" where "FDT_PROP = [0, 0, 0, 3]"
definition FDT_NOP :: "u8 list" where "FDT_NOP = [0, 0, 0, 4]"
definition FDT_END :: "u8 list" where "FDT_END = [0, 0, 0, 9]"

text \<open>The byte strings \<open>#address-cells\<close>, \<open>#size-cells\<close>, \<open>reg\<close>, \<open>status\<close>, \<open>okay\<close>, \<open>compatible\<close>, \<open>ranges\<close>, \<open>soc\<close>.\<close>

definition PROP_ADDRESS_CELLS :: "u8 list" where
  "PROP_ADDRESS_CELLS = [35, 97, 100, 100, 114, 101, 115, 115, 45, 99, 101, 108, 108, 115]"
definition PROP_SIZE_CELLS :: "u8 list" where
  "PROP_SIZE_CELLS = [35, 115, 105, 122, 101, 45, 99, 101, 108, 108, 115]"
definition PROP_REG :: "u8 list" where "PROP_REG = [114, 101, 103]"
definition PROP_STATUS :: "u8 list" where "PROP_STATUS = [115, 116, 97, 116, 117, 115]"
definition PROP_STATUS_OKAY :: "u8 list" where "PROP_STATUS_OKAY = [111, 107, 97, 121, 0]"
definition PROP_COMPATIBLE :: "u8 list" where
  "PROP_COMPATIBLE = [99, 111, 109, 112, 97, 116, 105, 98, 108, 101]"
definition PROP_RANGES :: "u8 list" where "PROP_RANGES = [114, 97, 110, 103, 101, 115]"
definition NODE_SOC :: "u8 list" where "NODE_SOC = [115, 111, 99]"
definition DEFAULT_ADDRESS_CELLS :: u32 where "DEFAULT_ADDRESS_CELLS = 2"
definition DEFAULT_SIZE_CELLS :: u32 where "DEFAULT_SIZE_CELLS = 1"

definition Dtb_new :: "bmem \<Rightarrow> usize \<Rightarrow> unit + Dtb" where
  "Dtb_new m dtb_address =
     (if magic (load_header m dtb_address) \<noteq> FDT_MAGIC then Inl ()
      else if fdt_version (load_header m dtb_address) > FDT_VERSION then Inl ()
      else Inr \<lparr>dtb_header = dtb_address\<rparr>)"

definition get_total_size :: "bmem \<Rightarrow> Dtb \<Rightarrow> usize" where
  "get_total_size m d = unat (total_size (load_header m (dtb_header d)))"

definition get_struct_offset :: "bmem \<Rightarrow> Dtb \<Rightarrow> usize option" where
  "get_struct_offset m d = uadd (dtb_header d) (unat (off_dt_struct (load_header m (dtb_header d))))"

definition get_struct_size :: "bmem \<Rightarrow> Dtb \<Rightarrow> usize" where
  "get_struct_size m d = unat (size_dt_struct (load_header m (dtb_header d)))"

definition get_string_offset :: "bmem \<Rightarrow> Dtb \<Rightarrow> usize option" where
  "get_string_offset m d = uadd (dtb_header d) (unat (off_dt_strings (load_header m (dtb_header d))))"

definition get_string_size :: "bmem \<Rightarrow> Dtb \<Rightarrow> usize" where
  "get_string_size m d = unat (size_dt_strings (load_header m (dtb_header d)))"

section \<open>Strings\<close>

text \<open>The first loop of the comparisons: the pointer stops at the first difference.\<close>

fun compare_bytes :: "bmem \<Rightarrow> u8 list \<Rightarrow> usize \<Rightarrow> (bool \<times> usize) option" where
  "compare_bytes m [] p = Some (True, p)"
| "compare_bytes m (c # cs) p =
     (if c \<noteq> m p then Some (False, p) else do { p \<leftarrow> uadd p 1; compare_bytes m cs p })"

definition compare_name_segment :: "bmem \<Rightarrow> Dtb \<Rightarrow> u32 \<Rightarrow> u8 list \<Rightarrow> u8 list \<Rightarrow> (unit + bool) option" where
  "compare_name_segment m d name_offset name delimiter =
     (if unat name_offset \<ge> get_string_size m d then Some (Inl ())
      else do {
        s \<leftarrow> get_string_offset m d;
        p \<leftarrow> uadd s (unat name_offset);
        (same, p) \<leftarrow> compare_bytes m name p;
        Some (Inr (same \<and> m p \<in> set (delimiter @ [0]))) })"

definition skip_padding :: "usize \<Rightarrow> usize option" where
  "skip_padding p = do { q \<leftarrow> usub p 1; uadd (clear_low q 4) 4 }"

function skip_string :: "bmem \<Rightarrow> usize \<Rightarrow> usize option" where
  "skip_string m p = (if m p = 0 then Some p else do { p \<leftarrow> uadd p 1; skip_string m p })"
  by pat_completeness auto
termination
  by (relation "measure (\<lambda>(m, p). usize_limit - p)") (auto simp: uadd_def split: if_splits)

declare skip_string.simps [simp del]

definition skip_name :: "bmem \<Rightarrow> usize \<Rightarrow> usize option" where
  "skip_name m p = do { p \<leftarrow> skip_string m p; p \<leftarrow> uadd p 1; skip_padding p }"

definition compare_string :: "bmem \<Rightarrow> usize \<Rightarrow> u8 list \<Rightarrow> u8 list \<Rightarrow> (unit + bool \<times> usize) option" where
  "compare_string m p name delimiter = do {
     (same, p) \<leftarrow> compare_bytes m name p;
     let hit = (same \<and> m p \<in> set (delimiter @ [0]));
     p \<leftarrow> skip_name m p;
     Some (Inr (hit, p)) }"

section \<open>Tokens\<close>

definition struct_end :: "bmem \<Rightarrow> Dtb \<Rightarrow> usize option" where
  "struct_end m d = do { s \<leftarrow> get_struct_offset m d; uadd s (get_struct_size m d) }"

definition read_node :: "bmem \<Rightarrow> Dtb \<Rightarrow> usize \<Rightarrow> (unit + u8 list) option" where
  "read_node m d address = do {
     e \<leftarrow> struct_end m d;
     Some (if address \<ge> e then Inl () else Inr (get_bytes m address 4)) }"

definition read_u32 :: "bmem \<Rightarrow> Dtb \<Rightarrow> usize \<Rightarrow> (unit + u32) option" where
  "read_u32 m d address = try_result (read_node m d address) (\<lambda>b. Some (Inr (of_nat (be_nat b))))"

lemma read_node_Inr: "read_node m d p = Some (Inr t) \<Longrightarrow> p < usize_limit"
  by (auto simp: read_node_def struct_end_def uadd_def bind_eq_Some_conv split: if_splits)

lemma uadd_SomeD: "uadd a b = Some c \<Longrightarrow> c = a + b \<and> c < usize_limit"
  by (auto simp: uadd_def split: if_splits)

function skip_nop :: "bmem \<Rightarrow> Dtb \<Rightarrow> usize \<Rightarrow> (unit + usize) option" where
  "skip_nop m d p = try_result (read_node m d p) (\<lambda>t.
     if t = FDT_NOP then do { p \<leftarrow> uadd p 4; skip_nop m d p } else Some (Inr p))"
  by pat_completeness auto
termination
  by (relation "measure (\<lambda>(m, d, p). usize_limit - p)") (auto dest!: uadd_SomeD read_node_Inr)

declare skip_nop.simps [simp del]

lemma skip_nopD: "skip_nop m d p = Some (Inr q) \<Longrightarrow> p \<le> q \<and> q < usize_limit"
proof (induction m d p rule: skip_nop.induct)
  case (1 m d p)
  from "1.prems" obtain t where t: "read_node m d p = Some (Inr t)"
    "(if t = FDT_NOP then do { p \<leftarrow> uadd p 4; skip_nop m d p } else Some (Inr p)) = Some (Inr q)"
    by (subst (asm) skip_nop.simps) (auto simp: try_result_eq_Inr)
  then show ?case using "1.IH" [OF t(1)] read_node_Inr [OF t(1)]
    by (cases "uadd p 4") (fastforce dest: uadd_SomeD split: if_splits)+
qed

lemma clear_low_4: "clear_low x 4 = x div 4 * 4" if "x < usize_limit"
  using clear_low_power2 [of x 2] that by (simp add: usize_limit_def)

text \<open>The distance of a pointer to the end of the address space; what is not an address counts as
  further away than everything else.\<close>

definition distance :: "usize \<Rightarrow> nat" where
  "distance p = (if p < usize_limit then usize_limit - p else usize_limit + 1)"

lemma skip_padding_le:
  assumes "skip_padding p = Some q"
  shows "q < usize_limit" "p < usize_limit \<Longrightarrow> p \<le> q" "distance q \<le> distance p"
proof -
  have q: "1 \<le> p" "q = clear_low (p - 1) 4 + 4" "q < usize_limit"
    using assms by (auto simp: skip_padding_def usub_def bind_eq_Some_conv dest: uadd_SomeD split: if_splits)
  show "q < usize_limit" by (rule q(3))
  show le: "p \<le> q" if "p < usize_limit"
    using q that clear_low_4 [of "p - 1"] by linarith
  show "distance q \<le> distance p" using le q(3) by (auto simp: distance_def)
qed

lemma skip_stringD: "skip_string m p = Some q \<Longrightarrow> p \<le> q"
proof (induction m p rule: skip_string.induct)
  case (1 m p)
  then show ?case by (subst (asm) (2) skip_string.simps) (cases "uadd p 1"; fastforce dest: uadd_SomeD split: if_splits)
qed

lemma skip_nameD: "skip_name m p = Some q \<Longrightarrow> p < q \<and> q < usize_limit"
  by (auto simp: skip_name_def bind_eq_Some_conv dest!: skip_stringD uadd_SomeD)
    (auto dest: skip_padding_le)

lemma compare_bytes_le: "compare_bytes m cs p = Some (b, q) \<Longrightarrow> p \<le> q"
  by (induction m cs p rule: compare_bytes.induct) (fastforce simp: bind_eq_Some_conv dest: uadd_SomeD split: if_splits)+

lemma compare_stringD: "compare_string m p name delimiter = Some (Inr (b, q)) \<Longrightarrow> p < q \<and> q < usize_limit"
  by (auto simp: compare_string_def bind_eq_Some_conv Let_def dest!: compare_bytes_le skip_nameD)

section \<open>Walking over nodes\<close>

text \<open>A computation of a pointer moves it forward and keeps it in the address space.\<close>

definition forward :: "usize \<Rightarrow> ('a \<Rightarrow> usize) \<Rightarrow> (unit + 'a) option \<Rightarrow> bool" where
  "forward p f r \<longleftrightarrow> (\<forall>v. r = Some (Inr v) \<longrightarrow> p \<le> f v \<and> f v < usize_limit)"

lemma forward_intros:
  "(\<And>x. r = Some x \<Longrightarrow> forward p f (g x)) \<Longrightarrow> forward p f (Option.bind r g)"
  "(\<And>x. t = Some (Inr x) \<Longrightarrow> forward p f (h x)) \<Longrightarrow> forward p f (try_result t h)"
  "(b \<Longrightarrow> forward p f y) \<Longrightarrow> (\<not> b \<Longrightarrow> forward p f z) \<Longrightarrow> forward p f (if b then y else z)"
  "forward p f (Some (Inl e))"
  by (auto simp: forward_def bind_eq_Some_conv try_result_eq_Inr)

lemma forwardD: "forward p f r \<Longrightarrow> r = Some (Inr v) \<Longrightarrow> p \<le> f v \<and> f v < usize_limit"
  by (simp add: forward_def)

lemma forward_leaf: "p \<le> f v \<Longrightarrow> f v < usize_limit \<Longrightarrow> forward p f (Some (Inr v))"
  by (simp add: forward_def)

lemma forward_trans: "forward q f r \<Longrightarrow> p \<le> q \<Longrightarrow> forward p f r"
  by (auto simp: forward_def)

lemmas moves = skip_nopD uadd_SomeD skip_nameD compare_stringD

function skip_to_next_node :: "bmem \<Rightarrow> Dtb \<Rightarrow> usize \<Rightarrow> (unit + usize) option" where
  "skip_to_next_node m d p = do {
     p \<leftarrow> skip_padding p;
     try_result (skip_nop m d p) (\<lambda>p.
     try_result (read_node m d p) (\<lambda>t.
       if t = FDT_BEGIN_NODE then do {
         p \<leftarrow> uadd p 4;
         try_result (skip_to_next_node m d p) (\<lambda>p. skip_to_next_node m d p) }
       else if t = FDT_END then Some (Inl ())
       else if t = FDT_END_NODE then do { p \<leftarrow> uadd p 4; Some (Inr p) }
       else if t = FDT_PROP then do {
         p \<leftarrow> uadd p 4;
         try_result (read_u32 m d p) (\<lambda>len. do {
           p \<leftarrow> uadd p 4;
           p \<leftarrow> uadd p 4;
           p \<leftarrow> uadd p (unat len);
           skip_to_next_node m d p }) }
       else Some (Inl ()))) }"
  by pat_completeness auto

lemma skip_to_next_node_forward:
  "skip_to_next_node_dom (m, d, p) \<Longrightarrow> p < usize_limit \<Longrightarrow> forward p id (skip_to_next_node m d p)"
proof (induction m d p rule: skip_to_next_node.pinduct)
  case (1 m d p)
  show ?case unfolding skip_to_next_node.psimps [OF "1.hyps"]
  proof (intro forward_intros, goal_cases)
    case (1 p1 p2 t p3 p4)
    have p3: "p \<le> p3" "p3 < usize_limit"
      using skip_padding_le(2) [OF 1(1) "1.prems"] skip_nopD [OF 1(2)] uadd_SomeD [OF 1(5)] by auto
    have p4: "p3 \<le> p4" "p4 < usize_limit"
      using "1.IH"(1) [OF 1(1-5) p3(2)] forwardD [OF _ 1(6)] by fastforce+
    show ?case by (rule forward_trans [OF "1.IH"(2) [OF 1(1-6) p4(2)]]) (use p3 p4 in linarith)
  next
    case (2 p1 p2 t p3)
    then show ?case
      using skip_padding_le(2) [OF 2(1) "1.prems"] skip_nopD [OF 2(2)] uadd_SomeD [OF 2(7)] by (intro forward_leaf) auto
  next
    case (3 p1 p2 t p3 len p4 p5 p6)
    have p6: "p \<le> p6" "p6 < usize_limit"
      using skip_padding_le(2) [OF 3(1) "1.prems"] skip_nopD [OF 3(2)] 3(8,10-12) [THEN uadd_SomeD] by auto
    show ?case by (rule forward_trans [OF "1.IH"(3) [OF 3 p6(2)] p6(1)])
  qed
qed

lemma round_distance: "skip_padding p = Some p1 \<Longrightarrow> p1 < q \<Longrightarrow> q < usize_limit \<Longrightarrow> distance q < distance p"
  using skip_padding_le(1,3) [of p p1] by (auto simp: distance_def split: if_splits)

termination skip_to_next_node
proof (relation "measure (\<lambda>(m, d, p). distance p)", goal_cases)
  case (2 m d p p1 p2 t p3)
  then show ?case using round_distance [of p p1 p3] by (fastforce dest: moves)
next
  case (3 m d p p1 p2 t p3 p4)
  have "p3 \<le> p4 \<and> p4 < usize_limit"
    using skip_to_next_node_forward [OF 3(7)] uadd_SomeD [OF 3(5)] 3(6) by (auto simp: forward_def)
  then show ?case using 3 round_distance [of p p1 p4] by (fastforce dest: moves)
next
  case (4 m d p p1 p2 t p3 len p4 p5 p6)
  then show ?case using round_distance [of p p1 p6] by (fastforce dest: moves)
qed simp

definition check_address_and_size_cells :: "bmem \<Rightarrow> Dtb \<Rightarrow> u32 \<Rightarrow> usize \<Rightarrow> u32 \<Rightarrow> u32 \<Rightarrow> (unit + u32 \<times> u32) option" where
  "check_address_and_size_cells m d name_segment p address_cells size_cells =
     try_result (compare_name_segment m d name_segment PROP_ADDRESS_CELLS []) (\<lambda>address.
       if address then try_result (read_u32 m d p) (\<lambda>v. Some (Inr (v, size_cells)))
       else try_result (compare_name_segment m d name_segment PROP_SIZE_CELLS []) (\<lambda>size.
         if size then try_result (read_u32 m d p) (\<lambda>v. Some (Inr (address_cells, v)))
         else Some (Inr (address_cells, size_cells))))"

text \<open>What the loops do with a property before they look at its value: length, name, pointer to
  the value and the cell counts after it.\<close>

definition enter_property :: "bmem \<Rightarrow> Dtb \<Rightarrow> usize \<Rightarrow> u32 \<Rightarrow> u32 \<Rightarrow> (unit + u32 \<times> u32 \<times> usize \<times> u32 \<times> u32) option" where
  "enter_property m d p address_cells size_cells = do {
     p \<leftarrow> uadd p 4;
     try_result (read_u32 m d p) (\<lambda>len. do {
       p \<leftarrow> uadd p 4;
       try_result (read_u32 m d p) (\<lambda>name_segment. do {
         p \<leftarrow> uadd p 4;
         try_result (check_address_and_size_cells m d name_segment p address_cells size_cells) (\<lambda>(ac, sc).
           Some (Inr (len, name_segment, p, ac, sc))) }) }) }"

lemma enter_propertyD: "enter_property m d p ac sc = Some (Inr (len, s, q, ac', sc')) \<Longrightarrow> p < q \<and> q < usize_limit"
  by (auto simp: enter_property_def bind_eq_Some_conv try_result_eq_Inr dest!: uadd_SomeD)

section \<open>Searching by name\<close>

definition search_enter :: "bmem \<Rightarrow> Dtb \<Rightarrow> u8 list \<Rightarrow> usize \<Rightarrow> (unit + bool \<times> usize) option" where
  "search_enter m d node_name p =
     try_result (skip_nop m d p) (\<lambda>p.
     try_result (read_node m d p) (\<lambda>t.
       if t \<noteq> FDT_BEGIN_NODE then Some (Inl ())
       else do { p \<leftarrow> uadd p 4; compare_string m p node_name [64] }))"

lemma search_enterD: "search_enter m d n p = Some (Inr (b, q)) \<Longrightarrow> p < q \<and> q < usize_limit"
  by (auto simp: search_enter_def bind_eq_Some_conv try_result_eq_Inr dest!: moves split: if_splits)

function search_loop :: "bmem \<Rightarrow> Dtb \<Rightarrow> u8 list \<Rightarrow> usize \<Rightarrow> u32 \<Rightarrow> u32 \<Rightarrow> (unit + DtbNode option \<times> usize) option" where
  "search_loop m d node_name p address_cells size_cells = do {
     p \<leftarrow> skip_padding p;
     try_result (skip_nop m d p) (\<lambda>p.
     try_result (read_node m d p) (\<lambda>t.
       if t = FDT_BEGIN_NODE then
         try_result (search_enter m d node_name p) (\<lambda>(found, p).
           if found then Some (Inr (Some \<lparr>node_address = p, node_address_cells = address_cells, node_size_cells = size_cells\<rparr>, p))
           else try_result (search_loop m d node_name p address_cells size_cells) (\<lambda>r.
             if fst r \<noteq> None then Some (Inr r)
             else search_loop m d node_name (snd r) address_cells size_cells))
       else if t = FDT_END then Some (Inl ())
       else if t = FDT_END_NODE then do { p \<leftarrow> uadd p 4; Some (Inr (None, p)) }
       else if t = FDT_PROP then
         try_result (enter_property m d p address_cells size_cells) (\<lambda>(len, name_segment, p, ac, sc). do {
           p \<leftarrow> uadd p (unat len);
           search_loop m d node_name p ac sc })
       else Some (Inl ()))) }"
  by pat_completeness auto

lemma forward_prod: "(\<And>x y. (x, y) = z \<Longrightarrow> forward p f (g x y)) \<Longrightarrow> forward p f (case z of (x, y) \<Rightarrow> g x y)"
  by (cases z) simp

lemma search_loop_forward:
  "search_loop_dom (m, d, n, p, ac, sc) \<Longrightarrow> p < usize_limit \<Longrightarrow> forward p snd (search_loop m d n p ac sc)"
proof (induction m d n p ac sc rule: search_loop.pinduct)
  case (1 m d n p ac sc)
  show ?case unfolding search_loop.psimps [OF "1.hyps"]
  proof (intro forward_intros forward_prod, goal_cases)
    case (1 p1 p2 t e b p3)
    then show ?case
      using skip_padding_le(2) [OF 1(1) "1.prems"] skip_nopD [OF 1(2)] search_enterD [of m d n p2 b p3] by (intro forward_leaf) auto
  next
    case (2 p1 p2 t e b p3 r)
    have p3: "p \<le> p3" "p3 < usize_limit"
      using skip_padding_le(2) [OF 2(1) "1.prems"] skip_nopD [OF 2(2)] search_enterD [of m d n p2 b p3] 2(5,6) by auto
    then show ?case using "1.IH"(1) [OF 2(1-7) p3(2)] 2(8) by (auto simp: forward_def)
  next
    case (3 p1 p2 t e b p3 r)
    have p3: "p \<le> p3" "p3 < usize_limit"
      using skip_padding_le(2) [OF 3(1) "1.prems"] skip_nopD [OF 3(2)] search_enterD [of m d n p2 b p3] 3(5,6) by auto
    have r: "p3 \<le> snd r" "snd r < usize_limit" using "1.IH"(1) [OF 3(1-7) p3(2)] 3(8) by (auto simp: forward_def)
    show ?case by (rule forward_trans [OF "1.IH"(2) [OF 3(1-9) r(2)]]) (use p3 r in linarith)
  next
    case (4 p1 p2 t p3)
    then show ?case
      using skip_padding_le(2) [OF 4(1) "1.prems"] skip_nopD [OF 4(2)] uadd_SomeD [OF 4(7)] by (intro forward_leaf) auto
  next
    case (5 p1 p2 t z len z1 s z2 p3 z3 ac' sc' p4)
    have p4: "p \<le> p4" "p4 < usize_limit"
      using skip_padding_le(2) [OF 5(1) "1.prems"] skip_nopD [OF 5(2)] enter_propertyD [of m d p2 ac sc len s p3 ac' sc']
        uadd_SomeD [OF 5(13)] 5(8-12) by auto
    show ?case by (rule forward_trans [OF "1.IH"(3) [OF 5 p4(2)] p4(1)])
  qed
qed

lemma search_loop_total: "All search_loop_dom"
proof (relation "measure (\<lambda>(m, d, n, p, ac, sc). distance p)", goal_cases)
  case (2 m d n p ac sc p1 p2 t e b p3)
  then show ?case using round_distance [of p p1 p3] by (fastforce dest: moves search_enterD)
next
  case (3 m d n p ac sc p1 p2 t e b p3 r)
  have "p3 < usize_limit" "p2 < p3" using 3(5,6) search_enterD [of m d n p2 b p3] by auto
  moreover then have "p3 \<le> snd r \<and> snd r < usize_limit"
    using search_loop_forward [OF 3(10)] 3(8) by (auto simp: forward_def)
  ultimately show ?case using skip_nopD [OF 3(2)] round_distance [OF 3(1), of "snd r"] by simp
next
  case (4 m d n p ac sc p1 p2 t z len z1 s z2 p3 z3 ac' sc' p4)
  then show ?case using round_distance [of p p1 p4] by (fastforce dest: moves enter_propertyD)
qed simp

termination search_loop by (rule search_loop_total)

declare search_loop.simps [simp del]

definition search_node_at :: "bmem \<Rightarrow> Dtb \<Rightarrow> u8 list \<Rightarrow> usize \<Rightarrow> u32 \<Rightarrow> u32 \<Rightarrow> (unit + DtbNode option \<times> usize) option" where
  "search_node_at m d node_name p address_cells size_cells =
     try_result (search_enter m d node_name p) (\<lambda>(found, p).
       if found then Some (Inr (Some \<lparr>node_address = p, node_address_cells = address_cells, node_size_cells = size_cells\<rparr>, p))
       else search_loop m d node_name p address_cells size_cells)"

text \<open>The outer loop, which both searches share: one node after the other, with the search of a node
  as a parameter.\<close>

definition search_from :: "bmem \<Rightarrow> Dtb \<Rightarrow> DtbNode option \<Rightarrow> (unit + usize \<times> u32 \<times> u32) option" where
  "search_from m d current_node =
     (case current_node of
        Some c \<Rightarrow> try_result (skip_to_next_node m d (node_address c)) (\<lambda>p.
          Some (Inr (p, node_address_cells c, node_size_cells c)))
      | None \<Rightarrow> map_option (\<lambda>p. Inr (p, DEFAULT_ADDRESS_CELLS, DEFAULT_SIZE_CELLS)) (get_struct_offset m d))"

function search_nodes :: "bmem \<Rightarrow> Dtb \<Rightarrow> u8 list \<Rightarrow> usize \<Rightarrow> u32 \<Rightarrow> u32 \<Rightarrow> DtbNode option option" where
  "search_nodes m d node_name p address_cells size_cells =
     Option.bind (read_node m d p) (\<lambda>t. case t of
       Inl e \<Rightarrow> Some None
     | Inr b \<Rightarrow> Option.bind (search_node_at m d node_name p address_cells size_cells) (\<lambda>r. case r of
         Inl e \<Rightarrow> Some None
       | Inr q \<Rightarrow> if fst q \<noteq> None then Some (fst q)
           else Option.bind (uadd (snd q) 4) (\<lambda>p. search_nodes m d node_name p address_cells size_cells)))"
  by pat_completeness auto

lemma search_node_at_forward:
  assumes "search_node_at m d n p ac sc = Some (Inr q)"
  shows "p < snd q" "snd q < usize_limit"
proof -
  obtain b p' where e: "search_enter m d n p = Some (Inr (b, p'))"
    and r: "(if b then Some (Inr (Some \<lparr>node_address = p', node_address_cells = ac, node_size_cells = sc\<rparr>, p')) else search_loop m d n p' ac sc) = Some (Inr q)"
    using assms by (auto simp: search_node_at_def try_result_eq_Inr)
  have "p < p'" "p' < usize_limit" using search_enterD [OF e] by auto
  moreover have "forward p' snd (search_loop m d n p' ac sc)"
    by (rule search_loop_forward) (use calculation search_loop_total in auto)
  ultimately show "p < snd q" "snd q < usize_limit" using r by (cases q; auto simp: forward_def split: if_splits)+
qed

termination search_nodes
proof (relation "measure (\<lambda>(m, d, n, p, ac, sc). distance p)", goal_cases)
  case (2 m d n p ac sc t b r q p')
  then have "p < p'" "p' < usize_limit"
    using search_node_at_forward [of m d n p ac sc q] by (auto dest!: uadd_SomeD)
  then show ?case by (auto simp: distance_def)
qed simp

definition search_node :: "bmem \<Rightarrow> Dtb \<Rightarrow> u8 list \<Rightarrow> DtbNode option \<Rightarrow> DtbNode option option" where
  "search_node m d node_name current_node =
     Option.bind (search_from m d current_node) (\<lambda>r. case r of
       Inl e \<Rightarrow> Some None
     | Inr (p, ac, sc) \<Rightarrow> search_nodes m d node_name p ac sc)"

section \<open>Properties of a node\<close>

function get_property_loop :: "bmem \<Rightarrow> Dtb \<Rightarrow> u8 list \<Rightarrow> usize \<Rightarrow> u32 \<Rightarrow> u32 \<Rightarrow> (unit + DtbProperty) option" where
  "get_property_loop m d property_name p address_cells size_cells = do {
     p \<leftarrow> skip_padding p;
     try_result (skip_nop m d p) (\<lambda>p.
     try_result (read_node m d p) (\<lambda>t.
       if t = FDT_BEGIN_NODE \<or> t = FDT_END \<or> t = FDT_END_NODE then Some (Inl ())
       else if t = FDT_PROP then
         try_result (enter_property m d p address_cells size_cells) (\<lambda>(len, name_segment, p, ac, sc).
           try_result (compare_name_segment m d name_segment property_name []) (\<lambda>found.
             if found then Some (Inr \<lparr>prop_address = p, prop_address_cells = ac, prop_size_cells = sc, prop_len = len\<rparr>)
             else do { p \<leftarrow> uadd p (unat len); get_property_loop m d property_name p ac sc }))
       else Some (Inl ()))) }"
  by pat_completeness auto
termination
proof (relation "measure (\<lambda>(m, d, n, p, ac, sc). distance p)", goal_cases)
  case (2 m d n p ac sc p1 p2 t z len z1 s z2 p3 z3 ac' sc' f p4)
  then show ?case using round_distance [of p p1 p4] by (fastforce dest: moves enter_propertyD)
qed simp

text \<open>\<open>None\<close> of the source is an error here.\<close>

definition get_property :: "bmem \<Rightarrow> Dtb \<Rightarrow> DtbNode \<Rightarrow> u8 list \<Rightarrow> DtbProperty option option" where
  "get_property m d node property_name =
     map_option (case_sum (\<lambda>_. None) Some)
       (get_property_loop m d property_name (node_address node) (node_address_cells node) (node_size_cells node))"

definition is_node_operational :: "bmem \<Rightarrow> Dtb \<Rightarrow> DtbNode \<Rightarrow> bool option" where
  "is_node_operational m d node = do {
     p \<leftarrow> get_property m d node PROP_STATUS;
     Some (case p of None \<Rightarrow> True | Some p \<Rightarrow> get_bytes m (prop_address p) 5 = PROP_STATUS_OKAY) }"

fun compatible_here :: "bmem \<Rightarrow> usize \<Rightarrow> u8 list \<Rightarrow> u32 \<Rightarrow> (bool \<times> u32) option" where
  "compatible_here m a [] p = Some (True, p)"
| "compatible_here m a (c # cs) p = do {
     x \<leftarrow> uadd a (unat p);
     if m x \<noteq> c then Some (False, p) else do { p \<leftarrow> wadd p 1; compatible_here m a cs p } }"

function compatible_loop :: "bmem \<Rightarrow> DtbProperty \<Rightarrow> u8 list \<Rightarrow> u32 \<Rightarrow> bool \<Rightarrow> bool option" where
  "compatible_loop m info compatible p skip =
     (if p < prop_len info then
        if skip then do {
          x \<leftarrow> uadd (prop_address info) (unat p);
          p \<leftarrow> wadd p 1;
          compatible_loop m info compatible p (m x \<noteq> 0) }
        else do {
          r \<leftarrow> compatible_here m (prop_address info) (compatible @ [0]) p;
          if fst r then Some True else compatible_loop m info compatible (snd r) True }
      else Some False)"
  by pat_completeness auto

lemma wadd_SomeD: "wadd a b = Some c \<Longrightarrow> unat c = unat a + unat b" for a :: "'a::len word"
  by (auto simp: wadd_def unat_word_ariths split: if_splits)

lemma compatible_here_le: "compatible_here m a cs p = Some (b, q) \<Longrightarrow> p \<le> q"
  by (induction m a cs p rule: compatible_here.induct)
    (fastforce simp: bind_eq_Some_conv word_le_nat_alt dest: wadd_SomeD split: if_splits)+

termination compatible_loop
proof (relation "measure (\<lambda>(m, i, c, p, skip). 2 * (2 ^ 32 - unat p) + (if skip then 0 else 1))", goal_cases)
  case (2 m i c p skip x q)
  have "unat q < 2 ^ 32" using unsigned_less [of q] by simp
  then have "2 * (2 ^ 32 - unat q) + 1 < 2 * (2 ^ 32 - unat p)" using wadd_SomeD [OF 2(4)] by simp
  then show ?case using 2(2) by simp
next
  case (3 m i c p skip r)
  then have "p \<le> snd r" by (cases r) (simp add: compatible_here_le)
  then show ?case using 3 by (simp add: word_le_nat_alt)
qed simp

definition is_device_compatible_at :: "bmem \<Rightarrow> DtbProperty \<Rightarrow> u8 list \<Rightarrow> bool option" where
  "is_device_compatible_at m info compatible = compatible_loop m info compatible 0 False"

definition is_device_compatible :: "bmem \<Rightarrow> Dtb \<Rightarrow> DtbNode \<Rightarrow> u8 list \<Rightarrow> bool option" where
  "is_device_compatible m d node compatible = do {
     info \<leftarrow> get_property m d node PROP_COMPATIBLE;
     (case info of None \<Rightarrow> Some False | Some info \<Rightarrow> is_device_compatible_at m info compatible) }"

section \<open>Searching by \<open>compatible\<close>\<close>

definition compatible_enter :: "bmem \<Rightarrow> Dtb \<Rightarrow> usize \<Rightarrow> (unit + usize) option" where
  "compatible_enter m d p =
     try_result (skip_nop m d p) (\<lambda>p.
     try_result (read_node m d p) (\<lambda>t.
       if t \<noteq> FDT_BEGIN_NODE then Some (Inl ())
       else do { p \<leftarrow> uadd p 4; p \<leftarrow> skip_name m p; Some (Inr p) }))"

lemma compatible_enterD: "compatible_enter m d p = Some (Inr q) \<Longrightarrow> p < q \<and> q < usize_limit"
  by (auto simp: compatible_enter_def bind_eq_Some_conv try_result_eq_Inr dest!: moves split: if_splits)

text \<open>\<open>start\<close> is the \<open>temporary_pointer\<close> of the source, the position after the name of the node.\<close>

function compatible_search_loop ::
  "bmem \<Rightarrow> Dtb \<Rightarrow> u8 list \<Rightarrow> usize \<Rightarrow> usize \<Rightarrow> u32 \<Rightarrow> u32 \<Rightarrow> (unit + DtbNode option \<times> usize) option" where
  "compatible_search_loop m d compatible start p address_cells size_cells = do {
     p \<leftarrow> skip_padding p;
     try_result (skip_nop m d p) (\<lambda>p.
     try_result (read_node m d p) (\<lambda>t.
       if t = FDT_BEGIN_NODE then
         try_result (compatible_enter m d p) (\<lambda>p.
           try_result (compatible_search_loop m d compatible p p address_cells size_cells) (\<lambda>r.
             if fst r \<noteq> None then Some (Inr r)
             else compatible_search_loop m d compatible start (snd r) address_cells size_cells))
       else if t = FDT_END_NODE then do { p \<leftarrow> uadd p 4; Some (Inr (None, p)) }
       else if t = FDT_PROP then
         try_result (enter_property m d p address_cells size_cells) (\<lambda>(len, name_segment, p, ac, sc).
           try_result (compare_name_segment m d name_segment PROP_COMPATIBLE []) (\<lambda>is_compatible. do {
             found \<leftarrow> (if is_compatible
               then is_device_compatible_at m \<lparr>prop_address = p, prop_address_cells = ac, prop_size_cells = sc, prop_len = len\<rparr> compatible
               else Some False);
             if found then Some (Inr (Some \<lparr>node_address = start, node_address_cells = ac, node_size_cells = sc\<rparr>, p))
             else do { p \<leftarrow> uadd p (unat len); compatible_search_loop m d compatible start p ac sc } }))
       else Some (Inl ()))) }"
  by pat_completeness auto

lemma compatible_search_loop_forward:
  "compatible_search_loop_dom (m, d, c, b, p, ac, sc) \<Longrightarrow> p < usize_limit \<Longrightarrow>
     forward p snd (compatible_search_loop m d c b p ac sc)"
proof (induction m d c b p ac sc rule: compatible_search_loop.pinduct)
  case (1 m d c b p ac sc)
  show ?case unfolding compatible_search_loop.psimps [OF "1.hyps"]
  proof (intro forward_intros forward_prod, goal_cases)
    case (1 p1 p2 t p3 r)
    have p3: "p \<le> p3" "p3 < usize_limit"
      using skip_padding_le(2) [OF 1(1) "1.prems"] skip_nopD [OF 1(2)] compatible_enterD [OF 1(5)] by auto
    then show ?case using "1.IH"(1) [OF 1(1-5) p3(2)] 1(6) by (auto simp: forward_def)
  next
    case (2 p1 p2 t p3 r)
    have p3: "p \<le> p3" "p3 < usize_limit"
      using skip_padding_le(2) [OF 2(1) "1.prems"] skip_nopD [OF 2(2)] compatible_enterD [OF 2(5)] by auto
    have r: "p3 \<le> snd r" "snd r < usize_limit" using "1.IH"(1) [OF 2(1-5) p3(2)] 2(6) by (auto simp: forward_def)
    show ?case by (rule forward_trans [OF "1.IH"(2) [OF 2(1-7) r(2)]]) (use p3 r in linarith)
  next
    case (3 p1 p2 t p3)
    then show ?case
      using skip_padding_le(2) [OF 3(1) "1.prems"] skip_nopD [OF 3(2)] uadd_SomeD [OF 3(6)] by (intro forward_leaf) auto
  next
    case (4 p1 p2 t z len z1 s z2 p3 z3 ac' sc' i f)
    then show ?case
      using skip_padding_le(2) [OF 4(1) "1.prems"] skip_nopD [OF 4(2)] enter_propertyD [of m d p2 ac sc len s p3 ac' sc']
      by (intro forward_leaf) auto
  next
    case (5 p1 p2 t z len z1 s z2 p3 z3 ac' sc' i f p4)
    have p4: "p \<le> p4" "p4 < usize_limit"
      using skip_padding_le(2) [OF 5(1) "1.prems"] skip_nopD [OF 5(2)] enter_propertyD [of m d p2 ac sc len s p3 ac' sc']
        uadd_SomeD [OF 5(15)] 5(7-11) by auto
    show ?case by (rule forward_trans [OF "1.IH"(3) [OF 5 p4(2)] p4(1)])
  qed
qed

lemma compatible_search_loop_total: "All compatible_search_loop_dom"
proof (relation "measure (\<lambda>(m, d, c, b, p, ac, sc). distance p)", goal_cases)
  case (2 m d c b p ac sc p1 p2 t p3)
  then show ?case using round_distance [of p p1 p3] by (fastforce dest: moves compatible_enterD)
next
  case (3 m d c b p ac sc p1 p2 t p3 r)
  have "p3 < usize_limit" "p2 < p3" using compatible_enterD [OF 3(5)] by auto
  moreover then have "p3 \<le> snd r \<and> snd r < usize_limit"
    using compatible_search_loop_forward [OF 3(8)] 3(6) by (auto simp: forward_def)
  ultimately show ?case using skip_nopD [OF 3(2)] round_distance [OF 3(1), of "snd r"] by simp
next
  case (4 m d c b p ac sc p1 p2 t z len z1 s z2 p3 z3 ac' sc' i f p4)
  then show ?case using round_distance [of p p1 p4] by (fastforce dest: moves enter_propertyD)
qed simp

termination compatible_search_loop by (rule compatible_search_loop_total)

declare compatible_search_loop.simps [simp del]

definition search_node_by_compatible_at ::
  "bmem \<Rightarrow> Dtb \<Rightarrow> u8 list \<Rightarrow> usize \<Rightarrow> u32 \<Rightarrow> u32 \<Rightarrow> (unit + DtbNode option \<times> usize) option" where
  "search_node_by_compatible_at m d compatible p address_cells size_cells =
     try_result (compatible_enter m d p) (\<lambda>p. compatible_search_loop m d compatible p p address_cells size_cells)"

lemma search_node_by_compatible_at_forward:
  assumes "search_node_by_compatible_at m d c p ac sc = Some (Inr q)"
  shows "p < snd q" "snd q < usize_limit"
proof -
  obtain p' where e: "compatible_enter m d p = Some (Inr p')" and r: "compatible_search_loop m d c p' p' ac sc = Some (Inr q)"
    using assms by (auto simp: search_node_by_compatible_at_def try_result_eq_Inr)
  have "p < p'" "p' < usize_limit" using compatible_enterD [OF e] by auto
  moreover have "forward p' snd (compatible_search_loop m d c p' p' ac sc)"
    by (rule compatible_search_loop_forward) (use calculation compatible_search_loop_total in auto)
  ultimately show "p < snd q" "snd q < usize_limit" using r by (cases q; auto simp: forward_def)+
qed

function search_nodes_by_compatible :: "bmem \<Rightarrow> Dtb \<Rightarrow> u8 list \<Rightarrow> usize \<Rightarrow> u32 \<Rightarrow> u32 \<Rightarrow> DtbNode option option" where
  "search_nodes_by_compatible m d compatible p address_cells size_cells =
     Option.bind (read_node m d p) (\<lambda>t. case t of
       Inl e \<Rightarrow> Some None
     | Inr b \<Rightarrow> Option.bind (search_node_by_compatible_at m d compatible p address_cells size_cells) (\<lambda>r. case r of
         Inl e \<Rightarrow> Some None
       | Inr q \<Rightarrow> if fst q \<noteq> None then Some (fst q)
           else Option.bind (uadd (snd q) 4) (\<lambda>p. search_nodes_by_compatible m d compatible p address_cells size_cells)))"
  by pat_completeness auto
termination
proof (relation "measure (\<lambda>(m, d, n, p, ac, sc). distance p)", goal_cases)
  case (2 m d n p ac sc t b r q p')
  then have "p < p'" "p' < usize_limit"
    using search_node_by_compatible_at_forward [of m d n p ac sc q] by (auto dest!: uadd_SomeD)
  then show ?case by (auto simp: distance_def)
qed simp

declare search_nodes.simps [simp del] search_nodes_by_compatible.simps [simp del] get_property_loop.simps [simp del]
  compatible_loop.simps [simp del] skip_to_next_node.simps [simp del]

definition search_node_by_compatible :: "bmem \<Rightarrow> Dtb \<Rightarrow> u8 list \<Rightarrow> DtbNode option \<Rightarrow> DtbNode option option" where
  "search_node_by_compatible m d compatible current_node =
     Option.bind (search_from m d current_node) (\<lambda>r. case r of
       Inl e \<Rightarrow> Some None
     | Inr (p, ac, sc) \<Rightarrow> search_nodes_by_compatible m d compatible p ac sc)"

section \<open>Values\<close>

definition wmul :: "'a::len word \<Rightarrow> 'a word \<Rightarrow> 'a word option" where
  "wmul a b = (if unat a * unat b < 2 ^ LENGTH('a) then Some (a * b) else None)"

text \<open>The loops that shift in one byte after the other: \<open>value <<= 8; value |= byte\<close>, with \<open>byte\<close> at
  \<open>address + offset + (start + i)\<close>.\<close>

definition read_bytes :: "bmem \<Rightarrow> usize \<Rightarrow> usize \<Rightarrow> nat \<Rightarrow> nat \<Rightarrow> usize option" where
  "read_bytes m address offset start n =
     for_each [0..<n] (\<lambda>i v. do {
       a \<leftarrow> uadd address offset;
       a \<leftarrow> uadd a (start + i);
       Some ((v * 256) mod usize_limit + unat (m a)) }) 0"

text \<open>The length bounds the cells, so that \<open>address_cells * 4 + i\<close>, the one addition that is not
  checked here, does not overflow.\<close>

definition read_reg_property :: "bmem \<Rightarrow> Dtb \<Rightarrow> DtbNode \<Rightarrow> usize \<Rightarrow> (usize \<times> usize) option option" where
  "read_reg_property m d node index = do {
     info \<leftarrow> get_property m d node PROP_REG;
     (case info of
        None \<Rightarrow> Some None
      | Some info \<Rightarrow> do {
          cells \<leftarrow> wadd (prop_address_cells info) (prop_size_cells info);
          entry \<leftarrow> umul (unat cells) 4;
          offset \<leftarrow> umul entry index;
          last \<leftarrow> uadd offset entry;
          if last > unat (prop_len info) then Some None
          else do {
            address_bytes \<leftarrow> wmul (prop_address_cells info) 4;
            address \<leftarrow> read_bytes m (prop_address info) offset 0 (unat address_bytes);
            size_bytes \<leftarrow> wmul (prop_size_cells info) 4;
            sz \<leftarrow> read_bytes m (prop_address info) offset (unat address_bytes) (unat size_bytes);
            Some (Some (address, sz)) } }) }"

text \<open>A cell is stored with \<open>to_be\<close>, most significant byte first.\<close>

definition store_be32 :: "usize \<Rightarrow> u32 \<Rightarrow> bmem \<Rightarrow> bmem" where
  "store_be32 a v m = put_bytes a (rev (le_bytes 4 (unat v))) m"

definition write_reg_size :: "bmem \<Rightarrow> Dtb \<Rightarrow> DtbNode \<Rightarrow> usize \<Rightarrow> usize \<Rightarrow> ((unit + unit) \<times> bmem) option" where
  "write_reg_size m d node index value = do {
     info \<leftarrow> get_property m d node PROP_REG;
     (case info of
        None \<Rightarrow> Some (Inl (), m)
      | Some info \<Rightarrow> do {
          cells \<leftarrow> wadd (prop_address_cells info) (prop_size_cells info);
          entry \<leftarrow> umul (unat cells) 4;
          x \<leftarrow> umul entry index;
          y \<leftarrow> umul (unat (prop_address_cells info)) 4;
          offset \<leftarrow> uadd x y;
          size_bytes \<leftarrow> umul (unat (prop_size_cells info)) 4;
          last \<leftarrow> uadd offset size_bytes;
          if last > unat (prop_len info) then Some (Inl (), m)
          else do {
            m \<leftarrow> for_each [0..<unat (prop_size_cells info)] (\<lambda>i m. do {
              let shift = (unat (prop_size_cells info) - 1 - i) * 32;
              let cell = (if shift \<ge> 64 then 0 else of_nat (value div 2 ^ shift) :: u32);
              a \<leftarrow> uadd (prop_address info) offset;
              a \<leftarrow> uadd a (i * 4);
              Some (store_be32 a cell m) }) m;
            Some (Inr (), m) } }) }"

definition read_property_as_u8_array :: "bmem \<Rightarrow> DtbProperty \<Rightarrow> u8 list" where
  "read_property_as_u8_array m info = get_bytes m (prop_address info) (unat (prop_len info))"

text \<open>The words as they are in memory: the callers convert them from big endian.\<close>

definition read_property_as_u32_array :: "bmem \<Rightarrow> DtbProperty \<Rightarrow> u32 list" where
  "read_property_as_u32_array m info =
     map (\<lambda>i. of_nat (load_le 4 m (prop_address info + 4 * i))) [0..<unat (prop_len info) div 4]"

definition read_property_as_u32 :: "bmem \<Rightarrow> DtbProperty \<Rightarrow> u32 option" where
  "read_property_as_u32 m info = (if unat (prop_len info) < 4 then None else Some (be32 m (prop_address info)))"

section \<open>Bus addresses\<close>

text \<open>The value of a cell-count property of a node, or a default.\<close>

definition cells_of :: "bmem \<Rightarrow> Dtb \<Rightarrow> DtbNode \<Rightarrow> u8 list \<Rightarrow> u32 \<Rightarrow> usize option" where
  "cells_of m d node property otherwise = do {
     p \<leftarrow> get_property m d node property;
     Some (unat (case Option.bind p (read_property_as_u32 m) of None \<Rightarrow> otherwise | Some v \<Rightarrow> v)) }"

text \<open>The caller has excluded entries of no cells.\<close>

function translate_loop ::
  "bmem \<Rightarrow> DtbProperty \<Rightarrow> usize \<Rightarrow> usize \<Rightarrow> usize \<Rightarrow> usize \<Rightarrow> usize \<Rightarrow> usize \<Rightarrow> usize option" where
  "translate_loop m ranges child_cells parent_cells size_cells entry_bytes addr offset = do {
     e \<leftarrow> uadd offset entry_bytes;
     if e \<le> unat (prop_len ranges) \<and> 0 < entry_bytes then do {
       child_bytes \<leftarrow> umul child_cells 4;
       child_base \<leftarrow> read_bytes m (prop_address ranges) offset 0 child_bytes;
       parent_offset \<leftarrow> uadd offset child_bytes;
       parent_bytes \<leftarrow> umul parent_cells 4;
       parent_base \<leftarrow> read_bytes m (prop_address ranges) parent_offset 0 parent_bytes;
       x \<leftarrow> uadd child_cells parent_cells;
       x \<leftarrow> umul x 4;
       size_offset \<leftarrow> uadd offset x;
       size_bytes \<leftarrow> umul size_cells 4;
       range_size \<leftarrow> read_bytes m (prop_address ranges) size_offset 0 size_bytes;
       inside \<leftarrow> (if addr \<ge> child_base then map_option (\<lambda>e. addr < e) (uadd child_base range_size) else Some False);
       if inside then uadd parent_base (addr - child_base)
       else translate_loop m ranges child_cells parent_cells size_cells entry_bytes addr e }
     else Some addr }"
  by pat_completeness auto
termination
  by (relation "measure (\<lambda>(m, r, c, p, s, b, a, off). usize_limit - off)") (auto dest!: uadd_SomeD)

declare translate_loop.simps [simp del]

definition translate_soc_address :: "bmem \<Rightarrow> Dtb \<Rightarrow> usize \<Rightarrow> usize option" where
  "translate_soc_address m d addr = do {
     soc \<leftarrow> search_node m d NODE_SOC None;
     (case soc of
        None \<Rightarrow> Some addr
      | Some soc \<Rightarrow> do {
          ranges \<leftarrow> get_property m d soc PROP_RANGES;
          (case ranges of
             None \<Rightarrow> Some addr
           | Some ranges \<Rightarrow> do {
               child_cells \<leftarrow> cells_of m d soc PROP_ADDRESS_CELLS DEFAULT_ADDRESS_CELLS;
               let parent_cells = unat (node_address_cells soc);
               size_cells \<leftarrow> cells_of m d soc PROP_SIZE_CELLS DEFAULT_SIZE_CELLS;
               x \<leftarrow> uadd child_cells parent_cells;
               entry_cells \<leftarrow> uadd x size_cells;
               if entry_cells = 0 then Some addr
               else do {
                 entry_bytes \<leftarrow> umul entry_cells 4;
                 translate_loop m ranges child_cells parent_cells size_cells entry_bytes addr 0 } }) }) }"

end
