(* ===== verification/Dtb_Tree.thy ===== *)
theory Dtb_Tree
  imports Dtb
begin

text \<open>
  The device tree parser against trees: a tree, its encoding as a blob, and what the
  searches of \<^verbatim>\<open>dtb.rs\<close> find in it.
\<close>

section \<open>Trees and their encoding\<close>

datatype dt_item = Nop | Property u32 "u8 list" | Node "u8 list" "dt_item list"

definition align :: "usize \<Rightarrow> usize" where
  "align p = (p + 3) div 4 * 4"

definition padded :: "u8 list \<Rightarrow> u8 list" where
  "padded bs = bs @ replicate (align (length bs) - length bs) 0"

definition be_bytes :: "nat \<Rightarrow> nat \<Rightarrow> u8 list" where
  "be_bytes n v = rev (le_bytes n v)"

fun enc :: "dt_item \<Rightarrow> u8 list" where
  "enc Nop = FDT_NOP"
| "enc (Property s v) = FDT_PROP @ be_bytes 4 (length v) @ be_bytes 4 (unat s) @ padded v"
| "enc (Node n items) = FDT_BEGIN_NODE @ padded (n @ [0]) @ concat (map enc items) @ FDT_END_NODE"

definition stored :: "bmem \<Rightarrow> usize \<Rightarrow> u8 list \<Rightarrow> bool" where
  "stored m p bs \<longleftrightarrow> get_bytes m p (length bs) = bs"

lemma get_bytes_add: "get_bytes m p (i + j) = get_bytes m p i @ get_bytes m (p + i) j"
  by (rule nth_equalityI) (auto simp: nth_append)

lemma stored_append [simp]: "stored m p (xs @ ys) \<longleftrightarrow> stored m p xs \<and> stored m (p + length xs) ys"
  by (simp add: stored_def get_bytes_add)

lemma stored_Cons: "stored m p (x # xs) \<longleftrightarrow> m p = x \<and> stored m (p + 1) xs"
  using stored_append [of m p "[x]" xs] by (simp add: stored_def get_bytes_def)

lemma stored_Nil [simp]: "stored m p []"
  by (simp add: stored_def get_bytes_def)

lemma token_length [simp]:
  "length FDT_NOP = 4" "length FDT_PROP = 4" "length FDT_BEGIN_NODE = 4" "length FDT_END_NODE = 4" "length FDT_END = 4"
  by (simp_all add: FDT_NOP_def FDT_PROP_def FDT_BEGIN_NODE_def FDT_END_NODE_def FDT_END_def)

lemma token_neq [simp]:
  "FDT_NOP \<noteq> FDT_PROP" "FDT_NOP \<noteq> FDT_BEGIN_NODE" "FDT_NOP \<noteq> FDT_END_NODE" "FDT_NOP \<noteq> FDT_END"
  "FDT_PROP \<noteq> FDT_NOP" "FDT_PROP \<noteq> FDT_BEGIN_NODE" "FDT_PROP \<noteq> FDT_END_NODE"
  "FDT_PROP \<noteq> FDT_END" "FDT_BEGIN_NODE \<noteq> FDT_NOP" "FDT_BEGIN_NODE \<noteq> FDT_PROP"
  "FDT_BEGIN_NODE \<noteq> FDT_END_NODE" "FDT_BEGIN_NODE \<noteq> FDT_END" "FDT_END_NODE \<noteq> FDT_NOP"
  "FDT_END_NODE \<noteq> FDT_PROP" "FDT_END_NODE \<noteq> FDT_BEGIN_NODE" "FDT_END_NODE \<noteq> FDT_END"
  "FDT_END \<noteq> FDT_NOP" "FDT_END \<noteq> FDT_PROP" "FDT_END \<noteq> FDT_BEGIN_NODE" "FDT_END \<noteq> FDT_END_NODE"
  by (simp_all add: FDT_NOP_def FDT_PROP_def FDT_BEGIN_NODE_def FDT_END_NODE_def FDT_END_def)

lemma length_be_bytes [simp]: "length (be_bytes n v) = n"
  by (simp add: be_bytes_def)

lemma be_nat_be_bytes [simp]: "be_nat (be_bytes n v) = v mod 256 ^ n"
  by (simp add: be_nat_def be_bytes_def le_nat_le_bytes)

lemma skip_padding_align:
  assumes "0 < p" "align p < usize_limit"
  shows "skip_padding p = Some (align p)"
proof -
  have "p \<le> align p" unfolding align_def by presburger
  then have "clear_low (p - 1) 4 = (p - 1) div 4 * 4" using assms by (intro clear_low_4) simp
  also have "\<dots> = align p - 4" using assms(1) unfolding align_def by presburger
  finally have c: "clear_low (p - 1) 4 = align p - 4" .
  have "4 \<le> align p" using assms(1) unfolding align_def by presburger
  then show ?thesis using assms unfolding skip_padding_def usub_def by (simp add: c [simplified] uadd_def)
qed

lemma align_add: "4 dvd p \<Longrightarrow> align (p + n) = p + align n"
  unfolding align_def by presburger

lemma align_le: "n \<le> align n"
  unfolding align_def by presburger

lemma length_padded: "length (padded bs) = align (length bs)"
  using align_le [of "length bs"] by (simp add: padded_def)

lemma align_dvd [simp]: "4 dvd align n"
  by (simp add: align_def)

lemma sum_list_dvd: "(\<And>x. x \<in> set xs \<Longrightarrow> k dvd x) \<Longrightarrow> k dvd sum_list (xs :: nat list)"
  by (induction xs) simp_all

lemma length_enc_dvd [simp]: "4 dvd length (enc x)"
proof (induction x)
  case (Node n items)
  then have "4 dvd length (concat (map enc items))"
    unfolding length_concat by (intro sum_list_dvd) auto
  then show ?case by (simp add: length_padded)
qed (simp_all add: length_padded)

section \<open>Strings\<close>

definition name_ok :: "u8 list \<Rightarrow> bool" where
  "name_ok s \<longleftrightarrow> 0 \<notin> set s"

lemma stored_drop: "stored m p xs \<Longrightarrow> i \<le> length xs \<Longrightarrow> stored m (p + i) (drop i xs)"
  using stored_append [of m p "take i xs" "drop i xs"] by simp

lemma stored_nth: "stored m p xs \<Longrightarrow> i < length xs \<Longrightarrow> m (p + i) = xs ! i"
  unfolding stored_def by (metis nth_get_bytes)

lemma skip_string_stored:
  "stored m p (s @ [0]) \<Longrightarrow> name_ok s \<Longrightarrow> p + length s < usize_limit \<Longrightarrow> skip_string m p = Some (p + length s)"
  by (induction s arbitrary: p; subst skip_string.simps) (auto simp: stored_Cons uadd_def name_ok_def)

lemma compare_bytes_stored:
  assumes "stored m p (s @ [0])" "name_ok s" "name_ok n" "p + length s < usize_limit"
  shows "\<exists>i \<le> length s. compare_bytes m n p = Some (take (length n) s = n, p + i) \<and> (take (length n) s = n \<longrightarrow> i = length n)"
  using assms
proof (induction n arbitrary: p s)
  case (Cons c n)
  show ?case
  proof (cases s)
    case Nil
    then show ?thesis using Cons.prems by (auto simp: stored_Cons name_ok_def)
  next
    case s: (Cons x xs)
    show ?thesis
    proof (cases "c = x")
      case True
      have "stored m (p + 1) (xs @ [0])" "name_ok xs" "name_ok n" "p + 1 + length xs < usize_limit"
        using Cons.prems s by (auto simp: stored_Cons name_ok_def)
      from Cons.IH [OF this] obtain i where i: "i \<le> length xs"
        "compare_bytes m n (p + 1) = Some (take (length n) xs = n, p + 1 + i)" "take (length n) xs = n \<longrightarrow> i = length n" by blast
      have "uadd p 1 = Some (p + 1)" using Cons.prems(4) s by (simp add: uadd_def)
      then show ?thesis using True s Cons.prems(1) i by (intro exI [of _ "Suc i"]) (auto simp: stored_Cons)
    next
      case False
      then show ?thesis using s Cons.prems(1) by (intro exI [of _ 0]) (auto simp: stored_Cons)
    qed
  qed
qed auto

text \<open>A node is found under its name, with or without the unit address after the \<open>@\<close>.\<close>

definition name_matches :: "u8 list \<Rightarrow> u8 list \<Rightarrow> bool" where
  "name_matches n s \<longleftrightarrow> s = n \<or> take (length n + 1) s = n @ [64]"

lemma hit_iff:
  assumes "stored m p (s @ [0])" "name_ok s" "take (length n) s = n"
  shows "m (p + length n) \<in> set [64, 0] \<longleftrightarrow> name_matches n s" "m (p + length n) = 0 \<longleftrightarrow> s = n"
proof -
  obtain t where t: "s = n @ t" using assms(3) by (metis append_take_drop_id)
  have "stored m (p + length n) (t @ [0])" using assms(1) t by simp
  then show "m (p + length n) \<in> set [64, 0] \<longleftrightarrow> name_matches n s" "m (p + length n) = 0 \<longleftrightarrow> s = n"
    using assms(2) t by (cases t; auto simp: stored_Cons name_ok_def name_matches_def)+
qed

lemma name_matches_prefix: "name_matches n s \<Longrightarrow> take (length n) s = n"
  unfolding name_matches_def by (metis append_eq_conv_conj order_refl take_all take_take min.absorb1 le_add1)

lemma uadd_Some: "a + b < usize_limit \<Longrightarrow> uadd a b = Some (a + b)"
  by (simp add: uadd_def)

lemma skip_name_stored:
  assumes "stored m p (s @ [0])" "name_ok s" "align (p + length s + 1) < usize_limit" "i \<le> length s"
  shows "skip_name m (p + i) = Some (align (p + length s + 1))"
proof -
  have "stored m (p + i) (drop i s @ [0])" using stored_drop [OF assms(1), of i] assms(4) by simp
  moreover have "name_ok (drop i s)" using assms(2) by (auto simp: name_ok_def dest: in_set_dropD)
  moreover have l: "p + length s + 1 < usize_limit" using align_le [of "p + length s + 1"] assms(3) by linarith
  ultimately have "skip_string m (p + i) = Some (p + length s)"
    using skip_string_stored [of m "p + i" "drop i s"] assms(4) by simp
  then show ?thesis using l assms(3) by (simp add: skip_name_def uadd_def skip_padding_align [simplified])
qed

lemma compare_string_stored:
  assumes "stored m p (padded (s @ [0]))" "name_ok s" "name_ok n" "4 dvd p" "p + length (padded (s @ [0])) < usize_limit"
  shows "compare_string m p n [64] = Some (Inr (name_matches n s, p + length (padded (s @ [0]))))"
proof -
  have st: "stored m p (s @ [0])" using assms(1) by (simp add: padded_def stored_Cons)
  have al: "align (p + length s + 1) = p + length (padded (s @ [0]))"
    using align_add [OF assms(4), of "length s + 1"] by (simp add: length_padded add.assoc)
  then have lt: "align (p + length s + 1) < usize_limit" using assms(5) by simp
  have l: "p + length s < usize_limit" using align_le [of "p + length s + 1"] lt by linarith
  obtain i where i: "i \<le> length s" "compare_bytes m n p = Some (take (length n) s = n, p + i)" "take (length n) s = n \<longrightarrow> i = length n"
    using compare_bytes_stored [OF st assms(2,3) l] by blast
  have h: "(take (length n) s = n \<and> m (p + i) \<in> set ([64] @ [0])) = name_matches n s"
    using hit_iff(1) [OF st assms(2), of n] i(3) name_matches_prefix [of n s] by auto
  show ?thesis unfolding compare_string_def i(2) Let_def
    using h skip_name_stored [OF st assms(2) lt i(1), unfolded al] by simp
qed

section \<open>Well-formed blobs\<close>

text \<open>\<open>names\<close> gives the property name at an offset of the strings block.\<close>

definition prop_name_ok :: "bmem \<Rightarrow> Dtb \<Rightarrow> (u32 \<Rightarrow> u8 list) \<Rightarrow> u32 \<Rightarrow> bool" where
  "prop_name_ok m d names s \<longleftrightarrow> name_ok (names s) \<and> unat s < get_string_size m d \<and>
     (case get_string_offset m d of
        None \<Rightarrow> False
      | Some t \<Rightarrow> t + unat s + length (names s) < usize_limit \<and> stored m (t + unat s) (names s @ [0]))"

fun item_ok :: "bmem \<Rightarrow> Dtb \<Rightarrow> (u32 \<Rightarrow> u8 list) \<Rightarrow> dt_item \<Rightarrow> bool" where
  "item_ok m d names Nop \<longleftrightarrow> True"
| "item_ok m d names (Property s v) \<longleftrightarrow> prop_name_ok m d names s \<and> length v < 2 ^ 32 \<and>
     (names s \<in> {PROP_ADDRESS_CELLS, PROP_SIZE_CELLS} \<longrightarrow> 4 \<le> length v)"
| "item_ok m d names (Node n items) \<longleftrightarrow> name_ok n \<and> (\<forall>x \<in> set items. item_ok m d names x)"

lemma compare_name_segment_stored:
  assumes "prop_name_ok m d names s" "name_ok n"
  shows "compare_name_segment m d s n [] = Some (Inr (names s = n))"
proof -
  obtain t where t: "get_string_offset m d = Some t" "t + unat s + length (names s) < usize_limit"
    "stored m (t + unat s) (names s @ [0])" and k: "name_ok (names s)" "unat s < get_string_size m d"
    using assms(1) by (auto simp: prop_name_ok_def split: option.splits)
  obtain i where i: "compare_bytes m n (t + unat s) = Some (take (length n) (names s) = n, t + unat s + i)"
    "take (length n) (names s) = n \<longrightarrow> i = length n"
    using compare_bytes_stored [OF t(3) k(1) assms(2) t(2)] by blast
  have "(take (length n) (names s) = n \<and> m (t + unat s + i) = 0) = (names s = n)"
    using hit_iff(2) [OF t(3) k(1), of n] i(2) by auto
  then show ?thesis using t(1,2) k(2) i(1) by (simp add: compare_name_segment_def uadd_def)
qed

text \<open>The cell counts after a property.\<close>

definition cells_after :: "(u32 \<Rightarrow> u8 list) \<Rightarrow> u32 \<Rightarrow> u8 list \<Rightarrow> u32 \<times> u32 \<Rightarrow> u32 \<times> u32" where
  "cells_after names s v c =
     (if names s = PROP_ADDRESS_CELLS then (of_nat (be_nat (take 4 v)), snd c)
      else if names s = PROP_SIZE_CELLS then (fst c, of_nat (be_nat (take 4 v))) else c)"

lemma prop_names_ok [simp]: "name_ok PROP_ADDRESS_CELLS" "name_ok PROP_SIZE_CELLS" "name_ok PROP_REG" "name_ok PROP_STATUS"
  "name_ok PROP_COMPATIBLE" "name_ok PROP_RANGES" "name_ok NODE_SOC"
  by (simp_all add: name_ok_def PROP_ADDRESS_CELLS_def PROP_SIZE_CELLS_def PROP_REG_def PROP_STATUS_def PROP_COMPATIBLE_def
      PROP_RANGES_def NODE_SOC_def)

lemma read_node_stored: "struct_end m d = Some e \<Longrightarrow> stored m p t \<Longrightarrow> length t = 4 \<Longrightarrow> p < e \<Longrightarrow> read_node m d p = Some (Inr t)"
  by (simp add: read_node_def stored_def)

lemma read_u32_stored:
  "struct_end m d = Some e \<Longrightarrow> stored m p t \<Longrightarrow> length t = 4 \<Longrightarrow> p < e \<Longrightarrow> read_u32 m d p = Some (Inr (of_nat (be_nat t)))"
  by (simp add: read_u32_def read_node_stored)

lemma enter_property_stored:
  assumes e: "struct_end m d = Some e" and st: "stored m p (enc (Property s v))" and ok: "item_ok m d names (Property s v)"
    and le: "p + length (enc (Property s v)) \<le> e" "e < usize_limit"
  shows "enter_property m d p ac sc =
    Some (Inr (of_nat (length v), s, p + 12, cells_after names s v (ac, sc)))"
proof -
  have al: "length v \<le> align (length v)" by (rule align_le)
  have p: "p + 12 + align (length v) \<le> e" using le(1) by (simp add: length_padded)
  have st': "stored m (p + 4) (be_bytes 4 (length v))" "stored m (p + 8) (be_bytes 4 (unat s))" "stored m (p + 12) v"
    using st by (simp_all add: padded_def add.assoc)
  have u: "unat s < 4294967296" using unsigned_less [of s] by simp
  have len: "read_u32 m d (p + 4) = Some (Inr (of_nat (length v)))"
    using read_u32_stored [OF e st'(1)] p ok by simp
  have seg: "read_u32 m d (p + 8) = Some (Inr s)"
    using read_u32_stored [OF e st'(2)] p u by simp
  have val: "read_u32 m d (p + 12) = Some (Inr (of_nat (be_nat (take 4 v))))" if "4 \<le> length v"
    using read_u32_stored [OF e, of "p + 12" "take 4 v"] st'(3) p al that stored_append [of m "p + 12" "take 4 v" "drop 4 v"] by simp
  have "check_address_and_size_cells m d s (p + 12) ac sc = Some (Inr (cells_after names s v (ac, sc)))"
    using ok val by (auto simp: check_address_and_size_cells_def compare_name_segment_stored cells_after_def)
  moreover have "uadd p 4 = Some (p + 4)" "uadd (p + 4) 4 = Some (p + 8)" "uadd (p + 8) 4 = Some (p + 12)"
    using p le(2) by (simp_all add: uadd_def)
  ultimately show ?thesis using len seg by (simp add: enter_property_def split: prod.split)
qed

section \<open>The rounds of the loops\<close>

lemma skip_nop_nop: "struct_end m d = Some e \<Longrightarrow> stored m p FDT_NOP \<Longrightarrow> p + 4 \<le> e \<Longrightarrow> e < usize_limit \<Longrightarrow> skip_nop m d p = skip_nop m d (p + 4)"
  by (subst skip_nop.simps) (simp add: read_node_stored uadd_def)

lemma skip_nop_token: "read_node m d p = Some (Inr t) \<Longrightarrow> t \<noteq> FDT_NOP \<Longrightarrow> skip_nop m d p = Some (Inr p)"
  by (subst skip_nop.simps) simp

lemma align_self: "4 dvd p \<Longrightarrow> align p = p"
  unfolding align_def by presburger

lemma skip_padding_self: "4 dvd p \<Longrightarrow> 0 < p \<Longrightarrow> p < usize_limit \<Longrightarrow> skip_padding p = Some p"
  using skip_padding_align [of p] by (simp add: align_self)

text \<open>An item of a blob, at the pointer \<open>q\<close> of a loop: \<open>skip_padding\<close> leads to its first byte.\<close>

definition at_item :: "bmem \<Rightarrow> Dtb \<Rightarrow> usize \<Rightarrow> usize \<Rightarrow> u8 list \<Rightarrow> bool" where
  "at_item m d q p bs \<longleftrightarrow> skip_padding q = Some p \<and> stored m p bs \<and> 4 dvd p \<and> 0 < p \<and>
     (case struct_end m d of None \<Rightarrow> False | Some e \<Rightarrow> p + length bs \<le> e \<and> e < usize_limit)"

lemma at_itemE:
  assumes "at_item m d q p bs"
  obtains e where "skip_padding q = Some p" "stored m p bs" "4 dvd p" "0 < p" "struct_end m d = Some e" "p + length bs \<le> e" "e < usize_limit"
  using assms by (auto simp: at_item_def split: option.splits)

lemma at_item_append: "at_item m d q p (xs @ ys) \<Longrightarrow> at_item m d q p xs"
  by (auto simp: at_item_def split: option.splits)

lemma at_item_later:
  "at_item m d q p (xs @ ys) \<Longrightarrow> 4 dvd length xs \<Longrightarrow> at_item m d (p + length xs) (p + length xs) ys"
  by (auto simp: at_item_def skip_padding_self split: option.splits)

lemma at_item_token:
  assumes "at_item m d q p (t @ bs)" "length t = 4" "t \<noteq> FDT_NOP"
  shows "skip_padding q = Some p" "skip_nop m d p = Some (Inr p)" "read_node m d p = Some (Inr t)"
proof -
  show r: "read_node m d p = Some (Inr t)" and "skip_padding q = Some p" using assms by (auto elim!: at_itemE simp: read_node_stored)
  show "skip_nop m d p = Some (Inr p)" by (rule skip_nop_token [OF r assms(3)])
qed

lemma at_item_nop:
  assumes "at_item m d q p (FDT_NOP @ bs)" "0 < length bs"
  shows "skip_padding q = Some p" "skip_nop m d p = skip_nop m d (p + 4)" "skip_padding (p + 4) = Some (p + 4)"
  using assms by (auto elim!: at_itemE simp: skip_nop_nop intro!: skip_padding_self)

lemma at_item_property:
  assumes "at_item m d q p (enc (Property s v) @ bs)" "item_ok m d names (Property s v)"
  shows "enter_property m d p ac sc = Some (Inr (of_nat (length v), s, p + 12, cells_after names s v (ac, sc)))"
    "uadd (p + 12) (length v) = Some (p + 12 + length v)" "unat (of_nat (length v) :: u32) = length v"
    "at_item m d (p + 12 + length v) (p + length (enc (Property s v))) bs"
proof -
  obtain e where e: "stored m p (enc (Property s v) @ bs)" "4 dvd p" "0 < p" "struct_end m d = Some e"
    "p + length (enc (Property s v) @ bs) \<le> e" "e < usize_limit" using assms(1) by (rule at_itemE)
  have st: "stored m p (enc (Property s v))" "stored m (p + length (enc (Property s v))) bs" using e(1) unfolding stored_append by blast+
  have p: "p + length (enc (Property s v)) \<le> e" using e(5) by simp
  have l: "p + length (enc (Property s v)) = align (p + 12 + length v)"
    using align_add [of "p + 12" "length v"] e(2) by (simp add: length_padded)
  show "enter_property m d p ac sc = Some (Inr (of_nat (length v), s, p + 12, cells_after names s v (ac, sc)))"
    by (rule enter_property_stored [OF e(4) st(1) assms(2) p e(6)])
  show "uadd (p + 12) (length v) = Some (p + 12 + length v)"
    using align_le [of "p + 12 + length v"] p l e(6) by (intro uadd_Some) linarith
  show "unat (of_nat (length v) :: u32) = length v" using assms(2) by (simp add: unat_of_nat)
  have "skip_padding (p + 12 + length v) = Some (p + length (enc (Property s v)))"
    unfolding l by (rule skip_padding_align) (use p l e(3,6) in linarith)+
  then show "at_item m d (p + 12 + length v) (p + length (enc (Property s v))) bs"
    using st(2) e(2-6) length_enc_dvd [of "Property s v"] unfolding at_item_def by (auto simp del: length_enc_dvd)
qed

lemma search_loop_nop: "at_item m d q p (enc Nop @ bs) \<Longrightarrow> 0 < length bs \<Longrightarrow> search_loop m d n q ac sc = search_loop m d n (p + 4) ac sc"
  by (subst (1 2) search_loop.simps) (simp add: at_item_nop)

lemma search_loop_property:
  assumes "at_item m d q p (enc (Property s v) @ bs)" "item_ok m d names (Property s v)"
  shows "search_loop m d n q ac sc =
    search_loop m d n (p + 12 + length v) (fst (cells_after names s v (ac, sc))) (snd (cells_after names s v (ac, sc)))"
proof -
  have t: "at_item m d q p (FDT_PROP @ be_bytes 4 (length v) @ be_bytes 4 (unat s) @ padded v @ bs)" using assms(1) by simp
  show ?thesis
    by (subst search_loop.simps) (simp add: at_item_token [OF t] at_item_property [OF assms] split: prod.split)
qed

lemma search_loop_end: "at_item m d q p FDT_END_NODE \<Longrightarrow> search_loop m d n q ac sc = Some (Inr (None, p + 4))"
  by (subst search_loop.simps) (auto simp: at_item_token [of m d q p FDT_END_NODE "[]"] uadd_def elim!: at_itemE)

lemma search_enter_stored:
  assumes "at_item m d q p (enc (Node s items) @ bs)" "name_ok s" "name_ok n"
  shows "search_enter m d n p = Some (Inr (name_matches n s, p + 4 + length (padded (s @ [0]))))"
proof -
  have t: "at_item m d q p (FDT_BEGIN_NODE @ padded (s @ [0]) @ concat (map enc items) @ FDT_END_NODE @ bs)" using assms(1) by simp
  from t have "stored m (p + 4) (padded (s @ [0]))" "4 dvd p + 4" "p + 4 + length (padded (s @ [0])) < usize_limit"
    by (auto elim!: at_itemE)
  from compare_string_stored [OF this(1) assms(2,3) this(2,3)] this(3) show ?thesis
    by (simp add: search_enter_def at_item_token [OF t] uadd_def)
qed

lemma at_item_children:
  assumes "at_item m d q p (enc (Node s items) @ bs)"
  defines "p' \<equiv> p + 4 + length (padded (s @ [0]))"
  shows "at_item m d p' p' (concat (map enc items) @ FDT_END_NODE)"
    "at_item m d (p + length (enc (Node s items))) (p + length (enc (Node s items))) bs"
    "p + length (enc (Node s items)) = p' + length (concat (map enc items)) + 4"
proof -
  have "at_item m d q p ((FDT_BEGIN_NODE @ padded (s @ [0])) @ (concat (map enc items) @ FDT_END_NODE) @ bs)" using assms(1) by simp
  from at_item_append [OF at_item_later [OF this]] show "at_item m d p' p' (concat (map enc items) @ FDT_END_NODE)"
    by (simp add: p'_def length_padded add.assoc)
  show "at_item m d (p + length (enc (Node s items))) (p + length (enc (Node s items))) bs"
    by (rule at_item_later [OF assms(1)]) (rule length_enc_dvd)
  show "p + length (enc (Node s items)) = p' + length (concat (map enc items)) + 4" by (simp add: p'_def)
qed

lemma search_loop_node:
  assumes "at_item m d q p (enc (Node s items) @ bs)" "name_ok s" "name_ok n"
  defines "p' \<equiv> p + 4 + length (padded (s @ [0]))"
  shows "search_loop m d n q ac sc =
    (if name_matches n s then Some (Inr (Some \<lparr>node_address = p', node_address_cells = ac, node_size_cells = sc\<rparr>, p'))
     else try_result (search_loop m d n p' ac sc) (\<lambda>r. if fst r \<noteq> None then Some (Inr r) else search_loop m d n (snd r) ac sc))"
proof -
  have t: "at_item m d q p (FDT_BEGIN_NODE @ padded (s @ [0]) @ concat (map enc items) @ FDT_END_NODE @ bs)" using assms(1) by simp
  show ?thesis
    by (subst search_loop.simps) (simp add: at_item_token [OF t] search_enter_stored [OF assms(1-3)] p'_def)
qed

section \<open>Searching by name\<close>

text \<open>The nodes of a list of items in the order of the blob, each with its name, what the parser
  calls it and its items; \<open>p\<close> is the address of the items and \<open>c\<close> the cell counts.\<close>

fun nodes_of :: "(u32 \<Rightarrow> u8 list) \<Rightarrow> usize \<Rightarrow> u32 \<times> u32 \<Rightarrow> dt_item list \<Rightarrow> (u8 list \<times> DtbNode \<times> dt_item list) list" where
  "nodes_of names p c [] = []"
| "nodes_of names p c (Nop # items) = nodes_of names (p + 4) c items"
| "nodes_of names p c (Property s v # items) =
     nodes_of names (p + length (enc (Property s v))) (cells_after names s v c) items"
| "nodes_of names p c (Node s sub # items) =
     (let p' = p + 4 + length (padded (s @ [0]))
      in (s, \<lparr>node_address = p', node_address_cells = fst c, node_size_cells = snd c\<rparr>, sub) #
         nodes_of names p' c sub @ nodes_of names (p + length (enc (Node s sub))) c items)"

definition first_node :: "(u8 list \<times> DtbNode \<times> dt_item list \<Rightarrow> bool) \<Rightarrow> (u8 list \<times> DtbNode \<times> dt_item list) list \<Rightarrow> DtbNode option" where
  "first_node P xs = map_option (\<lambda>x. fst (snd x)) (find P xs)"

lemma first_node_simps [simp]:
  "first_node P [] = None"
  "first_node P ((s, x, items) # xs) = (if P (s, x, items) then Some x else first_node P xs)"
  "first_node P (xs @ ys) = (case first_node P xs of None \<Rightarrow> first_node P ys | Some x \<Rightarrow> Some x)"
  by (induction xs) (auto simp: first_node_def)

text \<open>The search of a list of items ended with this node, or at the end of the items.\<close>

definition finds :: "(unit + DtbNode option \<times> usize) option \<Rightarrow> DtbNode option \<Rightarrow> usize \<Rightarrow> bool" where
  "finds r x e \<longleftrightarrow> (case x of None \<Rightarrow> r = Some (Inr (None, e)) | Some y \<Rightarrow> \<exists>q. r = Some (Inr (Some y, q)))"

lemma finds_simps: "finds r None e \<longleftrightarrow> r = Some (Inr (None, e))" "finds r (Some y) e \<longleftrightarrow> (\<exists>q. r = Some (Inr (Some y, q)))"
  by (simp_all add: finds_def)

lemma finds_then:
  assumes "finds r x e" "finds r' x' e'" "r' = f (None, e)"
  shows "finds (try_result r (\<lambda>r. if fst r \<noteq> None then Some (Inr r) else f r)) (case x of None \<Rightarrow> x' | Some y \<Rightarrow> Some y) e'"
  using assms by (cases x) (auto simp: finds_simps)

lemma search_loop_items:
  assumes "at_item m d q p (concat (map enc items) @ FDT_END_NODE)" "\<forall>x \<in> set items. item_ok m d names x" "name_ok n"
  shows "finds (search_loop m d n q (fst c) (snd c)) (first_node (\<lambda>x. name_matches n (fst x)) (nodes_of names p c items))
    (p + length (concat (map enc items)) + 4)"
  using assms
proof (induction names p c items arbitrary: q rule: nodes_of.induct)
  case (1 names p c)
  then show ?case by (simp add: search_loop_end finds_simps)
next
  case (2 names p c items)
  have a: "at_item m d q p (enc Nop @ concat (map enc items) @ FDT_END_NODE)" using "2.prems"(1) by simp
  have "at_item m d (p + 4) (p + 4) (concat (map enc items) @ FDT_END_NODE)" using at_item_later [OF a] by simp
  from "2.IH" [OF this] "2.prems"(2,3) show ?case by (simp add: search_loop_nop [OF a] add.assoc)
next
  case (3 names p c s v items)
  have a: "at_item m d q p (enc (Property s v) @ concat (map enc items) @ FDT_END_NODE)" using "3.prems"(1) by simp
  have ok: "item_ok m d names (Property s v)" "\<forall>x \<in> set items. item_ok m d names x" using "3.prems"(2) by simp_all
  from "3.IH" [OF at_item_property(4) [OF a ok(1)] ok(2) "3.prems"(3)] show ?case
    by (simp add: search_loop_property [OF a ok(1)] add.assoc)
next
  case (4 names p c s sub items)
  define p' where "p' = p + 4 + length (padded (s @ [0]))"
  have a: "at_item m d q p (enc (Node s sub) @ concat (map enc items) @ FDT_END_NODE)" using "4.prems"(1) by simp
  have ok: "name_ok s" "\<forall>x \<in> set sub. item_ok m d names x" "\<forall>x \<in> set items. item_ok m d names x" using "4.prems"(2) by auto
  note ch = at_item_children [OF a, folded p'_def]
  have n: "nodes_of names p c (Node s sub # items) = (s, \<lparr>node_address = p', node_address_cells = fst c, node_size_cells = snd c\<rparr>, sub) #
      nodes_of names p' c sub @ nodes_of names (p + length (enc (Node s sub))) c items"
    by (simp add: Let_def p'_def del: enc.simps)
  have e: "p + length (concat (map enc (Node s sub # items))) + 4 = p + length (enc (Node s sub)) + length (concat (map enc items)) + 4"
    by simp
  have "finds (try_result (search_loop m d n p' (fst c) (snd c)) (\<lambda>r. if fst r \<noteq> None then Some (Inr r) else search_loop m d n (snd r) (fst c) (snd c)))
    (case first_node (\<lambda>x. name_matches n (fst x)) (nodes_of names p' c sub) of
       None \<Rightarrow> first_node (\<lambda>x. name_matches n (fst x)) (nodes_of names (p + length (enc (Node s sub))) c items) | Some y \<Rightarrow> Some y)
    (p + length (enc (Node s sub)) + length (concat (map enc items)) + 4)"
    by (rule finds_then [OF "4.IH"(1) [OF p'_def ch(1) ok(2) "4.prems"(3)] "4.IH"(2) [OF p'_def ch(2) ok(3) "4.prems"(3)]])
      (simp only: ch(3) snd_conv)
  then show ?case unfolding n e search_loop_node [OF a ok(1) "4.prems"(3), folded p'_def]
    by (simp add: finds_simps del: enc.simps)
qed

text \<open>A blob whose structure block holds one tree and the end token.\<close>

definition blob :: "bmem \<Rightarrow> Dtb \<Rightarrow> (u32 \<Rightarrow> u8 list) \<Rightarrow> dt_item \<Rightarrow> bool" where
  "blob m d names root \<longleftrightarrow> item_ok m d names root \<and>
     (case (root, get_struct_offset m d) of
        (Node s items, Some p) \<Rightarrow> at_item m d p p (enc root @ FDT_END) \<and> struct_end m d = Some (p + length (enc root) + 4)
      | _ \<Rightarrow> False)"

definition tree_nodes :: "bmem \<Rightarrow> Dtb \<Rightarrow> (u32 \<Rightarrow> u8 list) \<Rightarrow> dt_item \<Rightarrow> (u8 list \<times> DtbNode \<times> dt_item list) list" where
  "tree_nodes m d names root =
     (case get_struct_offset m d of
        None \<Rightarrow> [] | Some p \<Rightarrow> nodes_of names p (DEFAULT_ADDRESS_CELLS, DEFAULT_SIZE_CELLS) [root])"

lemma blobE:
  assumes "blob m d names root"
  obtains s items p p' where "root = Node s items" "get_struct_offset m d = Some p" "at_item m d p p (enc (Node s items) @ FDT_END)"
    "struct_end m d = Some (p + length (enc (Node s items)) + 4)" "name_ok s" "\<forall>x \<in> set items. item_ok m d names x"
    "p' = p + 4 + length (padded (s @ [0]))" "at_item m d p' p' (concat (map enc items) @ FDT_END_NODE)"
    "p + length (enc (Node s items)) = p' + length (concat (map enc items)) + 4"
    "tree_nodes m d names root = (s, \<lparr>node_address = p', node_address_cells = DEFAULT_ADDRESS_CELLS, node_size_cells = DEFAULT_SIZE_CELLS\<rparr>, items) #
      nodes_of names p' (DEFAULT_ADDRESS_CELLS, DEFAULT_SIZE_CELLS) items"
proof (cases root)
  case (Node s items)
  with assms obtain p where p: "get_struct_offset m d = Some p" "at_item m d p p (enc (Node s items) @ FDT_END)"
    "struct_end m d = Some (p + length (enc (Node s items)) + 4)" "name_ok s" "\<forall>x \<in> set items. item_ok m d names x"
    by (auto simp: blob_def split: option.splits simp del: enc.simps)
  show thesis
    by (rule that [OF Node p refl at_item_children(1,3) [OF p(2)]])
      (simp add: tree_nodes_def p(1) Node Let_def)
qed (use assms in \<open>auto simp: blob_def\<close>)

lemma read_node_end: "struct_end m d = Some e \<Longrightarrow> read_node m d e = Some (Inl ())"
  by (simp add: read_node_def)

lemma search_node_blob:
  assumes "blob m d names root" "name_ok n"
  shows "search_node m d n None = Some (first_node (\<lambda>x. name_matches n (fst x)) (tree_nodes m d names root))"
proof -
  obtain s items p p' where b: "get_struct_offset m d = Some p" "at_item m d p p (enc (Node s items) @ FDT_END)"
    "struct_end m d = Some (p + length (enc (Node s items)) + 4)" "name_ok s" "\<forall>x \<in> set items. item_ok m d names x"
    "p' = p + 4 + length (padded (s @ [0]))" "at_item m d p' p' (concat (map enc items) @ FDT_END_NODE)"
    "p + length (enc (Node s items)) = p' + length (concat (map enc items)) + 4"
    "tree_nodes m d names root = (s, \<lparr>node_address = p', node_address_cells = DEFAULT_ADDRESS_CELLS, node_size_cells = DEFAULT_SIZE_CELLS\<rparr>, items) #
      nodes_of names p' (DEFAULT_ADDRESS_CELLS, DEFAULT_SIZE_CELLS) items"
    using blobE [OF assms(1)] by metis
  let ?e = "p + length (enc (Node s items))"
  have lim: "?e + 4 < usize_limit" using b(3) by (auto simp: struct_end_def bind_eq_Some_conv dest!: uadd_SomeD)
  have root: "search_node_at m d n p ac sc = (if name_matches n s
      then Some (Inr (Some \<lparr>node_address = p', node_address_cells = ac, node_size_cells = sc\<rparr>, p')) else search_loop m d n p' ac sc)" for ac sc
    by (simp add: search_node_at_def search_enter_stored [OF b(2,4) assms(2)] b(6))
  have first: "read_node m d p = Some (Inr FDT_BEGIN_NODE)"
    by (rule at_item_token(3) [of m d p p FDT_BEGIN_NODE "padded (s @ [0]) @ concat (map enc items) @ FDT_END_NODE @ FDT_END"]) (use b(2) in simp_all)
  have last: "search_nodes m d n (?e + 4) ac sc = Some None" for ac sc
    by (subst search_nodes.simps) (simp add: read_node_end [OF b(3)] del: enc.simps)
  have fin: "finds (search_loop m d n p' DEFAULT_ADDRESS_CELLS DEFAULT_SIZE_CELLS)
      (first_node (\<lambda>x. name_matches n (fst x)) (nodes_of names p' (DEFAULT_ADDRESS_CELLS, DEFAULT_SIZE_CELLS) items)) ?e"
    using search_loop_items [OF b(7,5) assms(2), of "(DEFAULT_ADDRESS_CELLS, DEFAULT_SIZE_CELLS)"] unfolding b(8) by simp
  have "search_nodes m d n p DEFAULT_ADDRESS_CELLS DEFAULT_SIZE_CELLS = Some (first_node (\<lambda>x. name_matches n (fst x)) (tree_nodes m d names root))"
    by (subst search_nodes.simps)
      (use fin lim last in \<open>auto simp: first root b(9) finds_def uadd_def split: option.splits simp del: enc.simps\<close>)
  then show ?thesis by (simp add: search_node_def search_from_def b(1))
qed

section \<open>Properties of a node\<close>

text \<open>The first property of that name before the first child, with the cell counts up to it.\<close>

fun lookup :: "(u32 \<Rightarrow> u8 list) \<Rightarrow> u32 \<times> u32 \<Rightarrow> u8 list \<Rightarrow> dt_item list \<Rightarrow> (u8 list \<times> u32 \<times> u32) option" where
  "lookup names c n (Nop # items) = lookup names c n items"
| "lookup names c n (Property s v # items) =
     (if names s = n then Some (v, cells_after names s v c) else lookup names (cells_after names s v c) n items)"
| "lookup names c n [] = None"
| "lookup names c n (Node s sub # items) = None"

definition describes :: "bmem \<Rightarrow> DtbProperty \<Rightarrow> u8 list \<times> u32 \<times> u32 \<Rightarrow> bool" where
  "describes m info x \<longleftrightarrow> read_property_as_u8_array m info = fst x \<and> unat (prop_len info) = length (fst x) \<and>
     prop_address info + length (fst x) < usize_limit \<and> (prop_address_cells info, prop_size_cells info) = snd x"

definition gives_property :: "bmem \<Rightarrow> (unit + DtbProperty) option \<Rightarrow> (u8 list \<times> u32 \<times> u32) option \<Rightarrow> bool" where
  "gives_property m r x \<longleftrightarrow>
     (case x of None \<Rightarrow> r = Some (Inl ()) | Some y \<Rightarrow> \<exists>info. r = Some (Inr info) \<and> describes m info y)"

lemma get_property_loop_nop:
  "at_item m d q p (enc Nop @ bs) \<Longrightarrow> 0 < length bs \<Longrightarrow> get_property_loop m d n q ac sc = get_property_loop m d n (p + 4) ac sc"
  by (subst (1 2) get_property_loop.simps) (simp add: at_item_nop)

lemma get_property_loop_stop:
  assumes "at_item m d q p (t @ bs)" "t \<in> {FDT_BEGIN_NODE, FDT_END_NODE}"
  shows "get_property_loop m d n q ac sc = Some (Inl ())"
  using assms(2) at_item_token [OF assms(1)] by (subst get_property_loop.simps) auto

lemma get_property_loop_property:
  assumes "at_item m d q p (enc (Property s v) @ bs)" "item_ok m d names (Property s v)" "name_ok n"
  shows "get_property_loop m d n q ac sc =
    (case cells_after names s v (ac, sc) of (ac, sc) \<Rightarrow>
       if names s = n
       then Some (Inr \<lparr>prop_address = p + 12, prop_address_cells = ac, prop_size_cells = sc, prop_len = of_nat (length v)\<rparr>)
       else get_property_loop m d n (p + 12 + length v) ac sc)"
proof -
  have t: "at_item m d q p (FDT_PROP @ be_bytes 4 (length v) @ be_bytes 4 (unat s) @ padded v @ bs)" using assms(1) by simp
  have nm: "compare_name_segment m d s n [] = Some (Inr (names s = n))"
    using assms(2) by (intro compare_name_segment_stored [OF _ assms(3)]) simp
  show ?thesis
    by (subst get_property_loop.simps) (simp add: at_item_token [OF t] at_item_property [OF assms(1,2)] nm split: prod.split)
qed

lemma get_property_loop_items:
  assumes "at_item m d q p (concat (map enc items) @ FDT_END_NODE)" "\<forall>x \<in> set items. item_ok m d names x" "name_ok n"
  shows "gives_property m (get_property_loop m d n q (fst c) (snd c)) (lookup names c n items)"
  using assms
proof (induction names c n items arbitrary: q p rule: lookup.induct)
  case (1 names c n items)
  have a: "at_item m d q p (enc Nop @ concat (map enc items) @ FDT_END_NODE)" using "1.prems"(1) by simp
  have "at_item m d (p + 4) (p + 4) (concat (map enc items) @ FDT_END_NODE)" using at_item_later [OF a] by simp
  from "1.IH" [OF this] "1.prems"(2,3) show ?case by (simp add: get_property_loop_nop [OF a])
next
  case (2 names c n s v items)
  have a: "at_item m d q p (enc (Property s v) @ concat (map enc items) @ FDT_END_NODE)" using "2.prems"(1) by simp
  have ok: "item_ok m d names (Property s v)" "\<forall>x \<in> set items. item_ok m d names x" using "2.prems"(2) by simp_all
  have "stored m (p + 12) v" using a by (auto elim!: at_itemE simp: padded_def add.assoc)
  then have "describes m \<lparr>prop_address = p + 12, prop_address_cells = x, prop_size_cells = y, prop_len = of_nat (length v)\<rparr> (v, x, y)" for x y
    using at_item_property(2,3) [OF a ok(1)] uadd_SomeD [of "p + 12" "length v"]
    by (simp add: describes_def read_property_as_u8_array_def stored_def)
  then show ?case
    using "2.IH" [OF _ at_item_property(4) [OF a ok(1)] ok(2) "2.prems"(3)]
    by (cases "cells_after names s v c") (auto simp: get_property_loop_property [OF a ok(1) "2.prems"(3)] gives_property_def)
next
  case (3 names c n)
  then show ?case using get_property_loop_stop [of m d q p FDT_END_NODE "[]"] by (simp add: gives_property_def)
next
  case (4 names c n s sub items)
  then show ?case
    using get_property_loop_stop [of m d q p FDT_BEGIN_NODE "padded (s @ [0]) @ concat (map enc sub) @ FDT_END_NODE @ concat (map enc items) @ FDT_END_NODE"]
    by (simp add: gives_property_def)
qed

text \<open>Every node of the list is where it says.\<close>

lemma nodes_of_stored:
  assumes "at_item m d q p (concat (map enc items) @ FDT_END_NODE)" "\<forall>x \<in> set items. item_ok m d names x"
    "(s, x, sub) \<in> set (nodes_of names p c items)"
  shows "at_item m d (node_address x) (node_address x) (concat (map enc sub) @ FDT_END_NODE) \<and> (\<forall>y \<in> set sub. item_ok m d names y)"
  using assms
proof (induction names p c items arbitrary: q rule: nodes_of.induct)
  case (2 names p c items)
  have "at_item m d q p (enc Nop @ concat (map enc items) @ FDT_END_NODE)" using "2.prems"(1) by simp
  from at_item_later [OF this] have "at_item m d (p + 4) (p + 4) (concat (map enc items) @ FDT_END_NODE)" by simp
  from "2.IH" [OF this] "2.prems"(2,3) show ?case by simp
next
  case (3 names p c t v items)
  have a: "at_item m d q p (enc (Property t v) @ concat (map enc items) @ FDT_END_NODE)" using "3.prems"(1) by simp
  from "3.IH" [OF at_item_property(4) [OF a, of names]] "3.prems"(2,3) show ?case by simp
next
  case (4 names p c t sub' items)
  define p' where "p' = p + 4 + length (padded (t @ [0]))"
  have a: "at_item m d q p (enc (Node t sub') @ concat (map enc items) @ FDT_END_NODE)" using "4.prems"(1) by simp
  have ok: "\<forall>x \<in> set sub'. item_ok m d names x" "\<forall>x \<in> set items. item_ok m d names x" using "4.prems"(2) by auto
  note ch = at_item_children [OF a, folded p'_def]
  have "(s, x, sub) = (t, \<lparr>node_address = p', node_address_cells = fst c, node_size_cells = snd c\<rparr>, sub') \<or>
      (s, x, sub) \<in> set (nodes_of names p' c sub') \<or> (s, x, sub) \<in> set (nodes_of names (p + length (enc (Node t sub'))) c items)"
    using "4.prems"(3) by (simp add: Let_def p'_def del: enc.simps)
  then show ?case using "4.IH"(1) [OF p'_def ch(1) ok(1)] "4.IH"(2) [OF p'_def ch(2) ok(2)] ch(1) ok(1) by auto
qed simp

lemma tree_nodes_stored:
  assumes "blob m d names root" "(s, x, sub) \<in> set (tree_nodes m d names root)"
  shows "at_item m d (node_address x) (node_address x) (concat (map enc sub) @ FDT_END_NODE)" "\<forall>y \<in> set sub. item_ok m d names y"
  using assms(2) by - (rule blobE [OF assms(1)]; auto dest: nodes_of_stored)+

lemma get_property_blob:
  assumes "blob m d names root" "(s, x, sub) \<in> set (tree_nodes m d names root)" "name_ok n"
  shows "case lookup names (node_address_cells x, node_size_cells x) n sub of
      None \<Rightarrow> get_property m d x n = Some None
    | Some y \<Rightarrow> \<exists>info. get_property m d x n = Some (Some info) \<and> describes m info y"
  using get_property_loop_items [OF tree_nodes_stored [OF assms(1,2)] assms(3), of "(node_address_cells x, node_size_cells x)"]
  by (auto simp: gives_property_def get_property_def split: option.splits)

section \<open>Searching by \<open>compatible\<close>\<close>

text \<open>The strings of a value, each ended by a zero.\<close>

fun strings :: "u8 list \<Rightarrow> u8 list \<Rightarrow> u8 list list" where
  "strings acc [] = []"
| "strings acc (x # xs) = (if x = 0 then acc # strings [] xs else strings (acc @ [x]) xs)"

definition string_list :: "u8 list list \<Rightarrow> u8 list" where
  "string_list ss = concat (map (\<lambda>s. s @ [0]) ss)"

lemma strings_string_list:
  assumes "v \<noteq> [] \<longrightarrow> last v = 0" "name_ok acc"
  shows "(if v = [] then [] else acc @ v) = string_list (strings acc v) \<and> (\<forall>s \<in> set (strings acc v). name_ok s)"
  using assms
proof (induction acc v rule: strings.induct)
  case (2 acc x xs)
  have l: "xs \<noteq> [] \<longrightarrow> last xs = 0" using "2.prems"(1) by auto
  show ?case
  proof (cases "x = 0")
    case True
    with "2.IH"(1) [OF True l] "2.prems"(2) show ?thesis by (cases "xs = []") (auto simp: string_list_def name_ok_def)
  next
    case False
    then have "xs \<noteq> []" "name_ok (acc @ [x])" using "2.prems" by (auto simp: name_ok_def)
    with "2.IH"(2) [OF False l] False show ?thesis by simp
  qed
qed (simp add: string_list_def)

lemma wadd_Some: "unat a + unat b < 2 ^ LENGTH('a) \<Longrightarrow> wadd a b = Some (a + b)" for a :: "'a::len word"
  by (simp add: wadd_def)

lemma unat_plus_1: "unat p + 1 < 2 ^ 32 \<Longrightarrow> wadd p 1 = Some (p + 1) \<and> unat (p + 1) = unat p + 1" for p :: u32
  by (auto simp: wadd_def unat_word_ariths)

lemma compatible_here_stored:
  assumes "stored m (a + unat p) (s @ [0])" "name_ok s" "name_ok c" "a + unat p + length s < usize_limit" "unat p + length s + 1 < 2 ^ 32"
  shows "\<exists>q. compatible_here m a (c @ [0]) p = Some (s = c, q) \<and> unat p \<le> unat q \<and> (s \<noteq> c \<longrightarrow> unat q \<le> unat p + length s)"
  using assms
proof (induction c arbitrary: p s)
  case Nil
  have u: "uadd a (unat p) = Some (a + unat p)" "wadd p 1 = Some (p + 1)" "unat (p + 1) = unat p + 1"
    using Nil.prems(4,5) unat_plus_1 [of p] by (auto simp: uadd_def)
  then show ?case using Nil.prems(1,2) by (cases s) (auto simp: stored_Cons name_ok_def)
next
  case (Cons x c)
  have u: "uadd a (unat p) = Some (a + unat p)" "wadd p 1 = Some (p + 1)" "unat (p + 1) = unat p + 1"
    using Cons.prems(4,5) unat_plus_1 [of p] by (auto simp: uadd_def)
  show ?case
  proof (cases s)
    case Nil
    then show ?thesis using u Cons.prems(1,3) by (auto simp: stored_Cons name_ok_def)
  next
    case s: (Cons y ys)
    show ?thesis
    proof (cases "x = y")
      case True
      have "stored m (a + unat (p + 1)) (ys @ [0])" "name_ok ys" "name_ok c" "a + unat (p + 1) + length ys < usize_limit"
        "unat (p + 1) + length ys + 1 < 2 ^ 32"
        using Cons.prems s unfolding u(3) by (auto simp: stored_Cons name_ok_def add.assoc)
      from Cons.IH [OF this] s True u Cons.prems(1) show ?thesis by (auto simp: stored_Cons)
    next
      case False
      then show ?thesis using s u Cons.prems(1) by (auto simp: stored_Cons)
    qed
  qed
qed

lemma compatible_loop_skip:
  assumes "stored m (prop_address info + unat p) (s @ [0])" "name_ok s" "prop_address info + unat (prop_len info) < usize_limit"
    "unat p + length s < unat (prop_len info)"
  shows "\<exists>q. unat q = unat p + length s + 1 \<and> compatible_loop m info c p True = compatible_loop m info c q False"
  using assms
proof (induction s arbitrary: p)
  case Nil
  have "unat (prop_len info) < 2 ^ 32" using unsigned_less [of "prop_len info"] by simp
  then have u: "uadd (prop_address info) (unat p) = Some (prop_address info + unat p)" "wadd p 1 = Some (p + 1)" "unat (p + 1) = unat p + 1"
    using Nil.prems(3,4) unat_plus_1 [of p] by (auto simp: uadd_def)
  then show ?case using Nil.prems(1,4)
    by (intro exI [of _ "p + 1"]) (subst compatible_loop.simps, auto simp: stored_Cons word_less_nat_alt)
next
  case (Cons x s)
  have "unat (prop_len info) < 2 ^ 32" using unsigned_less [of "prop_len info"] by simp
  then have u: "uadd (prop_address info) (unat p) = Some (prop_address info + unat p)" "wadd p 1 = Some (p + 1)" "unat (p + 1) = unat p + 1"
    using Cons.prems(3,4) unat_plus_1 [of p] by (auto simp: uadd_def)
  have "stored m (prop_address info + unat (p + 1)) (s @ [0])" "name_ok s" "unat (p + 1) + length s < unat (prop_len info)"
    using Cons.prems(1,2,4) unfolding u(3) by (auto simp: stored_Cons name_ok_def add.assoc)
  from Cons.IH [OF this(1,2) Cons.prems(3) this(3)] obtain q where
    q: "unat q = unat p + length (x # s) + 1" "compatible_loop m info c (p + 1) True = compatible_loop m info c q False"
    unfolding u(3) by auto
  have "compatible_loop m info c p True = compatible_loop m info c (p + 1) True"
    using Cons.prems(1,2,4) u by (subst compatible_loop.simps) (auto simp: stored_Cons name_ok_def word_less_nat_alt)
  with q show ?case by auto
qed

lemma compatible_loop_strings:
  assumes "stored m (prop_address info + unat p) (string_list ss)" "\<forall>s \<in> set ss. name_ok s" "name_ok c"
    "prop_address info + unat (prop_len info) < usize_limit" "unat p + length (string_list ss) = unat (prop_len info)"
  shows "compatible_loop m info c p False = Some (c \<in> set ss)"
  using assms
proof (induction ss arbitrary: p)
  case Nil
  then show ?case by (subst compatible_loop.simps) (simp add: string_list_def word_less_nat_alt)
next
  case (Cons s ss)
  have st: "stored m (prop_address info + unat p) (s @ [0])" "stored m (prop_address info + unat p + length s + 1) (string_list ss)"
    using Cons.prems(1) by (simp_all add: string_list_def stored_Cons)
  have l: "unat p + length s + 1 + length (string_list ss) = unat (prop_len info)" using Cons.prems(5) by (simp add: string_list_def)
  have u32: "unat (prop_len info) < 2 ^ 32" using unsigned_less [of "prop_len info"] by simp
  have ok: "name_ok s" using Cons.prems(2) by simp
  obtain q where q: "compatible_here m (prop_address info) (c @ [0]) p = Some (s = c, q)" "unat p \<le> unat q" "s \<noteq> c \<longrightarrow> unat q \<le> unat p + length s"
    using compatible_here_stored [OF st(1) ok Cons.prems(3)] Cons.prems(4) l u32 by fastforce
  have p: "p < prop_len info" using l by (simp add: word_less_nat_alt)
  show ?case
  proof (cases "s = c")
    case True
    then show ?thesis using p q(1) by (subst compatible_loop.simps) simp
  next
    case False
    let ?s = "drop (unat q - unat p) s"
    have k: "unat q - unat p \<le> length s" using q(3) False by simp
    have "stored m (prop_address info + unat p + (unat q - unat p)) (drop (unat q - unat p) (s @ [0]))"
      by (rule stored_drop [OF st(1)]) (use k in simp)
    then have a: "stored m (prop_address info + unat q) (?s @ [0])" using k q(2) by simp
    have b: "name_ok ?s" using ok by (auto simp: name_ok_def dest: in_set_dropD)
    have e: "unat q + length ?s = unat p + length s" using k q(2) by simp
    then have "unat q + length ?s < unat (prop_len info)" using l by linarith
    from compatible_loop_skip [OF a b Cons.prems(4) this, of c]
    obtain r where r: "unat r = unat p + length s + 1" "compatible_loop m info c q True = compatible_loop m info c r False"
      unfolding e by blast
    have "compatible_loop m info c r False = Some (c \<in> set ss)"
      by (rule Cons.IH) (use st(2) Cons.prems(2-4) r(1) l in \<open>auto simp: add.assoc\<close>)
    then show ?thesis using p q(1) False r(2) by (subst compatible_loop.simps) simp
  qed
qed

text \<open>A node is compatible with \<open>c\<close> when \<open>c\<close> is one of the strings of its property.  A device tree has
  the properties of a node before its children.\<close>

definition compatible_items :: "(u32 \<Rightarrow> u8 list) \<Rightarrow> u8 list \<Rightarrow> dt_item list \<Rightarrow> bool" where
  "compatible_items names c items \<longleftrightarrow>
     list_ex (\<lambda>x. case x of Property s v \<Rightarrow> names s = PROP_COMPATIBLE \<and> c \<in> set (strings [] v) | _ \<Rightarrow> False) items"

fun is_property :: "dt_item \<Rightarrow> bool" where
  "is_property (Property s v) = True"
| "is_property _ = False"

fun compatible_ok :: "(u32 \<Rightarrow> u8 list) \<Rightarrow> dt_item list \<Rightarrow> bool" where
  "compatible_ok names [] \<longleftrightarrow> True"
| "compatible_ok names (Nop # items) \<longleftrightarrow> compatible_ok names items"
| "compatible_ok names (Property s v # items) \<longleftrightarrow>
     (names s = PROP_COMPATIBLE \<longrightarrow> v \<noteq> [] \<longrightarrow> last v = 0) \<and> compatible_ok names items"
| "compatible_ok names (Node s sub # items) \<longleftrightarrow>
     compatible_ok names sub \<and> list_all (\<lambda>x. \<not> is_property x) items \<and> compatible_ok names items"

lemma compatible_items_simps [simp]:
  "\<not> compatible_items names c []"
  "compatible_items names c (Nop # items) = compatible_items names c items"
  "compatible_items names c (Node t sub # items) = compatible_items names c items"
  "compatible_items names c (Property s v # items) \<longleftrightarrow>
     names s = PROP_COMPATIBLE \<and> c \<in> set (strings [] v) \<or> compatible_items names c items"
  by (simp_all add: compatible_items_def)

lemma no_property_compatible: "list_all (\<lambda>x. \<not> is_property x) items \<Longrightarrow> \<not> compatible_items names c items"
  by (induction items) (auto simp: compatible_items_def split: dt_item.splits)

definition finds_at :: "(unit + DtbNode option \<times> usize) option \<Rightarrow> usize option \<Rightarrow> usize \<Rightarrow> bool" where
  "finds_at r x e \<longleftrightarrow>
     (case x of None \<Rightarrow> r = Some (Inr (None, e)) | Some a \<Rightarrow> \<exists>y q. r = Some (Inr (Some y, q)) \<and> node_address y = a)"

lemma finds_at_then:
  assumes "finds_at r x e" "finds_at r' x' e'" "r' = f (None, e)"
  shows "finds_at (try_result r (\<lambda>r. if fst r \<noteq> None then Some (Inr r) else f r)) (case x of None \<Rightarrow> x' | Some y \<Rightarrow> Some y) e'"
  using assms by (cases x) (auto simp: finds_at_def)

lemma compatible_search_loop_nop:
  "at_item m d q p (enc Nop @ bs) \<Longrightarrow> 0 < length bs \<Longrightarrow>
     compatible_search_loop m d c b q ac sc = compatible_search_loop m d c b (p + 4) ac sc"
  by (subst (1 2) compatible_search_loop.simps) (simp add: at_item_nop)

lemma compatible_search_loop_end:
  "at_item m d q p FDT_END_NODE \<Longrightarrow> compatible_search_loop m d c b q ac sc = Some (Inr (None, p + 4))"
  by (subst compatible_search_loop.simps) (auto simp: at_item_token [of m d q p FDT_END_NODE "[]"] uadd_def elim!: at_itemE)

lemma is_device_compatible_at_stored:
  assumes "at_item m d q p (enc (Property s v) @ bs)" "item_ok m d names (Property s v)" "name_ok c" "v \<noteq> [] \<longrightarrow> last v = 0"
  shows "is_device_compatible_at m \<lparr>prop_address = p + 12, prop_address_cells = ac, prop_size_cells = sc, prop_len = of_nat (length v)\<rparr> c =
    Some (c \<in> set (strings [] v))"
proof -
  have v: "v = string_list (strings [] v)" "\<forall>s \<in> set (strings [] v). name_ok s"
    using strings_string_list [OF assms(4), of "[]"] by (auto simp: name_ok_def string_list_def split: if_splits)
  have "stored m (p + 12) v" using assms(1) by (auto elim!: at_itemE simp: padded_def add.assoc)
  then show ?thesis unfolding is_device_compatible_at_def
    using v at_item_property(2,3) [OF assms(1,2)] uadd_SomeD [of "p + 12" "length v"]
    by (intro compatible_loop_strings) (auto simp: assms(3))
qed

lemma compatible_search_loop_property:
  assumes "at_item m d q p (enc (Property s v) @ bs)" "item_ok m d names (Property s v)" "name_ok c"
    "names s = PROP_COMPATIBLE \<longrightarrow> v \<noteq> [] \<longrightarrow> last v = 0"
  shows "compatible_search_loop m d c b q ac sc =
    (case cells_after names s v (ac, sc) of (ac, sc) \<Rightarrow>
       if names s = PROP_COMPATIBLE \<and> c \<in> set (strings [] v)
       then Some (Inr (Some \<lparr>node_address = b, node_address_cells = ac, node_size_cells = sc\<rparr>, p + 12))
       else compatible_search_loop m d c b (p + 12 + length v) ac sc)"
proof -
  have t: "at_item m d q p (FDT_PROP @ be_bytes 4 (length v) @ be_bytes 4 (unat s) @ padded v @ bs)" using assms(1) by simp
  have nm: "compare_name_segment m d s PROP_COMPATIBLE [] = Some (Inr (names s = PROP_COMPATIBLE))"
    using assms(2) by (intro compare_name_segment_stored) simp_all
  show ?thesis using assms(4) is_device_compatible_at_stored [OF assms(1-3)]
    by (subst compatible_search_loop.simps)
      (auto simp: at_item_token [OF t] at_item_property [OF assms(1,2)] nm split: prod.split)
qed

lemma compatible_enter_stored:
  assumes "at_item m d q p (enc (Node s items) @ bs)" "name_ok s"
  shows "compatible_enter m d p = Some (Inr (p + 4 + length (padded (s @ [0]))))"
proof -
  have t: "at_item m d q p (FDT_BEGIN_NODE @ padded (s @ [0]) @ concat (map enc items) @ FDT_END_NODE @ bs)" using assms(1) by simp
  from t have st: "stored m (p + 4) (s @ [0])" "4 dvd p + 4" "p + 4 + length (padded (s @ [0])) < usize_limit"
    by (auto elim!: at_itemE simp: padded_def stored_Cons)
  have al: "align (p + 4 + length s + 1) = p + 4 + length (padded (s @ [0]))"
    using align_add [OF st(2), of "length s + 1"] by (simp add: length_padded add.assoc)
  show ?thesis
    using skip_name_stored [OF st(1) assms(2), of 0] st(3) unfolding al by (simp add: compatible_enter_def at_item_token [OF t] uadd_def)
qed

lemma compatible_search_loop_node:
  assumes "at_item m d q p (enc (Node s items) @ bs)" "name_ok s"
  defines "p' \<equiv> p + 4 + length (padded (s @ [0]))"
  shows "compatible_search_loop m d c b q ac sc =
    try_result (compatible_search_loop m d c p' p' ac sc) (\<lambda>r. if fst r \<noteq> None then Some (Inr r) else compatible_search_loop m d c b (snd r) ac sc)"
proof -
  have t: "at_item m d q p (FDT_BEGIN_NODE @ padded (s @ [0]) @ concat (map enc items) @ FDT_END_NODE @ bs)" using assms(1) by simp
  show ?thesis
    by (subst compatible_search_loop.simps) (simp add: at_item_token [OF t] compatible_enter_stored [OF assms(1,2)] p'_def)
qed

lemma compatible_search_loop_items:
  assumes "at_item m d q p (concat (map enc items) @ FDT_END_NODE)" "\<forall>x \<in> set items. item_ok m d names x" "name_ok c"
    "compatible_ok names items"
  shows "finds_at (compatible_search_loop m d c b q (fst cells) (snd cells))
    (if compatible_items names c items then Some b
     else map_option node_address (first_node (\<lambda>x. compatible_items names c (snd (snd x))) (nodes_of names p cells items)))
    (p + length (concat (map enc items)) + 4)"
  using assms
proof (induction names p cells items arbitrary: q b rule: nodes_of.induct)
  case (1 names p cells)
  then show ?case by (simp add: compatible_search_loop_end finds_at_def)
next
  case (2 names p cells items)
  have a: "at_item m d q p (enc Nop @ concat (map enc items) @ FDT_END_NODE)" using "2.prems"(1) by simp
  have "at_item m d (p + 4) (p + 4) (concat (map enc items) @ FDT_END_NODE)" using at_item_later [OF a] by simp
  from "2.IH" [OF this, of b] "2.prems"(2-4) show ?case
    by (cases "compatible_items names c items") (simp_all add: compatible_search_loop_nop [OF a] add.assoc)
next
  case (3 names p cells s v items)
  have a: "at_item m d q p (enc (Property s v) @ concat (map enc items) @ FDT_END_NODE)" using "3.prems"(1) by simp
  have ok: "item_ok m d names (Property s v)" "\<forall>x \<in> set items. item_ok m d names x" using "3.prems"(2) by simp_all
  have co: "names s = PROP_COMPATIBLE \<longrightarrow> v \<noteq> [] \<longrightarrow> last v = 0" "compatible_ok names items" using "3.prems"(4) by simp_all
  have e: "p + length (concat (map enc (Property s v # items))) + 4 = p + length (enc (Property s v)) + length (concat (map enc items)) + 4"
    by simp
  note IH = "3.IH" [OF at_item_property(4) [OF a ok(1)] ok(2) "3.prems"(3) co(2), of b]
  show ?case
  proof (cases "names s = PROP_COMPATIBLE \<and> c \<in> set (strings [] v)")
    case True
    then show ?thesis unfolding e compatible_search_loop_property [OF a ok(1) "3.prems"(3) co(1)]
      by (simp add: finds_at_def split: prod.split)
  next
    case False
    with IH show ?thesis unfolding e compatible_search_loop_property [OF a ok(1) "3.prems"(3) co(1)]
      by (cases "cells_after names s v cells"; cases "compatible_items names c items") (auto simp del: enc.simps)
  qed
next
  case (4 names p cells s sub items)
  define p' where "p' = p + 4 + length (padded (s @ [0]))"
  let ?P = "\<lambda>x. compatible_items names c (snd (snd x))" and ?l = "\<lambda>b q. compatible_search_loop m d c b q (fst cells) (snd cells)"
  have a: "at_item m d q p (enc (Node s sub) @ concat (map enc items) @ FDT_END_NODE)" using "4.prems"(1) by simp
  have ok: "name_ok s" "\<forall>x \<in> set sub. item_ok m d names x" "\<forall>x \<in> set items. item_ok m d names x"
    "compatible_ok names sub" "compatible_ok names items" "\<not> compatible_items names c items"
    using "4.prems"(2,4) no_property_compatible by auto
  note ch = at_item_children [OF a, folded p'_def]
  have n: "nodes_of names p cells (Node s sub # items) = (s, \<lparr>node_address = p', node_address_cells = fst cells, node_size_cells = snd cells\<rparr>, sub) #
      nodes_of names p' cells sub @ nodes_of names (p + length (enc (Node s sub))) cells items"
    by (simp add: Let_def p'_def del: enc.simps)
  have e: "p + length (concat (map enc (Node s sub # items))) + 4 = p + length (enc (Node s sub)) + length (concat (map enc items)) + 4"
    by simp
  have "finds_at (try_result (?l p' p') (\<lambda>r. if fst r \<noteq> None then Some (Inr r) else ?l b (snd r)))
    (case if compatible_items names c sub then Some p' else map_option node_address (first_node ?P (nodes_of names p' cells sub)) of
       None \<Rightarrow> (if compatible_items names c items then Some b
         else map_option node_address (first_node ?P (nodes_of names (p + length (enc (Node s sub))) cells items)))
     | Some y \<Rightarrow> Some y)
    (p + length (enc (Node s sub)) + length (concat (map enc items)) + 4)"
    by (rule finds_at_then [OF "4.IH"(1) [OF p'_def ch(1) ok(2) "4.prems"(3) ok(4)] "4.IH"(2) [OF p'_def ch(2) ok(3) "4.prems"(3) ok(5)]])
      (simp only: ch(3) snd_conv)
  then show ?case unfolding n e compatible_search_loop_node [OF a ok(1), folded p'_def]
    using ok(6) by (simp add: if_distrib option.case_distrib [of "map_option node_address"] option.map_comp cong: option.case_cong if_cong del: enc.simps split: option.splits)
qed

lemma search_node_by_compatible_blob:
  assumes "blob m d names root" "name_ok c" "compatible_ok names [root]"
  shows "\<exists>x. search_node_by_compatible m d c None = Some x \<and>
    map_option node_address x =
      map_option node_address (first_node (\<lambda>x. compatible_items names c (snd (snd x))) (tree_nodes m d names root))"
proof -
  obtain s items p p' where b: "get_struct_offset m d = Some p" "at_item m d p p (enc (Node s items) @ FDT_END)"
    "struct_end m d = Some (p + length (enc (Node s items)) + 4)" "name_ok s" "\<forall>x \<in> set items. item_ok m d names x"
    "p' = p + 4 + length (padded (s @ [0]))" "at_item m d p' p' (concat (map enc items) @ FDT_END_NODE)"
    "p + length (enc (Node s items)) = p' + length (concat (map enc items)) + 4"
    "tree_nodes m d names root = (s, \<lparr>node_address = p', node_address_cells = DEFAULT_ADDRESS_CELLS, node_size_cells = DEFAULT_SIZE_CELLS\<rparr>, items) #
      nodes_of names p' (DEFAULT_ADDRESS_CELLS, DEFAULT_SIZE_CELLS) items" "root = Node s items"
    using blobE [OF assms(1)] by metis
  let ?e = "p + length (enc (Node s items))"
  have lim: "?e + 4 < usize_limit" using b(3) by (auto simp: struct_end_def bind_eq_Some_conv dest!: uadd_SomeD)
  have root: "search_node_by_compatible_at m d c p ac sc = compatible_search_loop m d c p' p' ac sc" for ac sc
    by (simp add: search_node_by_compatible_at_def compatible_enter_stored [OF b(2,4)] b(6))
  have first: "read_node m d p = Some (Inr FDT_BEGIN_NODE)"
    by (rule at_item_token(3) [of m d p p FDT_BEGIN_NODE "padded (s @ [0]) @ concat (map enc items) @ FDT_END_NODE @ FDT_END"]) (use b(2) in simp_all)
  have last: "search_nodes_by_compatible m d c (?e + 4) ac sc = Some None" for ac sc
    by (subst search_nodes_by_compatible.simps) (simp add: read_node_end [OF b(3)] del: enc.simps)
  have co: "compatible_ok names items" using assms(3) b(10) by simp
  have fin: "finds_at (compatible_search_loop m d c p' p' DEFAULT_ADDRESS_CELLS DEFAULT_SIZE_CELLS)
      (map_option node_address (first_node (\<lambda>x. compatible_items names c (snd (snd x))) (tree_nodes m d names root))) ?e"
    using compatible_search_loop_items [OF b(7,5) assms(2) co, of p' "(DEFAULT_ADDRESS_CELLS, DEFAULT_SIZE_CELLS)"] unfolding b(8,9)
    by (cases "compatible_items names c items") simp_all
  show ?thesis unfolding search_node_by_compatible_def search_from_def b(1)
    by (simp, subst search_nodes_by_compatible.simps)
      (use fin lim last in \<open>auto simp: first root finds_at_def uadd_def split: option.splits simp del: enc.simps\<close>)
qed

section \<open>Entries of \<open>reg\<close>\<close>

lemma be_nat_snoc: "be_nat (xs @ [x]) = 256 * be_nat xs + unat x"
  by (simp add: be_nat_def)

lemma mod_shift_byte: "(v mod usize_limit * 256) mod usize_limit + unat (b :: u8) = (256 * v + unat b) mod usize_limit"
proof -
  have u: "usize_limit = 2 ^ 56 * 256" by (simp add: usize_limit_def)
  have b: "unat b < 256" using unsigned_less [of b] by simp
  have m: "(v mod usize_limit * 256) mod usize_limit = v mod 2 ^ 56 * 256"
    unfolding mod_mult_left_eq u by (rule mod_mult_mult2)
  have "(256 * v + unat b) mod usize_limit = 256 * ((256 * v + unat b) div 256 mod 2 ^ 56) + (256 * v + unat b) mod 256"
    unfolding u by (subst mult.commute [of "2 ^ 56"], rule mod_mult2_eq)
  also have "\<dots> = 256 * (v mod 2 ^ 56) + unat b" using b by simp
  finally show ?thesis by (simp add: m)
qed

lemma for_each_snoc: "for_each (xs @ [x]) f s = Option.bind (for_each xs f s) (f x)"
proof (induction xs arbitrary: s)
  case Nil
  show ?case by (cases "f x s") simp_all
next
  case (Cons a xs)
  then show ?case by (cases "f a s") simp_all
qed

lemma read_bytes_Some:
  assumes "a + off + start + n < usize_limit"
  shows "read_bytes m a off start n = Some (be_nat (get_bytes m (a + off + start) n) mod usize_limit)"
  using assms
proof (induction n)
  case (Suc n)
  have u: "uadd a off = Some (a + off)" "uadd (a + off) (start + n) = Some (a + off + start + n)" using Suc.prems by (simp_all add: uadd_def)
  have g: "get_bytes m (a + off + start) (Suc n) = get_bytes m (a + off + start) n @ [m (a + off + start + n)]"
    by (simp add: get_bytes_def)
  have "read_bytes m a off start (Suc n) = Option.bind (read_bytes m a off start n) (\<lambda>v. Some (v * 256 mod usize_limit + unat (m (a + off + start + n))))"
    unfolding read_bytes_def upt_Suc_append [OF le0] for_each_snoc by (simp add: u)
  with Suc show ?case by (simp add: g be_nat_snoc mod_shift_byte)
qed (simp add: read_bytes_def get_bytes_def be_nat_def)

lemma le_bytes_add: "le_bytes (a + b) v = le_bytes a v @ le_bytes b (v div 256 ^ a)"
  by (induction a arbitrary: v) (simp_all add: div_mult2_eq)

lemma be_bytes_add: "be_bytes (a + b) v = be_bytes a (v div 256 ^ b) @ be_bytes b v"
  using le_bytes_add [of b a v] by (simp add: be_bytes_def add.commute)

lemma le_bytes_mod: "le_bytes n (v mod 256 ^ n) = le_bytes n v"
proof (induction n arbitrary: v)
  case (Suc n)
  have "v mod (256 * 256 ^ n) mod 256 = v mod 256" "v mod (256 * 256 ^ n) div 256 = v div 256 mod 256 ^ n"
    by (simp_all add: mod_mult2_eq)
  then show ?case using Suc [of "v div 256"] by simp
qed simp

lemma put_bytes_append: "put_bytes (a + length xs) ys (put_bytes a xs m) = put_bytes a (xs @ ys) m"
  by (auto simp: put_bytes_def fun_eq_iff nth_append)

lemma put_bytes_Nil [simp]: "put_bytes a [] m = m"
  by (auto simp: put_bytes_def fun_eq_iff)

lemma store_cell:
  assumes "v < usize_limit" "cell = (if shift \<ge> 64 then 0 else of_nat (v div 2 ^ shift) :: u32)"
  shows "rev (le_bytes 4 (unat cell)) = be_bytes 4 (v div 2 ^ shift)"
proof (cases "shift \<ge> 64")
  case True
  have "v < 2 ^ 64" using assms(1) by (simp add: usize_limit_def)
  also have "(2 :: nat) ^ 64 \<le> 2 ^ shift" by (rule power_increasing) (use True in simp_all)
  finally show ?thesis using assms(2) True by (simp add: be_bytes_def)
next
  case False
  have "unat cell = (v div 2 ^ shift) mod 256 ^ 4" using assms(2) False by (simp add: unat_of_nat)
  then show ?thesis by (simp only: le_bytes_mod be_bytes_def)
qed

lemma write_cells:
  assumes "k \<le> n" "a + off + 4 * n < usize_limit" "v < usize_limit"
  shows "for_each [0..<k] (\<lambda>i m. do {
      let shift = (n - 1 - i) * 32;
      let cell = (if shift \<ge> 64 then 0 else of_nat (v div 2 ^ shift) :: u32);
      x \<leftarrow> uadd a off;
      x \<leftarrow> uadd x (i * 4);
      Some (store_be32 x cell m) }) m = Some (put_bytes (a + off) (be_bytes (4 * k) (v div 2 ^ (32 * (n - k)))) m)"
  using assms(1)
proof (induction k)
  case (Suc k)
  have u: "uadd a off = Some (a + off)" "uadd (a + off) (k * 4) = Some (a + off + 4 * k)" using assms(2) Suc.prems by (simp_all add: uadd_def)
  have p: "v div 2 ^ (32 * (n - k)) = v div 2 ^ (32 * (n - Suc k)) div 256 ^ 4"
  proof -
    have "n - k = Suc (n - Suc k)" using Suc.prems by simp
    then have "(2 :: nat) ^ (32 * (n - k)) = 2 ^ (32 * (n - Suc k)) * 256 ^ 4" by (simp add: power_add)
    then show ?thesis by (simp only: div_mult2_eq)
  qed
  have b: "be_bytes (4 * Suc k) (v div 2 ^ (32 * (n - Suc k))) =
      be_bytes (4 * k) (v div 2 ^ (32 * (n - k))) @ be_bytes 4 (v div 2 ^ (32 * (n - Suc k)))"
    using be_bytes_add [of "4 * k" 4] unfolding p by (simp add: add.commute)
  show ?case unfolding upt_Suc_append [OF le0] for_each_snoc Suc.IH [OF Suc_leD [OF Suc.prems]] b
    using put_bytes_append [of "a + off" "be_bytes (4 * k) (v div 2 ^ (32 * (n - k)))"]
    by (simp add: u store_be32_def Let_def store_cell [OF assms(3) refl] mult.commute [of 32] del: mult_Suc_right)
qed (simp add: be_bytes_def)

text \<open>The bytes of an entry: the position in the value of the field that starts after \<open>k\<close> cells.\<close>

definition field :: "u8 list \<Rightarrow> nat \<Rightarrow> nat \<Rightarrow> u8 list" where
  "field v k n = take (4 * n) (drop (4 * k) v)"

lemma describes_bytes:
  assumes "describes m info (v, ac, sc)" "4 * (k + n) \<le> length v"
  shows "get_bytes m (prop_address info + 4 * k) (4 * n) = field v k n"
proof -
  have "v = get_bytes m (prop_address info) (length v)" using assms(1) by (auto simp: describes_def read_property_as_u8_array_def)
  then have "v ! i = m (prop_address info + i)" if "i < length v" for i using that by (metis nth_get_bytes)
  with assms(2) show ?thesis by (intro nth_equalityI) (auto simp: field_def add.assoc)
qed

lemma reg_access:
  assumes g: "get_property m d x PROP_REG = Some (Some info)" "describes m info (v, ac, sc)"
    and ix: "4 * ((unat ac + unat sc) * (i + 1)) \<le> length v"
  defines "k \<equiv> (unat ac + unat sc) * i"
  shows "read_reg_property m d x i =
      Some (Some (be_nat (field v k (unat ac)) mod usize_limit, be_nat (field v (k + unat ac) (unat sc)) mod usize_limit))"
    "value < usize_limit \<Longrightarrow> write_reg_size m d x i value =
      Some (Inr (), put_bytes (prop_address info + 4 * (k + unat ac)) (be_bytes (4 * unat sc) value) m)"
proof -
  have info: "prop_address_cells info = ac" "prop_size_cells info = sc" "unat (prop_len info) = length v"
    using g(2) by (auto simp: describes_def)
  have "unat (prop_len info) < 2 ^ 32" using unsigned_less [of "prop_len info"] by simp
  then have len: "length v < 2 ^ 32" using info(3) by simp
  have k: "4 * (k + unat ac + unat sc) \<le> length v" using ix by (simp add: k_def algebra_simps)
  then have cells: "wadd ac sc = Some (ac + sc)" "unat (ac + sc) = unat ac + unat sc"
    "wmul ac 4 = Some (ac * 4)" "unat (ac * 4) = 4 * unat ac" "wmul sc 4 = Some (sc * 4)" "unat (sc * 4) = 4 * unat sc"
    using len by (auto simp: wadd_def wmul_def unat_word_ariths)
  have lim: "prop_address info + length v < usize_limit" using g(2) by (simp add: describes_def)
  then have l: "length v < usize_limit" by simp
  have u: "umul (unat ac + unat sc) 4 = Some (4 * (unat ac + unat sc))" "umul (4 * (unat ac + unat sc)) i = Some (4 * k)"
    "uadd (4 * k) (4 * (unat ac + unat sc)) = Some (4 * (k + unat ac + unat sc))"
    "umul (unat ac) 4 = Some (4 * unat ac)" "uadd (4 * k) (4 * unat ac) = Some (4 * (k + unat ac))" "umul (unat sc) 4 = Some (4 * unat sc)"
    "uadd (4 * (k + unat ac)) (4 * unat sc) = Some (4 * (k + unat ac + unat sc))"
    using k l by (auto simp: umul_def uadd_def k_def algebra_simps)
  have r: "read_bytes m (prop_address info) (4 * k) 0 (4 * unat ac) = Some (be_nat (field v k (unat ac)) mod usize_limit)"
    using read_bytes_Some [of "prop_address info" "4 * k" 0 "4 * unat ac" m] describes_bytes [OF g(2), of k "unat ac"] k lim by simp
  have r': "read_bytes m (prop_address info) (4 * k) (4 * unat ac) (4 * unat sc) = Some (be_nat (field v (k + unat ac) (unat sc)) mod usize_limit)"
    using read_bytes_Some [of "prop_address info" "4 * k" "4 * unat ac" "4 * unat sc" m] describes_bytes [OF g(2), of "k + unat ac" "unat sc"] k lim
    by (simp add: distrib_left add.assoc)
  show "read_reg_property m d x i =
      Some (Some (be_nat (field v k (unat ac)) mod usize_limit, be_nat (field v (k + unat ac) (unat sc)) mod usize_limit))"
    using k by (simp add: read_reg_property_def g(1) info cells u r r' del: distrib_left_numeral)
  show "write_reg_size m d x i value =
      Some (Inr (), put_bytes (prop_address info + 4 * (k + unat ac)) (be_bytes (4 * unat sc) value) m)" if "value < usize_limit"
  proof -
    have "prop_address info + 4 * (k + unat ac) + 4 * unat sc < usize_limit" using k lim by simp
    from write_cells [OF le_refl this that, of m] show ?thesis
      using k unfolding write_reg_size_def g(1) bind.bind_lunit option.case info cells u by simp
  qed
qed

section \<open>Going on after a node\<close>

lemma skip_to_next_node_nop:
  "at_item m d q p (enc Nop @ bs) \<Longrightarrow> 0 < length bs \<Longrightarrow> skip_to_next_node m d q = skip_to_next_node m d (p + 4)"
  by (subst (1 2) skip_to_next_node.simps) (simp add: at_item_nop)

lemma skip_to_next_node_property:
  assumes "at_item m d q p (enc (Property s v) @ bs)" "item_ok m d names (Property s v)"
  shows "skip_to_next_node m d q = skip_to_next_node m d (p + 12 + length v)"
proof -
  have t: "at_item m d q p (FDT_PROP @ be_bytes 4 (length v) @ be_bytes 4 (unat s) @ padded v @ bs)" using assms(1) by simp
  have "enter_property m d p 0 0 = Some (Inr (of_nat (length v), s, p + 12, cells_after names s v (0, 0)))"
    by (rule at_item_property(1) [OF assms])
  then have "read_u32 m d (p + 4) = Some (Inr (of_nat (length v)))" "p + 12 < usize_limit"
    by (auto simp: enter_property_def bind_eq_Some_conv try_result_eq_Inr dest!: uadd_SomeD split: prod.splits)
  moreover from this have "uadd p 4 = Some (p + 4)" "uadd (p + 4) 4 = Some (p + 8)" "uadd (p + 8) 4 = Some (p + 12)"
    by (simp_all add: uadd_def)
  ultimately show ?thesis
    by (subst skip_to_next_node.simps) (simp add: at_item_token [OF t] at_item_property(2,3) [OF assms])
qed

lemma skip_to_next_node_child:
  assumes "at_item m d q p (enc (Node s sub) @ bs)" "name_ok s" "s \<noteq> []"
  shows "skip_to_next_node m d q = Some (Inl ())"
proof -
  have t: "at_item m d q p (FDT_BEGIN_NODE @ padded (s @ [0]) @ concat (map enc sub) @ FDT_END_NODE @ bs)" using assms(1) by simp
  obtain e where e: "struct_end m d = Some e" "p + 4 < e" "e < usize_limit" "4 dvd p" "stored m (p + 4) (padded (s @ [0]))"
    using t by (auto elim!: at_itemE)
  have "m (p + 4) = hd s" using e(5) assms(3) by (cases s) (auto simp: padded_def stored_Cons)
  then have "hd (get_bytes m (p + 4) 4) \<noteq> 0" using assms(2,3) by (cases s) (simp_all add: get_bytes_def name_ok_def upt_rec)
  then have nt: "get_bytes m (p + 4) 4 \<notin> {FDT_NOP, FDT_PROP, FDT_BEGIN_NODE, FDT_END_NODE, FDT_END}"
    by (auto simp: FDT_NOP_def FDT_PROP_def FDT_BEGIN_NODE_def FDT_END_NODE_def FDT_END_def)
  have r: "read_node m d (p + 4) = Some (Inr (get_bytes m (p + 4) 4))" using e by (simp add: read_node_def)
  have "skip_to_next_node m d (p + 4) = Some (Inl ())"
    using nt skip_nop_token [OF r] r skip_padding_self [of "p + 4"] e by (subst skip_to_next_node.simps) simp
  then show ?thesis using e by (subst skip_to_next_node.simps) (simp add: at_item_token [OF t] uadd_def)
qed

lemma skip_to_next_node_items:
  assumes "at_item m d q p (concat (map enc items) @ FDT_END_NODE)" "\<forall>x \<in> set items. item_ok m d names x"
    "\<exists>x \<in> set items. \<exists>s sub. x = Node s sub" "\<forall>x \<in> set items. \<forall>sub. x \<noteq> Node [] sub"
  shows "skip_to_next_node m d q = Some (Inl ())"
  using assms
proof (induction items arbitrary: q p)
  case (Cons x items)
  show ?case
  proof (cases x)
    case Nop
    have a: "at_item m d q p (enc Nop @ concat (map enc items) @ FDT_END_NODE)" using Cons.prems(1) Nop by simp
    have "at_item m d (p + 4) (p + 4) (concat (map enc items) @ FDT_END_NODE)" using at_item_later [OF a] by simp
    from Cons.IH [OF this] Cons.prems(2-4) Nop show ?thesis by (simp add: skip_to_next_node_nop [OF a])
  next
    case (Property s v)
    have a: "at_item m d q p (enc (Property s v) @ concat (map enc items) @ FDT_END_NODE)" using Cons.prems(1) Property by simp
    have ok: "item_ok m d names (Property s v)" using Cons.prems(2) Property by simp
    from Cons.IH [OF at_item_property(4) [OF a ok]] Cons.prems(2-4) Property show ?thesis
      by (simp add: skip_to_next_node_property [OF a ok])
  next
    case (Node s sub)
    then show ?thesis using Cons.prems skip_to_next_node_child [of m d q p s sub "concat (map enc items) @ FDT_END_NODE"] by auto
  qed
qed simp

section \<open>Printing a tree\<close>

text \<open>The blob of a tree: header, structure block and strings block.\<close>

definition flatten :: "u8 list \<Rightarrow> dt_item \<Rightarrow> u8 list" where
  "flatten strs root =
     (let s = length (enc root) + 4; t = length strs
      in be_bytes 4 0xd00dfeed @ be_bytes 4 (40 + s + t) @ be_bytes 4 40 @ be_bytes 4 (40 + s) @ be_bytes 4 0 @
         be_bytes 4 17 @ be_bytes 4 16 @ be_bytes 4 0 @ be_bytes 4 t @ be_bytes 4 s) @ enc root @ FDT_END @ strs"

definition name_at :: "u8 list \<Rightarrow> u32 \<Rightarrow> u8 list" where
  "name_at strs s = takeWhile (\<lambda>b. b \<noteq> 0) (drop (unat s) strs)"

fun tree_ok :: "u8 list \<Rightarrow> dt_item \<Rightarrow> bool" where
  "tree_ok strs Nop \<longleftrightarrow> True"
| "tree_ok strs (Property s v) \<longleftrightarrow> 0 \<in> set (drop (unat s) strs) \<and>
     (name_at strs s \<in> {PROP_ADDRESS_CELLS, PROP_SIZE_CELLS} \<longrightarrow> 4 \<le> length v)"
| "tree_ok strs (Node n items) \<longleftrightarrow> name_ok n \<and> (\<forall>x \<in> set items. tree_ok strs x)"

text \<open>The blob of the tree is in memory at \<open>a\<close>.\<close>

definition flat_at :: "bmem \<Rightarrow> usize \<Rightarrow> u8 list \<Rightarrow> dt_item \<Rightarrow> bool" where
  "flat_at m a strs root \<longleftrightarrow> stored m a (flatten strs root) \<and> 4 dvd a \<and> a + length (flatten strs root) < usize_limit \<and>
     length (flatten strs root) < 2 ^ 32 \<and> tree_ok strs root \<and> (\<exists>n items. root = Node n items)"

lemma be32_stored: "stored m a (be_bytes 4 v) \<Longrightarrow> v < 2 ^ 32 \<Longrightarrow> unat (be32 m a) = v"
  by (simp add: be32_def stored_def unat_of_nat)

lemma takeWhile_zero: "0 \<in> set xs \<Longrightarrow> \<exists>ys. xs = takeWhile (\<lambda>b. b \<noteq> 0) xs @ 0 # ys" for xs :: "u8 list"
  by (induction xs) auto

lemma name_at_stored:
  assumes "stored m t strs" "0 \<in> set (drop (unat s) strs)" "t + length strs < usize_limit"
  shows "unat s < length strs" "name_ok (name_at strs s)" "t + unat s + length (name_at strs s) < usize_limit"
    "stored m (t + unat s) (name_at strs s @ [0])"
proof -
  let ?r = "drop (unat s) strs"
  show s: "unat s < length strs" using assms(2) by (cases "unat s < length strs") auto
  show "name_ok (name_at strs s)" by (auto simp: name_ok_def name_at_def dest: set_takeWhileD)
  obtain ys where r: "?r = name_at strs s @ 0 # ys"
    using takeWhile_zero [OF assms(2)] unfolding name_at_def by blast
  from arg_cong [OF this, of length] have "length (name_at strs s) + 1 \<le> length strs - unat s" by simp
  then show "t + unat s + length (name_at strs s) < usize_limit" using s assms(3) by linarith
  have "stored m (t + unat s) ?r" by (rule stored_drop [OF assms(1)]) (use s in simp)
  then show "stored m (t + unat s) (name_at strs s @ [0])" unfolding r by (simp add: stored_Cons)
qed

lemma length_enc_item: "x \<in> set items \<Longrightarrow> length (enc x) \<le> length (concat (map enc items))"
  by (induction items) auto

lemma tree_item_ok:
  assumes "tree_ok strs x" "get_string_offset m d = Some t" "get_string_size m d = length strs" "stored m t strs" "t + length strs < usize_limit"
    "length (enc x) < 2 ^ 32"
  shows "item_ok m d (name_at strs) x"
  using assms(1,6)
proof (induction x)
  case (Property s v)
  have "length v \<le> length (padded v)" by (simp add: length_padded align_le)
  with Property show ?case using name_at_stored [OF assms(4) _ assms(5), of s] assms(2,3) by (simp add: prop_name_ok_def)
next
  case (Node n items)
  have "length (enc y) < 2 ^ 32" if "y \<in> set items" for y using length_enc_item [OF that] Node.prems(2) by simp
  with Node show ?case by auto
qed simp

lemma flat_blob:
  assumes "flat_at m a strs root"
  shows "blob m \<lparr>dtb_header = a\<rparr> (name_at strs) root" "get_struct_offset m \<lparr>dtb_header = a\<rparr> = Some (a + 40)"
    "Dtb_new m a = Inr \<lparr>dtb_header = a\<rparr>"
proof -
  let ?d = "\<lparr>dtb_header = a\<rparr>" and ?s = "length (enc root) + 4" and ?t = "length strs"
  have f: "stored m a (flatten strs root)" "4 dvd a" "a + length (flatten strs root) < usize_limit"
    "length (flatten strs root) < 2 ^ 32" "tree_ok strs root" "\<exists>n items. root = Node n items"
    using assms by (simp_all add: flat_at_def)
  have len: "length (flatten strs root) = 40 + ?s + ?t" by (simp add: flatten_def Let_def)
  have st: "stored m a (be_bytes 4 0xd00dfeed)" "stored m (a + 8) (be_bytes 4 40)" "stored m (a + 12) (be_bytes 4 (40 + ?s))"
    "stored m (a + 20) (be_bytes 4 17)" "stored m (a + 32) (be_bytes 4 ?t)" "stored m (a + 36) (be_bytes 4 ?s)"
    "stored m (a + 40) (enc root @ FDT_END)" "stored m (a + (40 + ?s)) strs"
    using f(1) by (simp_all add: flatten_def Let_def add.assoc)
  have h: "unat (be32 m a) = 0xd00dfeed" "unat (be32 m (a + 8)) = 40" "unat (be32 m (a + 12)) = 40 + ?s" "unat (be32 m (a + 20)) = 17"
    "unat (be32 m (a + 32)) = ?t" "unat (be32 m (a + 36)) = ?s"
    using st(1-6) [THEN be32_stored] f(4) len by simp_all
  show off: "get_struct_offset m ?d = Some (a + 40)"
    using h(2) f(3) len by (simp add: get_struct_offset_def load_header_def uadd_def)
  have e: "struct_end m ?d = Some (a + 40 + length (enc root) + 4)"
    using h(6) f(3) len by (simp add: struct_end_def off get_struct_size_def load_header_def uadd_def)
  have so: "get_string_offset m ?d = Some (a + (40 + ?s))" "get_string_size m ?d = ?t"
    using h(3,5) f(3) len by (simp_all add: get_string_offset_def get_string_size_def load_header_def uadd_def)
  have "item_ok m ?d (name_at strs) root"
    by (rule tree_item_ok [OF f(5) so st(8)]) (use f(3,4) len in simp_all)
  moreover have "at_item m ?d (a + 40) (a + 40) (enc root @ FDT_END)"
    using st(7) f(2,3) len e by (simp add: at_item_def skip_padding_self)
  ultimately show "blob m ?d (name_at strs) root" using f(6) e off by (auto simp: blob_def simp del: enc.simps)
  have "be32 m a = 0xd00dfeed" "be32 m (a + 20) = 17" using h(1,4) by (simp_all add: word_unat_eq_iff)
  then show "Dtb_new m a = Inr ?d" by (simp add: Dtb_new_def load_header_def FDT_MAGIC_def FDT_VERSION_def)
qed

section \<open>The parser on printed trees\<close>

definition dt_nodes :: "usize \<Rightarrow> u8 list \<Rightarrow> dt_item \<Rightarrow> (u8 list \<times> DtbNode \<times> dt_item list) list" where
  "dt_nodes a strs root = nodes_of (name_at strs) (a + 40) (DEFAULT_ADDRESS_CELLS, DEFAULT_SIZE_CELLS) [root]"

lemma tree_nodes_flat: "flat_at m a strs root \<Longrightarrow> tree_nodes m \<lparr>dtb_header = a\<rparr> (name_at strs) root = dt_nodes a strs root"
  by (simp add: tree_nodes_def dt_nodes_def flat_blob(2))

text \<open>C37.  Searching by name.  When the blob of a tree is in memory, \<open>Dtb::new\<close> accepts it; a search for a
  name from the start finds the first node, in the order of the blob, that has this name with or without
  a unit address, and nothing when there is none; and for every node of the tree, \<open>get_property\<close> finds
  the first property of a given name among those before the first child, with exactly its
  value, and nothing when there is none.\<close>

theorem dtb_search_correct:
  assumes "flat_at m a strs root" "name_ok n" "name_ok prop"
  shows "Dtb_new m a = Inr \<lparr>dtb_header = a\<rparr> \<and>
    search_node m \<lparr>dtb_header = a\<rparr> n None = Some (first_node (\<lambda>x. name_matches n (fst x)) (dt_nodes a strs root)) \<and>
    (\<forall>(s, x, items) \<in> set (dt_nodes a strs root).
       case lookup (name_at strs) (node_address_cells x, node_size_cells x) prop items of
         None \<Rightarrow> get_property m \<lparr>dtb_header = a\<rparr> x prop = Some None
       | Some (v, c) \<Rightarrow> \<exists>info. get_property m \<lparr>dtb_header = a\<rparr> x prop = Some (Some info) \<and> read_property_as_u8_array m info = v)"
  using flat_blob(3) [OF assms(1)] search_node_blob [OF flat_blob(1) [OF assms(1)] assms(2)]
    get_property_blob [OF flat_blob(1) [OF assms(1)] _ assms(3)]
  unfolding tree_nodes_flat [OF assms(1)] by (fastforce simp: describes_def split: option.splits)

text \<open>C38.  Searching by \<open>compatible\<close>.  When the properties of every node come before its children and the
  values of \<open>compatible\<close> are lists of zero-ended strings, the search from the start finds the
  first node, in the order of the blob, one of whose strings is the one asked for, and nothing when there
  is none.\<close>

theorem dtb_search_compatible_correct:
  assumes "flat_at m a strs root" "name_ok c" "compatible_ok (name_at strs) [root]"
  shows "\<exists>x. search_node_by_compatible m \<lparr>dtb_header = a\<rparr> c None = Some x \<and>
    map_option node_address x =
      map_option node_address (first_node (\<lambda>x. compatible_items (name_at strs) c (snd (snd x))) (dt_nodes a strs root))"
  using search_node_by_compatible_blob [OF flat_blob(1) [OF assms(1)] assms(2,3)] unfolding tree_nodes_flat [OF assms(1)] .

text \<open>C39.  Entries of \<open>reg\<close>.  For entry \<open>i\<close> of the \<open>reg\<close> property of a node, \<open>read_reg_property\<close> gives the address
  and the size that its big-endian cells hold, and \<open>write_reg_size\<close> succeeds and changes exactly the
  size cells, to the new size.  The cell counts are those the node inherits, changed by
  what the node itself has before \<open>reg\<close>.\<close>

theorem dtb_reg_correct:
  assumes "flat_at m a strs root" "(s, x, items) \<in> set (dt_nodes a strs root)"
    and "lookup (name_at strs) (node_address_cells x, node_size_cells x) PROP_REG items = Some (v, ac, sc)"
    and "4 * ((unat ac + unat sc) * (i + 1)) \<le> length v" "value < usize_limit" "k = (unat ac + unat sc) * i"
  shows "read_reg_property m \<lparr>dtb_header = a\<rparr> x i =
      Some (Some (be_nat (field v k (unat ac)) mod usize_limit, be_nat (field v (k + unat ac) (unat sc)) mod usize_limit)) \<and>
    (\<exists>info. get_property m \<lparr>dtb_header = a\<rparr> x PROP_REG = Some (Some info) \<and>
      write_reg_size m \<lparr>dtb_header = a\<rparr> x i value =
        Some (Inr (), put_bytes (prop_address info + 4 * (k + unat ac)) (be_bytes (4 * unat sc) value) m))"
proof -
  obtain info where "get_property m \<lparr>dtb_header = a\<rparr> x PROP_REG = Some (Some info)" "describes m info (v, ac, sc)"
    using get_property_blob [OF flat_blob(1) [OF assms(1)], of s x items PROP_REG] assms(2,3) by (auto simp: tree_nodes_flat [OF assms(1)])
  from reg_access [OF this assms(4)] this(1) assms(5,6) show ?thesis by simp
qed

text \<open>C40.  Going on with a search.  A search that starts after a node which has a child finds nothing, whatever
  follows the node in the tree: the name of the child is taken for a token.\<close>

theorem dtb_search_on_stops_at_children:
  assumes "flat_at m a strs root" "(s, x, items) \<in> set (dt_nodes a strs root)" "Node t sub \<in> set items"
    and "\<forall>y \<in> set items. \<forall>sub. y \<noteq> Node [] sub"
  shows "search_node m \<lparr>dtb_header = a\<rparr> n (Some x) = Some None \<and> search_node_by_compatible m \<lparr>dtb_header = a\<rparr> c (Some x) = Some None"
proof -
  have "skip_to_next_node m \<lparr>dtb_header = a\<rparr> (node_address x) = Some (Inl ())"
    using skip_to_next_node_items [OF tree_nodes_stored [OF flat_blob(1) [OF assms(1)], unfolded tree_nodes_flat [OF assms(1)], OF assms(2)]]
      assms(3,4) by blast
  then show ?thesis by (simp add: search_node_def search_node_by_compatible_def search_from_def)
qed

text \<open>An example: a root with \<open>#address-cells\<close> and \<open>#size-cells\<close> of one, a node \<open>memory@0\<close> with a \<open>reg\<close> of one
  entry, and a node \<open>soc\<close> with the \<open>compatible\<close> string \<open>bus\<close> and a child \<open>uart\<close>.\<close>

definition example_strs :: "u8 list" where
  "example_strs = PROP_ADDRESS_CELLS @ [0] @ PROP_SIZE_CELLS @ [0] @ PROP_REG @ [0] @ PROP_COMPATIBLE @ [0]"

definition example_root :: dt_item where
  "example_root = Node [] [Property 0 [0, 0, 0, 1], Property 15 [0, 0, 0, 1],
     Node [109, 101, 109, 111, 114, 121, 64, 48] [Property 27 [64, 0, 0, 0, 8, 0, 0, 0]],
     Nop,
     Node NODE_SOC [Property 31 [98, 117, 115, 0], Node [117, 97, 114, 116] []]]"

definition example_tree_mem :: bmem where
  "example_tree_mem = put_bytes 4 (flatten example_strs example_root) (\<lambda>_. 0)"

lemma example_names:
  "name_at example_strs 0 = PROP_ADDRESS_CELLS" "name_at example_strs 15 = PROP_SIZE_CELLS"
  "name_at example_strs 27 = PROP_REG" "name_at example_strs 31 = PROP_COMPATIBLE"
  by (simp_all add: name_at_def example_strs_def PROP_ADDRESS_CELLS_def PROP_SIZE_CELLS_def PROP_REG_def PROP_COMPATIBLE_def)

lemma prop_names_distinct [simp]: "PROP_ADDRESS_CELLS \<noteq> PROP_SIZE_CELLS" "PROP_SIZE_CELLS \<noteq> PROP_ADDRESS_CELLS"
  "PROP_ADDRESS_CELLS \<noteq> PROP_REG" "PROP_SIZE_CELLS \<noteq> PROP_REG" "PROP_REG \<noteq> PROP_ADDRESS_CELLS" "PROP_REG \<noteq> PROP_SIZE_CELLS"
  "PROP_COMPATIBLE \<noteq> PROP_ADDRESS_CELLS" "PROP_COMPATIBLE \<noteq> PROP_SIZE_CELLS" "PROP_COMPATIBLE \<noteq> PROP_REG" "PROP_REG \<noteq> PROP_COMPATIBLE"
  "PROP_ADDRESS_CELLS \<noteq> PROP_COMPATIBLE" "PROP_SIZE_CELLS \<noteq> PROP_COMPATIBLE"
  by (simp_all add: PROP_ADDRESS_CELLS_def PROP_SIZE_CELLS_def PROP_REG_def PROP_COMPATIBLE_def)

lemma example_flat: "flat_at example_tree_mem 4 example_strs example_root"
proof -
  have l: "length (flatten example_strs example_root) = 218"
    by (simp add: flatten_def Let_def example_root_def example_strs_def length_padded align_def NODE_SOC_def
        PROP_ADDRESS_CELLS_def PROP_SIZE_CELLS_def PROP_REG_def PROP_COMPATIBLE_def)
  have t: "tree_ok example_strs example_root"
    by (simp add: example_root_def example_names) (simp add: example_strs_def name_ok_def NODE_SOC_def
        PROP_ADDRESS_CELLS_def PROP_SIZE_CELLS_def PROP_REG_def PROP_COMPATIBLE_def)
  show ?thesis unfolding flat_at_def l using t
    by (auto simp: example_tree_mem_def stored_def usize_limit_def example_root_def)
qed

lemma example_nodes:
  "dt_nodes 4 example_strs example_root =
    [([], \<lparr>node_address = 52, node_address_cells = 2, node_size_cells = 1\<rparr>,
        [Property 0 [0, 0, 0, 1], Property 15 [0, 0, 0, 1], Node [109, 101, 109, 111, 114, 121, 64, 48] [Property 27 [64, 0, 0, 0, 8, 0, 0, 0]],
         Nop, Node NODE_SOC [Property 31 [98, 117, 115, 0], Node [117, 97, 114, 116] []]]),
     ([109, 101, 109, 111, 114, 121, 64, 48], \<lparr>node_address = 100, node_address_cells = 1, node_size_cells = 1\<rparr>,
        [Property 27 [64, 0, 0, 0, 8, 0, 0, 0]]),
     (NODE_SOC, \<lparr>node_address = 136, node_address_cells = 1, node_size_cells = 1\<rparr>,
        [Property 31 [98, 117, 115, 0], Node [117, 97, 114, 116] []]),
     ([117, 97, 114, 116], \<lparr>node_address = 164, node_address_cells = 1, node_size_cells = 1\<rparr>, [])]"
  by (simp add: dt_nodes_def example_root_def cells_after_def example_names Let_def length_padded align_def be_nat_def
    DEFAULT_ADDRESS_CELLS_def DEFAULT_SIZE_CELLS_def NODE_SOC_def)

text \<open>\<open>memory\<close> is found and has a \<open>reg\<close>.\<close>

theorem dtb_search_correct_witness:
  "\<exists>x info. search_node example_tree_mem \<lparr>dtb_header = 4\<rparr> [109, 101, 109, 111, 114, 121] None = Some (Some x) \<and>
     get_property example_tree_mem \<lparr>dtb_header = 4\<rparr> x PROP_REG = Some (Some info) \<and>
     read_property_as_u8_array example_tree_mem info = [64, 0, 0, 0, 8, 0, 0, 0]"
proof -
  have n: "name_ok [109, 101, 109, 111, 114, 121]" by (simp add: name_ok_def)
  have "first_node (\<lambda>x. name_matches [109, 101, 109, 111, 114, 121] (fst x)) (dt_nodes 4 example_strs example_root) =
      Some \<lparr>node_address = 100, node_address_cells = 1, node_size_cells = 1\<rparr>"
    by (simp add: example_nodes name_matches_def)
  with dtb_search_correct [OF example_flat n prop_names_ok(3)] show ?thesis
    by (simp add: example_nodes example_names)
qed

theorem dtb_search_compatible_correct_witness:
  "\<exists>x. search_node_by_compatible example_tree_mem \<lparr>dtb_header = 4\<rparr> [98, 117, 115] None = Some (Some x) \<and> node_address x = 136"
proof -
  have c: "name_ok [98, 117, 115]" "compatible_ok (name_at example_strs) [example_root]"
    by (simp_all add: name_ok_def example_root_def example_names)
  have "first_node (\<lambda>x. compatible_items (name_at example_strs) [98, 117, 115] (snd (snd x))) (dt_nodes 4 example_strs example_root) =
      Some \<lparr>node_address = 136, node_address_cells = 1, node_size_cells = 1\<rparr>"
    by (simp add: example_nodes example_names)
  with dtb_search_compatible_correct [OF example_flat c] show ?thesis by auto
qed

text \<open>The memory node says 128 MiB at 1 GiB.\<close>

theorem dtb_reg_correct_witness:
  "read_reg_property example_tree_mem \<lparr>dtb_header = 4\<rparr> \<lparr>node_address = 100, node_address_cells = 1, node_size_cells = 1\<rparr> 0 =
     Some (Some (0x40000000, 0x8000000))"
proof -
  have m: "([109, 101, 109, 111, 114, 121, 64, 48], \<lparr>node_address = 100, node_address_cells = 1, node_size_cells = 1\<rparr>,
      [Property 27 [64, 0, 0, 0, 8, 0, 0, 0]]) \<in> set (dt_nodes 4 example_strs example_root)"
    by (simp add: example_nodes)
  from dtb_reg_correct [OF example_flat m, of "[64, 0, 0, 0, 8, 0, 0, 0]" 1 1 0 0 0] show ?thesis
    by (simp add: example_names cells_after_def usize_limit_def field_def be_nat_def)
qed

theorem dtb_search_on_stops_at_children_witness:
  "search_node example_tree_mem \<lparr>dtb_header = 4\<rparr> [117, 97, 114, 116]
     (Some \<lparr>node_address = 136, node_address_cells = 1, node_size_cells = 1\<rparr>) = Some None"
proof -
  have m: "(NODE_SOC, \<lparr>node_address = 136, node_address_cells = 1, node_size_cells = 1\<rparr>,
      [Property 31 [98, 117, 115, 0], Node [117, 97, 114, 116] []]) \<in> set (dt_nodes 4 example_strs example_root)"
    by (simp add: example_nodes)
  from dtb_search_on_stops_at_children [OF example_flat m, of "[117, 97, 114, 116]" "[]"] show ?thesis by simp
qed

end
