(* ===== verification/Spec2Isabelle.thy ===== *)
theory Spec2Isabelle
  imports Gic_Distributor Ticket_Lock Pl011_Mmio Paging_Stage2 Fat32_Files Exception Psci Dtb_Tree
begin

text \<open>
  MiniVisorPi: a verification library for the AArch64 hypervisor under \<^verbatim>\<open>src/src\<close>.

  \<^bold>\<open>The program.\<close>  A type-1 hypervisor for QEMU's \<open>virt\<close> board and the Raspberry Pi 4.  A
  guest runs at EL1 behind stage-2 translation; its accesses to emulated devices trap to
  EL2 (\<^verbatim>\<open>exception.rs\<close>), are dispatched by address (\<^verbatim>\<open>vm.rs\<close>) to a device model
  (\<^verbatim>\<open>mmio/*.rs\<close>), and interrupts reach the guest through the virtual GIC
  (\<^verbatim>\<open>vgic.rs\<close>, \<^verbatim>\<open>mmio/gicv2.rs\<close>).

  \<^bold>\<open>Theories.\<close>
  \<^item> \<open>Prelude\<close>: machine integers, panics as \<open>None\<close>, loops, total and partial correctness rules.
  \<^item> \<open>Vgic\<close>: the List Registers (\<^verbatim>\<open>vgic_lr.rs\<close>, \<^verbatim>\<open>vgic.rs\<close>).
  \<^item> \<open>Gic_Distributor\<close>: the virtual Distributor (\<^verbatim>\<open>mmio/gicv2.rs\<close>) and the maintenance interrupt.
\<close>

end
